(* ===== verification/Rust_Prelude.thy ===== *)
theory Rust_Prelude
  imports Main "HOL-Library.Word"
begin

text \<open>
  Shared vocabulary of the development: machine integers, byte buffers, the result type of a
  fallible Rust function and the \<open>?\<close> operator, the checked, saturating and converting integer
  operations of the Rust standard library, \<open>to_be_bytes\<close>/\<open>from_be_bytes\<close> and their little
  endian versions, UTF-8 validation as done by \<open>std::str::from_utf8\<close>, and the generic lemmas on
  lists, words and results that every component uses.

  Conventions.  \<open>u8\<close> to \<open>u64\<close> are words of that width.  \<open>usize\<close> is 64 bits wide; lengths and
  indices of in-memory buffers are \<open>nat\<close>, and every overflow check the source makes on them is
  written out against \<open>2 ^ 64\<close>.  A Rust \<open>str\<close> or \<open>String\<close> is its UTF-8 byte sequence.
\<close>

unbundle bit_operations_syntax

section \<open>Types\<close>

type_synonym u8 = "8 word"
type_synonym u16 = "16 word"
type_synonym u32 = "32 word"
type_synonym u64 = "64 word"
type_synonym bytes = "u8 list"
type_synonym rust_string = "u8 list"

named_theorems result_iff \<open>when a sequence of fallible steps returns a value\<close>
named_theorems byte_simps \<open>lengths and round trips of byte encodings\<close>

section \<open>Results and the question mark operator\<close>

definition and_then :: "'e + 'a \<Rightarrow> ('a \<Rightarrow> 'e + 'b) \<Rightarrow> 'e + 'b" where
  "and_then m f = (case m of Inl e \<Rightarrow> Inl e | Inr x \<Rightarrow> f x)"

definition ok_or :: "'e \<Rightarrow> 'a option \<Rightarrow> 'e + 'a" where
  "ok_or e m = (case m of None \<Rightarrow> Inl e | Some x \<Rightarrow> Inr x)"

definition result_map :: "('a \<Rightarrow> 'b) \<Rightarrow> 'e + 'a \<Rightarrow> 'e + 'b" where
  "result_map f m = and_then m (\<lambda>x. Inr (f x))"

lemma and_then_simps [simp]:
  "and_then (Inl e) f = Inl e"
  "and_then (Inr x) f = f x"
  by (simp_all add: and_then_def)

lemma ok_or_simps [simp]:
  "ok_or e None = Inl e"
  "ok_or e (Some x) = Inr x"
  by (simp_all add: ok_or_def)

lemma result_map_simps [simp]:
  "result_map f (Inl e) = Inl e"
  "result_map f (Inr x) = Inr (f x)"
  by (simp_all add: result_map_def)

lemma and_then_cong [fundef_cong]:
  "m = m' \<Longrightarrow> (\<And>x. m' = Inr x \<Longrightarrow> f x = g x) \<Longrightarrow> and_then m f = and_then m' g"
  by (auto simp: and_then_def split: sum.splits)

lemma and_then_Inr [result_iff]: "and_then m f = Inr y \<longleftrightarrow> (\<exists>x. m = Inr x \<and> f x = Inr y)"
  by (cases m) auto

lemma ok_or_Inr [result_iff]: "ok_or e m = Inr x \<longleftrightarrow> m = Some x"
  by (cases m) auto

lemma result_map_Inr [result_iff]: "result_map f m = Inr y \<longleftrightarrow> (\<exists>x. m = Inr x \<and> y = f x)"
  by (cases m) auto

lemma if_Inr [result_iff]: "(if b then Inl e else m) = Inr x \<longleftrightarrow> \<not> b \<and> m = Inr x"
  by simp

lemma if_Inr2 [result_iff]: "(if b then m else Inl e) = Inr x \<longleftrightarrow> b \<and> m = Inr x"
  by simp

text \<open>Running a fallible step over a list, left to right, stopping at the first error.\<close>

fun map_result :: "('a \<Rightarrow> 'e + 'b) \<Rightarrow> 'a list \<Rightarrow> 'e + 'b list" where
  "map_result f [] = Inr []"
| "map_result f (x # xs) = and_then (f x) (\<lambda>y. and_then (map_result f xs) (\<lambda>ys. Inr (y # ys)))"

fun fold_result :: "('s \<Rightarrow> 'a \<Rightarrow> 'e + 's) \<Rightarrow> 's \<Rightarrow> 'a list \<Rightarrow> 'e + 's" where
  "fold_result f s [] = Inr s"
| "fold_result f s (x # xs) = and_then (f s x) (\<lambda>s'. fold_result f s' xs)"

lemma map_result_cong [fundef_cong]:
  "xs = ys \<Longrightarrow> (\<And>x. x \<in> set ys \<Longrightarrow> f x = g x) \<Longrightarrow> map_result f xs = map_result g ys"
  by (induction ys arbitrary: xs) auto

lemma map_result_Inr_iff:
  "map_result f xs = Inr ys \<longleftrightarrow> list_all2 (\<lambda>x y. f x = Inr y) xs ys"
proof (induction xs arbitrary: ys)
  case Nil
  then show ?case by auto
next
  case (Cons x xs)
  then show ?case by (cases ys) (auto simp: result_iff)
qed

lemma map_result_all_Inr: "(\<And>x. x \<in> set xs \<Longrightarrow> f x = Inr (g x)) \<Longrightarrow> map_result f xs = Inr (map g xs)"
  by (induction xs) auto

lemma map_result_length: "map_result f xs = Inr ys \<Longrightarrow> length ys = length xs"
  by (auto simp: map_result_Inr_iff list_all2_lengthD)

lemma map_result_nth: "map_result f xs = Inr ys \<Longrightarrow> i < length xs \<Longrightarrow> f (xs ! i) = Inr (ys ! i)"
  by (auto simp: map_result_Inr_iff dest: list_all2_nthD)

lemma fold_result_append:
  "fold_result f s (xs @ ys) = and_then (fold_result f s xs) (\<lambda>s'. fold_result f s' ys)"
  by (induction xs arbitrary: s) (auto simp: and_then_def split: sum.splits)

text \<open>The loop rule of \<open>fold_result\<close>: an invariant indexed by the elements already handled.\<close>

lemma fold_result_invariant:
  assumes "fold_result f s xs = Inr t" and "P [] s"
    and "\<And>ys y zs u v. xs = ys @ y # zs \<Longrightarrow> P ys u \<Longrightarrow> f u y = Inr v \<Longrightarrow> P (ys @ [y]) v"
  shows "P xs t"
  using assms
proof (induction xs arbitrary: t rule: rev_induct)
  case Nil
  then show ?case by simp
next
  case (snoc x xs)
  from snoc.prems(1) obtain u where u: "fold_result f s xs = Inr u" and t: "f u x = Inr t"
    by (auto simp: fold_result_append result_iff)
  have "P xs u"
    by (rule snoc.IH [OF u snoc.prems(2)]) (rule snoc.prems(3), auto)
  from snoc.prems(3) [OF _ this t] show ?case by simp
qed

section \<open>Integer operations\<close>

definition checked_add :: "'a::len word \<Rightarrow> 'a word \<Rightarrow> 'a word option" where
  "checked_add a b = (if unat a + unat b < 2 ^ LENGTH('a) then Some (a + b) else None)"

definition checked_sub :: "'a::len word \<Rightarrow> 'a word \<Rightarrow> 'a word option" where
  "checked_sub a b = (if b \<le> a then Some (a - b) else None)"

definition checked_mul :: "'a::len word \<Rightarrow> 'a word \<Rightarrow> 'a word option" where
  "checked_mul a b = (if unat a * unat b < 2 ^ LENGTH('a) then Some (a * b) else None)"

definition saturating_add :: "'a::len word \<Rightarrow> 'a word \<Rightarrow> 'a word" where
  "saturating_add a b = (if unat a + unat b < 2 ^ LENGTH('a) then a + b else - 1)"

definition try_from_word :: "'a::len word \<Rightarrow> 'b::len word option" where
  "try_from_word a = (if unat a < 2 ^ LENGTH('b) then Some (ucast a) else None)"

definition try_from_nat :: "nat \<Rightarrow> 'b::len word option" where
  "try_from_nat n = (if n < 2 ^ LENGTH('b) then Some (of_nat n) else None)"

text \<open>The same checks on \<open>usize\<close> values kept as natural numbers.\<close>

definition usize_checked_add :: "nat \<Rightarrow> nat \<Rightarrow> nat option" where
  "usize_checked_add a b = (if a + b < 2 ^ 64 then Some (a + b) else None)"

definition usize_checked_mul :: "nat \<Rightarrow> nat \<Rightarrow> nat option" where
  "usize_checked_mul a b = (if a * b < 2 ^ 64 then Some (a * b) else None)"

lemma unat_lt2p: "unat w < 2 ^ LENGTH('a)" for w :: "'a::len word"
  by (rule unsigned_less)

lemma checked_add_Some [result_iff]:
  "checked_add a b = Some c \<longleftrightarrow> unat a + unat b < 2 ^ LENGTH('a) \<and> c = a + b"
  for a b c :: "'a::len word"
  by (auto simp: checked_add_def)

lemma unat_add_fits: "unat a + unat b < 2 ^ LENGTH('a) \<Longrightarrow> unat (a + b) = unat a + unat b"
  for a b :: "'a::len word"
  by (simp add: unat_word_ariths)

lemma unat_mult_fits: "unat a * unat b < 2 ^ LENGTH('a) \<Longrightarrow> unat (a * b) = unat a * unat b"
  for a b :: "'a::len word"
  by (simp add: unat_word_ariths)

lemma unat_sub_le: "b \<le> a \<Longrightarrow> unat (a - b) = unat a - unat b"
  for a b :: "'a::len word"
  by (rule unat_sub)

lemma checked_add_unat: "checked_add a b = Some c \<Longrightarrow> unat c = unat a + unat b"
  by (auto simp: result_iff unat_add_fits)

lemma checked_sub_Some [result_iff]: "checked_sub a b = Some c \<longleftrightarrow> b \<le> a \<and> c = a - b"
  by (auto simp: checked_sub_def)

lemma try_from_word_Some [result_iff]:
  "(try_from_word a :: 'b::len word option) = Some b \<longleftrightarrow> unat a < 2 ^ LENGTH('b) \<and> b = ucast a"
  by (auto simp: try_from_word_def)

lemma try_from_nat_Some [result_iff]:
  "(try_from_nat n :: 'b::len word option) = Some b \<longleftrightarrow> n < 2 ^ LENGTH('b) \<and> b = of_nat n"
  by (auto simp: try_from_nat_def)

lemma usize_checked_add_Some [result_iff]:
  "usize_checked_add a b = Some c \<longleftrightarrow> a + b < 2 ^ 64 \<and> c = a + b"
  by (auto simp: usize_checked_add_def)

lemma usize_checked_mul_Some [result_iff]:
  "usize_checked_mul a b = Some c \<longleftrightarrow> a * b < 2 ^ 64 \<and> c = a * b"
  by (auto simp: usize_checked_mul_def)

lemma unat_ucast_le: "unat a < 2 ^ LENGTH('b) \<Longrightarrow> unat (ucast a :: 'b::len word) = unat a"
  for a :: "'a::len word"
  by (simp add: unsigned_ucast_eq take_bit_nat_eq_self)

lemma unat_ucast_wide: "LENGTH('a) \<le> LENGTH('b) \<Longrightarrow> unat (ucast a :: 'b::len word) = unat a"
  for a :: "'a::len word"
proof -
  assume "LENGTH('a) \<le> LENGTH('b)"
  then have "(2 :: nat) ^ LENGTH('a) \<le> 2 ^ LENGTH('b)" by (rule power_increasing) simp
  with unsigned_less [of a] have "unat a < 2 ^ LENGTH('b)" by (rule order_less_le_trans)
  then show ?thesis by (rule unat_ucast_le)
qed

lemma unat_of_nat_fits: "n < 2 ^ LENGTH('b) \<Longrightarrow> unat (of_nat n :: 'b::len word) = n"
  by (simp add: unat_of_nat take_bit_nat_eq_self)

section \<open>Rounding up to a multiple\<close>

definition round_up :: "nat \<Rightarrow> nat \<Rightarrow> nat" where
  "round_up a n = (if a \<le> 1 then n else if n mod a = 0 then n else n + (a - n mod a))"

lemma round_up_ge: "n \<le> round_up a n"
  by (simp only: round_up_def le_add1 order_refl simp_thms split: if_split)

lemma round_up_dvd: "0 < a \<Longrightarrow> a dvd round_up a n"
proof -
  assume a: "0 < a"
  then have "n mod a \<le> a" by simp
  then have "n + (a - n mod a) = n div a * a + a" by (metis add.assoc div_mult_mod_eq le_add_diff_inverse)
  then show ?thesis using a by (auto simp: round_up_def le_Suc_eq mod_eq_0_iff_dvd)
qed

lemma round_up_lt: "0 < a \<Longrightarrow> round_up a n < n + a"
  by (auto simp: round_up_def)

lemma round_up_add: "a dvd c \<Longrightarrow> round_up a (c + n) = c + round_up a n"
proof -
  assume "a dvd c"
  then have m: "(c + n) mod a = n mod a" by (auto elim: dvdE)
  show ?thesis by (simp only: round_up_def m add.assoc split: if_split) simp
qed

lemma round_up_div: "0 < a \<Longrightarrow> (n + (a - 1)) div a * a = round_up a n"
proof -
  assume a: "0 < a"
  let ?q = "n div a" let ?r = "n mod a"
  have n: "n = ?q * a + ?r" by simp
  show ?thesis
  proof (cases "?r = 0")
    case True
    have "(?q * a + (a - 1)) div a = ?q + (a - 1) div a" using a by (intro div_mult_self3) simp
    then have "(?q * a + (a - 1)) div a = ?q" using a by simp
    then have "(n + (a - 1)) div a * a = n" using n True by simp
    then show ?thesis using True by (simp add: round_up_def)
  next
    case False
    have r: "?r < a" using a by simp
    have "n + (a - 1) = (?q + 1) * a + (?r - 1)" using False r n by simp
    also have "\<dots> div a = ?q + 1" using a r by (subst div_mult_self3) simp_all
    finally have "(n + (a - 1)) div a * a = ?q * a + a" by simp
    also have "\<dots> = n + (a - ?r)" using n r by linarith
    finally show ?thesis using False r by (simp add: round_up_def)
  qed
qed

lemma two_power_odd: "0 < n \<Longrightarrow> \<exists>m u. n = 2 ^ m * (2 * u + 1)" for n :: nat
proof (induction n rule: less_induct)
  case (less n)
  show ?case
  proof (cases "even n")
    case True
    then obtain k where k: "n = 2 * k" by (elim evenE)
    with less obtain m u where "k = 2 ^ m * (2 * u + 1)" by force
    with k have "n = 2 ^ Suc m * (2 * u + 1)" by simp
    then show ?thesis by blast
  next
    case False
    then obtain u where "n = 2 * u + 1" by (elim oddE)
    then have "n = 2 ^ 0 * (2 * u + 1)" by simp
    then show ?thesis by blast
  qed
qed

text \<open>The usual test for a power of two.\<close>

lemma and_pred_zero: "0 < n \<Longrightarrow> n AND (n - 1) = 0 \<Longrightarrow> \<exists>m. n = 2 ^ m" for n :: nat
proof -
  assume "0 < n" and zero: "n AND (n - 1) = 0"
  then obtain m u where n: "n = 2 ^ m * (2 * u + 1)" using two_power_odd by blast
  have lt: "(2 :: nat) ^ m < 2 ^ Suc m" by simp
  then have lt': "(2 :: nat) ^ m - 1 < 2 ^ Suc m" by (rule le_less_trans [OF diff_le_self])
  have "n = u * 2 ^ Suc m + 2 ^ m" and "n - 1 = u * 2 ^ Suc m + (2 ^ m - 1)"
    using n by (simp_all add: algebra_simps)
  then have "drop_bit (Suc m) n = u" "drop_bit (Suc m) (n - 1) = u"
    using lt lt' by (simp_all only: drop_bit_eq_div div_mult_self3 div_less)
  then have "drop_bit (Suc m) (n AND (n - 1)) = u" by (simp add: drop_bit_and)
  with zero n show ?thesis by auto
qed

section \<open>Words and their bytes\<close>

fun to_le_bytes :: "nat \<Rightarrow> 'a::len word \<Rightarrow> bytes" where
  "to_le_bytes 0 w = []"
| "to_le_bytes (Suc n) w = ucast w # to_le_bytes n (drop_bit 8 w)"

fun from_le_bytes :: "bytes \<Rightarrow> 'a::len word" where
  "from_le_bytes [] = 0"
| "from_le_bytes (b # bs) = ucast b OR push_bit 8 (from_le_bytes bs)"

definition to_be_bytes :: "nat \<Rightarrow> 'a::len word \<Rightarrow> bytes" where
  "to_be_bytes n w = rev (to_le_bytes n w)"

definition from_be_bytes :: "bytes \<Rightarrow> 'a::len word" where
  "from_be_bytes bs = from_le_bytes (rev bs)"

lemma length_to_le_bytes [simp, byte_simps]: "length (to_le_bytes n w) = n"
  by (induction n arbitrary: w) auto

lemma length_to_be_bytes [simp, byte_simps]: "length (to_be_bytes n w) = n"
  by (simp add: to_be_bytes_def)

lemma from_to_le_bytes: "from_le_bytes (to_le_bytes n w) = take_bit (8 * n) w"
  for w :: "'a::len word"
proof (induction n arbitrary: w)
  case 0
  then show ?case by simp
next
  case (Suc n)
  show ?case
    by (rule bit_word_eqI)
      (auto simp: Suc bit_or_iff bit_ucast_iff bit_push_bit_iff bit_take_bit_iff bit_drop_bit_eq
        dest: bit_imp_le_length)
qed

lemma from_to_le_bytes_id [byte_simps]:
  "8 * n = LENGTH('a) \<Longrightarrow> from_le_bytes (to_le_bytes n w) = (w :: 'a::len word)"
  by (simp add: from_to_le_bytes take_bit_word_eq_self)

lemma from_to_be_bytes_id [byte_simps]:
  "8 * n = LENGTH('a) \<Longrightarrow> from_be_bytes (to_be_bytes n w) = (w :: 'a::len word)"
  by (simp add: from_be_bytes_def to_be_bytes_def from_to_le_bytes_id)

lemma to_from_le_bytes:
  "length bs = n \<Longrightarrow> 8 * n \<le> LENGTH('a) \<Longrightarrow> to_le_bytes n (from_le_bytes bs :: 'a::len word) = bs"
proof (induction bs arbitrary: n)
  case Nil
  then show ?case by simp
next
  case (Cons b bs)
  let ?w = "from_le_bytes bs :: 'a word"
  from Cons.prems obtain m where n: "n = Suc m" and m: "length bs = m" "8 * m \<le> LENGTH('a)"
    by auto
  have top: "\<not> bit ?w k" if "8 * m \<le> k" for k
  proof -
    have "?w = from_le_bytes (to_le_bytes m ?w)" using Cons.IH [OF m] by simp
    also have "\<dots> = take_bit (8 * m) ?w" by (rule from_to_le_bytes)
    finally have "bit ?w k \<longleftrightarrow> bit (take_bit (8 * m) ?w) k" by simp
    with that show ?thesis by (simp add: bit_take_bit_iff)
  qed
  have low: "(ucast (ucast b OR push_bit 8 ?w) :: u8) = b"
    using Cons.prems n
    by (intro bit_word_eqI) (auto simp: bit_ucast_iff bit_or_iff bit_push_bit_iff)
  have high: "drop_bit 8 (ucast b OR push_bit 8 ?w) = ?w"
  proof (rule bit_word_eqI)
    fix k assume k: "k < LENGTH('a)"
    show "bit (drop_bit 8 (ucast b OR push_bit 8 ?w)) k \<longleftrightarrow> bit ?w k"
    proof (cases "8 + k < LENGTH('a)")
      case True
      then show ?thesis
        by (auto simp: bit_drop_bit_eq bit_or_iff bit_ucast_iff bit_push_bit_iff
            dest: bit_imp_le_length)
    next
      case False
      with Cons.prems n m have "8 * m \<le> k" by simp
      with top [of k] False show ?thesis
        by (auto simp: bit_drop_bit_eq bit_or_iff bit_ucast_iff bit_push_bit_iff
            dest: bit_imp_le_length)
    qed
  qed
  from low high Cons.IH [OF m] show ?case by (simp add: n)
qed

lemma to_from_be_bytes:
  "length bs = n \<Longrightarrow> 8 * n \<le> LENGTH('a) \<Longrightarrow> to_be_bytes n (from_be_bytes bs :: 'a::len word) = bs"
  by (simp add: from_be_bytes_def to_be_bytes_def to_from_le_bytes)

section \<open>Slices\<close>

definition slice :: "nat \<Rightarrow> nat \<Rightarrow> 'a list \<Rightarrow> 'a list" where
  "slice off n bs = take n (drop off bs)"

lemma length_slice [simp, byte_simps]: "length (slice off n bs) = min n (length bs - off)"
  by (simp add: slice_def)

lemma slice_append_skip: "length xs \<le> off \<Longrightarrow> slice off n (xs @ ys) = slice (off - length xs) n ys"
  by (simp add: slice_def)

lemma slice_prefix: "n \<le> length xs \<Longrightarrow> slice 0 n (xs @ ys) = take n xs"
  by (simp add: slice_def)

lemma slice_exact: "off = length xs \<Longrightarrow> n = length ys \<Longrightarrow> slice off n (xs @ ys @ zs) = ys"
  by (simp add: slice_def)

lemma slice_slice: "a + n \<le> m \<Longrightarrow> slice a n (slice b m bs) = slice (b + a) n bs"
  by (simp add: slice_def take_drop min_def add.commute)

lemma slice_split: "bs = take off bs @ slice off n bs @ drop (off + n) bs"
proof -
  have "drop off bs = slice off n bs @ drop n (drop off bs)" unfolding slice_def by (simp only: append_take_drop_id)
  then show ?thesis by (metis append_take_drop_id drop_drop add.commute)
qed

lemma nth_slice: "i < n \<Longrightarrow> off + n \<le> length bs \<Longrightarrow> slice off n bs ! i = bs ! (off + i)"
  by (simp add: slice_def)

lemma slice_concat_uniform:
  assumes "\<forall>xs \<in> set xss. length xs = n" and "i < length xss"
  shows "slice (i * n) n (concat xss) = xss ! i"
  using assms
proof (induction xss arbitrary: i)
  case Nil
  then show ?case by simp
next
  case (Cons xs xss)
  then show ?case
    by (cases i) (auto simp: slice_def)
qed

lemma length_concat_uniform: "\<forall>xs \<in> set xss. length xs = n \<Longrightarrow> length (concat xss) = length xss * n"
  by (induction xss) auto

section \<open>Strings\<close>

definition ascii :: "string \<Rightarrow> rust_string" where
  "ascii s = map of_char s"

fun utf8_valid :: "bytes \<Rightarrow> bool" where
  "utf8_valid [] = True"
| "utf8_valid (a # bs) =
    (if a < 0x80 then utf8_valid bs
     else if 0xC2 \<le> a \<and> a \<le> 0xDF then
       (case bs of b # cs \<Rightarrow> 0x80 \<le> b \<and> b \<le> 0xBF \<and> utf8_valid cs | [] \<Rightarrow> False)
     else if 0xE0 \<le> a \<and> a \<le> 0xEF then
       (case bs of b # c # cs \<Rightarrow>
          (if a = 0xE0 then 0xA0 else 0x80) \<le> b \<and> b \<le> (if a = 0xED then 0x9F else 0xBF) \<and>
          0x80 \<le> c \<and> c \<le> 0xBF \<and> utf8_valid cs
        | _ \<Rightarrow> False)
     else if 0xF0 \<le> a \<and> a \<le> 0xF4 then
       (case bs of b # c # d # cs \<Rightarrow>
          (if a = 0xF0 then 0x90 else 0x80) \<le> b \<and> b \<le> (if a = 0xF4 then 0x8F else 0xBF) \<and>
          0x80 \<le> c \<and> c \<le> 0xBF \<and> 0x80 \<le> d \<and> d \<le> 0xBF \<and> utf8_valid cs
        | _ \<Rightarrow> False)
     else False)"

lemma utf8_valid_ascii: "\<forall>b \<in> set bs. b < 0x80 \<Longrightarrow> utf8_valid bs"
  by (induction bs) auto

text \<open>A NUL byte is a character of its own, so cutting valid text at a NUL leaves valid text.\<close>

lemma length_ascii [simp]: "length (ascii s) = length s"
  by (simp add: ascii_def)

lemma ascii_Nil [simp]: "ascii [] = []"
  by (simp add: ascii_def)

end
