(* ===== verification/Raw_Memory.thy ===== *)
theory Raw_Memory
  imports Rust_Prelude
begin

text \<open>
  Reads and writes through raw pointers, as the \<open>unsafe\<close> parts of the crate make them.  A buffer is
  a list of bytes, a pointer an index into it; an access outside the buffer is undefined behaviour
  and is the value \<open>Inl OutOfBounds\<close>, so that memory safety is the statement that a run returns
  \<open>Inr\<close>.
\<close>

datatype memory_fault = OutOfBounds | Spins | InvalidFree

type_synonym 'a memory_result = "memory_fault + 'a"

definition load :: "nat \<Rightarrow> nat \<Rightarrow> bytes \<Rightarrow> bytes memory_result" where
  "load n off bs = (if off + n \<le> length bs then Inr (slice off n bs) else Inl OutOfBounds)"

definition store :: "nat \<Rightarrow> bytes \<Rightarrow> bytes \<Rightarrow> bytes memory_result" where
  "store off v bs =
     (if off + length v \<le> length bs
      then Inr (take off bs @ v @ drop (off + length v) bs) else Inl OutOfBounds)"

text \<open>One byte.\<close>

definition fetch :: "nat \<Rightarrow> bytes \<Rightarrow> u8 memory_result" where
  "fetch i bs = (if i < length bs then Inr (bs ! i) else Inl OutOfBounds)"

definition update_byte :: "nat \<Rightarrow> (u8 \<Rightarrow> u8) \<Rightarrow> bytes \<Rightarrow> bytes memory_result" where
  "update_byte i f bs = (if i < length bs then Inr (bs[i := f (bs ! i)]) else Inl OutOfBounds)"

lemma fetch_in_bounds [simp]: "i < length bs \<Longrightarrow> fetch i bs = Inr (bs ! i)"
  by (simp add: fetch_def)

lemma fetch_Inr [result_iff]: "fetch i bs = Inr b \<longleftrightarrow> i < length bs \<and> b = bs ! i"
  by (auto simp: fetch_def)

lemma update_byte_in_bounds [simp]: "i < length bs \<Longrightarrow> update_byte i f bs = Inr (bs[i := f (bs ! i)])"
  by (simp add: update_byte_def)

lemma update_byte_Inr [result_iff]:
  "update_byte i f bs = Inr bs' \<longleftrightarrow> i < length bs \<and> bs' = bs[i := f (bs ! i)]"
  by (auto simp: update_byte_def)

lemma load_in_bounds [simp]: "off + n \<le> length bs \<Longrightarrow> load n off bs = Inr (slice off n bs)"
  by (simp add: load_def)

lemma load_Inr [result_iff]: "load n off bs = Inr v \<longleftrightarrow> off + n \<le> length bs \<and> v = slice off n bs"
  by (auto simp: load_def)

lemma store_Inr [result_iff]:
  "store off v bs = Inr bs' \<longleftrightarrow>
   off + length v \<le> length bs \<and> bs' = take off bs @ v @ drop (off + length v) bs"
  by (auto simp: store_def)

lemma nth_stored:
  assumes "off + length v \<le> length bs" and "i < length bs"
  shows "(take off bs @ v @ drop (off + length v) bs) ! i =
    (if off \<le> i \<and> i < off + length v then v ! (i - off) else bs ! i)"
proof -
  consider "i < off" | "off \<le> i" "i < off + length v" | "off + length v \<le> i" by linarith
  then show ?thesis using assms by cases (auto simp: nth_append)
qed

lemma length_stored:
  "off + length v \<le> length bs \<Longrightarrow> length (take off bs @ v @ drop (off + length v) bs) = length bs"
  by simp

end
