(* ===== verification/Layla_Bits.thy ===== *)
theory Layla_Bits
  imports Raw_Memory
begin

text \<open>
  The bit cursor of \<open>cpk/compress/layla.rs\<close>.  The compressed stream is read backwards: the cursor
  points at a byte and knows how many of its low bits are unread; when they are used up it steps
  to the byte before.  The readers are hand-unrolled versions of "read \<open>n\<close> bits, most significant
  first"; the locale \<open>bit_reader\<close> is that contract, and every reader of the source is an
  interpretation of it for its width.

  A pointer is an index into the input slice; stepping below its start is the fault
  \<open>OutOfBounds\<close>.
\<close>

section \<open>The cursor\<close>

definition LAYLA_BIT_MASK :: "u32 list" where
  "LAYLA_BIT_MASK =
     [0x0000, 0x0001, 0x0003, 0x0007, 0x000f, 0x001f, 0x003f, 0x007f,
      0x00ff, 0x01ff, 0x03ff, 0x07ff, 0x0fff, 0x1fff, 0x3fff, 0x7fff]"

definition layla_bit_mask :: "nat \<Rightarrow> u32" where
  "layla_bit_mask n = LAYLA_BIT_MASK ! n"

record layla_cursor =
  cdata :: nat
  bits_left :: nat

definition retreat :: "nat \<Rightarrow> nat \<Rightarrow> nat memory_result" where
  "retreat n p = (if n \<le> p then Inr (p - n) else Inl OutOfBounds)"

definition read_1 :: "bytes \<Rightarrow> layla_cursor \<Rightarrow> (bool \<times> layla_cursor) memory_result" where
  "read_1 input c =
     and_then
       (if bits_left c \<noteq> 0 then Inr (c\<lparr>bits_left := bits_left c - 1\<rparr>)
        else and_then (retreat 1 (cdata c)) (\<lambda>p. Inr \<lparr>cdata = p, bits_left = 7\<rparr>)) (\<lambda>c.
     and_then (fetch (cdata c) input) (\<lambda>b.
       Inr (drop_bit (bits_left c) b AND 1 \<noteq> 0, c)))"

definition read_13 :: "bytes \<Rightarrow> layla_cursor \<Rightarrow> (u32 \<times> layla_cursor) memory_result" where
  "read_13 input c =
     and_then
       (if bits_left c = 0
        then and_then (retreat 1 (cdata c)) (\<lambda>p. Inr \<lparr>cdata = p, bits_left = 8\<rparr>)
        else Inr c) (\<lambda>c.
     let bits = 13 - bits_left c in
     and_then (fetch (cdata c) input) (\<lambda>b.
     let res = ucast b AND layla_bit_mask (bits_left c) in
     and_then (retreat 1 (cdata c)) (\<lambda>p.
     let left = 8; bit_round = min bits left in
     and_then (fetch p input) (\<lambda>b.
     let res = push_bit bit_round res OR
           (drop_bit (left - bit_round) (ucast b) AND layla_bit_mask bit_round);
         bits = bits - bit_round
     in
     if bits = 0 then Inr (res, \<lparr>cdata = p, bits_left = left - bit_round\<rparr>)
     else
       and_then (retreat 1 p) (\<lambda>p.
       let left = 8 in
       and_then (fetch p input) (\<lambda>b.
         Inr (push_bit bits res OR (drop_bit (left - bits) (ucast b) AND layla_bit_mask bits),
              \<lparr>cdata = p, bits_left = left - bits\<rparr>)))))))"

definition read_8 :: "bytes \<Rightarrow> layla_cursor \<Rightarrow> (u8 \<times> layla_cursor) memory_result" where
  "read_8 input c =
     and_then (retreat 1 (cdata c)) (\<lambda>p.
     let c' = c\<lparr>cdata := p\<rparr> in
     if bits_left c \<noteq> 0
     then
       let extra_bit = 8 - bits_left c in
       and_then (fetch (p + 1) input) (\<lambda>high.
       and_then (fetch p input) (\<lambda>low.
         Inr (push_bit extra_bit (high AND ucast (layla_bit_mask (bits_left c))) OR
              (drop_bit (8 - extra_bit) low AND ucast (layla_bit_mask extra_bit)), c')))
     else and_then (fetch p input) (\<lambda>b. Inr (b, c')))"

definition read_2 :: "bytes \<Rightarrow> layla_cursor \<Rightarrow> (u8 \<times> layla_cursor) memory_result" where
  "read_2 input c =
     (let new_byte = (bits_left c = 0) in
      if bits_left c \<ge> 2 \<or> new_byte
      then
        let left = (if new_byte then 6 else bits_left c - 2) in
        and_then (retreat (if new_byte then 1 else 0) (cdata c)) (\<lambda>p.
        and_then (fetch p input) (\<lambda>b.
          Inr (drop_bit left b AND 3, \<lparr>cdata = p, bits_left = left\<rparr>)))
      else
        and_then (fetch (cdata c) input) (\<lambda>high.
        and_then (retreat 1 (cdata c)) (\<lambda>p.
        and_then (fetch p input) (\<lambda>low.
          Inr (push_bit 1 (high AND 1) OR drop_bit 7 low, \<lparr>cdata = p, bits_left = 7\<rparr>)))))"

text \<open>The two rounds of \<open>read_max_8\<close>; what is left after the second round is not read.\<close>

fun read_rounds ::
  "nat \<Rightarrow> bytes \<Rightarrow> nat \<Rightarrow> u8 \<Rightarrow> layla_cursor \<Rightarrow> (u8 \<times> layla_cursor) memory_result" where
  "read_rounds 0 input bits res c = Inr (res, c)"
| "read_rounds (Suc rounds) input bits res c =
     (let bit_round = min bits (bits_left c) in
      and_then (fetch (cdata c) input) (\<lambda>b.
      let res = push_bit bit_round res OR
            (drop_bit (bits_left c - bit_round) b AND ucast (layla_bit_mask bit_round));
          bits = bits - bit_round
      in
      if bits = 0 then Inr (res, c\<lparr>bits_left := bits_left c - bit_round\<rparr>)
      else and_then (retreat 1 (cdata c)) (\<lambda>p.
             read_rounds rounds input bits res \<lparr>cdata = p, bits_left = 8\<rparr>)))"

definition read_max_8 ::
  "nat \<Rightarrow> bytes \<Rightarrow> layla_cursor \<Rightarrow> (u8 \<times> layla_cursor) memory_result" where
  "read_max_8 bits input c =
     and_then (retreat (if bits_left c = 0 then 1 else 0) (cdata c)) (\<lambda>p.
       read_rounds 2 input bits 0
         \<lparr>cdata = p, bits_left = (if bits_left c = 0 then 8 else bits_left c)\<rparr>)"

section \<open>Bits and numbers\<close>

text \<open>The number a sequence of bits stands for, most significant first.\<close>

definition bits_value :: "bool list \<Rightarrow> nat" where
  "bits_value bs = horner_sum of_bool 2 (rev bs)"

lemma bits_value_simps [simp]:
  "bits_value [] = 0"
  "bits_value [b] = of_bool b"
  by (simp_all add: bits_value_def)

lemma bits_value_append: "bits_value (xs @ ys) = bits_value xs * 2 ^ length ys + bits_value ys"
  by (simp add: bits_value_def horner_sum_append)

lemma bits_value_lt: "bits_value bs < 2 ^ length bs"
proof (induction bs rule: rev_induct)
  case (snoc b bs)
  then show ?case by (simp add: bits_value_append of_bool_def)
qed simp

text \<open>Bits \<open>a\<close> to \<open>a + k\<close> of a byte, the highest first.\<close>

definition bit_run :: "u8 \<Rightarrow> nat \<Rightarrow> nat \<Rightarrow> bool list" where
  "bit_run b a k = map (bit b) (rev [a..<a + k])"

lemma length_bit_run [simp]: "length (bit_run b a k) = k"
  by (simp add: bit_run_def)

lemma bit_run_zero [simp]: "bit_run b a 0 = []"
  by (simp add: bit_run_def)

lemma bits_value_run: "bits_value (bit_run b a k) = unat (take_bit k (drop_bit a b))"
proof -
  have "rev (bit_run b a k) = map (bit (unat (drop_bit a b))) [0..<k]"
    by (rule nth_equalityI)
      (auto simp: bit_run_def bit_drop_bit_eq rev_map bit_unsigned_iff dest: bit_imp_le_length)
  then have "bits_value (bit_run b a k) = horner_sum of_bool 2 (map (bit (unat (drop_bit a b))) [0..<k])"
    by (simp only: bits_value_def)
  also have "\<dots> = take_bit k (unat (drop_bit a b))" by (rule horner_sum_bit_eq_take_bit)
  finally show ?thesis by (simp add: unsigned_take_bit_eq)
qed

definition bits_word :: "bool list \<Rightarrow> 'a::len word" where
  "bits_word bs = of_nat (bits_value bs)"

lemma bits_word_Nil [simp]: "bits_word [] = 0"
  by (simp add: bits_word_def)

lemma bits_word_append:
  "bits_word (xs @ ys) = (push_bit (length ys) (bits_word xs) OR bits_word ys :: 'a::len word)"
proof -
  let ?n = "length ys"
  have "bits_value xs * 2 ^ ?n + bits_value ys = push_bit ?n (bits_value xs) + take_bit ?n (bits_value ys)"
    using bits_value_lt [of ys] by (simp add: push_bit_eq_mult take_bit_nat_eq_self)
  also have "\<dots> = push_bit ?n (bits_value xs) OR take_bit ?n (bits_value ys)"
    by (rule disjunctive_add) (simp add: bit_push_bit_iff bit_take_bit_iff)
  also have "\<dots> = push_bit ?n (bits_value xs) OR bits_value ys"
    using bits_value_lt [of ys] by (simp add: take_bit_nat_eq_self)
  finally show ?thesis
    by (simp add: bits_word_def bits_value_append of_nat_or_eq push_bit_of_nat del: of_nat_add of_nat_mult)
qed

lemma unat_bits_word: "length bs \<le> LENGTH('a) \<Longrightarrow> unat (bits_word bs :: 'a::len word) = bits_value bs"
proof -
  assume "length bs \<le> LENGTH('a)"
  then have "(2 :: nat) ^ length bs \<le> 2 ^ LENGTH('a)" by (rule power_increasing) simp
  with bits_value_lt [of bs] have "bits_value bs < 2 ^ LENGTH('a)" by (rule less_le_trans)
  then show ?thesis unfolding bits_word_def by (rule unat_of_nat_fits)
qed

lemma layla_bit_mask_eq: "n \<le> 8 \<Longrightarrow> layla_bit_mask n = mask n"
proof -
  assume "n \<le> 8"
  then have "n \<in> {0, 1, 2, 3, 4, 5, 6, 7, 8}" by auto
  then show ?thesis by (auto simp: layla_bit_mask_def LAYLA_BIT_MASK_def mask_eq_exp_minus_1)
qed

text \<open>What the shifts and masks of the readers compute.\<close>

lemma masked_bits_u8:
  "k \<le> 8 \<Longrightarrow> drop_bit a b AND ucast (layla_bit_mask k) = bits_word (bit_run b a k)"
proof -
  assume "k \<le> 8"
  then have "ucast (layla_bit_mask k) = (mask k :: u8)"
    by (auto simp: layla_bit_mask_eq bit_ucast_iff bit_mask_iff intro!: bit_word_eqI)
  then show ?thesis by (simp add: bits_word_def bits_value_run take_bit_eq_mask)
qed

lemma masked_bits_u32:
  "k \<le> 8 \<Longrightarrow> drop_bit a (ucast b) AND layla_bit_mask k = bits_word (bit_run b a k)"
proof -
  assume "k \<le> 8"
  have byte: "n < 8" if "bit b n" for n using bit_imp_le_length [OF that] by simp
  from \<open>k \<le> 8\<close> have "drop_bit a (ucast b) AND layla_bit_mask k = (ucast (take_bit k (drop_bit a b)) :: u32)"
    by (intro bit_word_eqI) (auto simp: layla_bit_mask_eq bit_simps dest: byte)
  then show ?thesis by (simp add: bits_word_def bits_value_run)
qed

section \<open>The stream\<close>

text \<open>
  Bit \<open>i\<close> of the input counted from the low end of its first byte.  A cursor is a number of unread
  bits; they are read from the highest down.
\<close>

definition bit_at :: "bytes \<Rightarrow> nat \<Rightarrow> bool" where
  "bit_at input i \<longleftrightarrow> bit (input ! (i div 8)) (i mod 8)"

definition bits_between :: "bytes \<Rightarrow> nat \<Rightarrow> nat \<Rightarrow> bool list" where
  "bits_between input a b = map (bit_at input) (rev [a..<b])"

definition unread :: "bytes \<Rightarrow> nat \<Rightarrow> bool list" where
  "unread input r = bits_between input 0 r"

definition cursor_at :: "nat \<Rightarrow> layla_cursor" where
  "cursor_at r = \<lparr>cdata = r div 8, bits_left = r mod 8\<rparr>"

lemma length_bits_between [simp]: "length (bits_between input a b) = b - a"
  by (simp add: bits_between_def)

lemma length_unread [simp]: "length (unread input r) = r"
  by (simp add: unread_def)

lemma bits_between_split:
  assumes "a \<le> b" and "b \<le> c"
  shows "bits_between input a c = bits_between input b c @ bits_between input a b"
proof -
  have "[a..<c] = [a..<b] @ [b..<c]"
    using upt_add_eq_append [OF assms(1), of "c - b"] assms(2) by simp
  then show ?thesis by (simp only: bits_between_def rev_append map_append)
qed

lemma unread_split: "n \<le> r \<Longrightarrow> unread input r = bits_between input (r - n) r @ unread input (r - n)"
  unfolding unread_def by (rule bits_between_split) simp_all

lemma take_unread: "n \<le> r \<Longrightarrow> take n (unread input r) = bits_between input (r - n) r"
  by (metis append_eq_conv_conj diff_diff_cancel length_bits_between unread_split)

lemma drop_unread: "n \<le> r \<Longrightarrow> drop n (unread input r) = unread input (r - n)"
  by (metis append_eq_conv_conj diff_diff_cancel length_bits_between unread_split)

lemma bit_run_between:
  assumes "a + k \<le> 8"
  shows "bit_run (input ! p) a k = bits_between input (8 * p + a) (8 * p + a + k)"
proof (rule nth_equalityI)
  fix i assume "i < length (bit_run (input ! p) a k)"
  then have i: "i < k" by simp
  define j where "j = a + (k - Suc i)"
  have j: "j < 8" using assms i by (simp add: j_def)
  have "bits_between input (8 * p + a) (8 * p + a + k) ! i = bit_at input (8 * p + j)"
    using i by (simp add: bits_between_def rev_nth j_def add_ac)
  also have "\<dots> = bit (input ! p) j" using j by (simp add: bit_at_def)
  also have "\<dots> = bit_run (input ! p) a k ! i"
    using i by (simp add: bit_run_def rev_nth j_def)
  finally show "bit_run (input ! p) a k ! i = bits_between input (8 * p + a) (8 * p + a + k) ! i" ..
qed simp

text \<open>
  The contract of a reader: it takes the next \<open>width\<close> bits, and faults when there are fewer.
\<close>

locale bit_reader =
  fixes read :: "bytes \<Rightarrow> layla_cursor \<Rightarrow> ('a \<times> layla_cursor) memory_result"
    and decode :: "bool list \<Rightarrow> 'a"
    and width :: nat
  assumes read_enough: "width \<le> r \<Longrightarrow> r \<le> 8 * length input \<Longrightarrow>
      read input (cursor_at r) = Inr (decode (bits_between input (r - width) r), cursor_at (r - width))"
    and read_short: "r < width \<Longrightarrow> r \<le> 8 * length input \<Longrightarrow>
      read input (cursor_at r) = Inl OutOfBounds"
begin

lemma read_bits:
  "r \<le> 8 * length input \<Longrightarrow> read input (cursor_at r) =
    (if width \<le> length (unread input r)
     then Inr (decode (take width (unread input r)), cursor_at (r - width)) else Inl OutOfBounds)"
  by (simp add: read_enough read_short take_unread)

lemma read_iff:
  "r \<le> 8 * length input \<Longrightarrow> (\<exists>v c. read input (cursor_at r) = Inr (v, c)) \<longleftrightarrow> width \<le> r"
  by (simp add: read_bits)

end

section \<open>The readers meet the contract\<close>

text \<open>The byte a cursor points at holds its next bits; below it lies the byte before.\<close>

lemma cursor_at_add: "k < 8 \<Longrightarrow> cursor_at (8 * p + k) = \<lparr>cdata = p, bits_left = k\<rparr>"
  by (simp add: cursor_at_def)

lemma byte_bound: "6 < (8 :: nat)" "7 < (8 :: nat)"
  by simp_all

lemma cursor_cases:
  assumes "r \<le> 8 * length input" and "0 < r"
  obtains (fresh) q where "r = 8 * q + 8" "cursor_at r = \<lparr>cdata = Suc q, bits_left = 0\<rparr>" "q < length input"
  | (inside) p k where "r = 8 * p + k" "0 < k" "k < 8" "p < length input"
      "cursor_at r = \<lparr>cdata = p, bits_left = k\<rparr>"
proof (cases "r mod 8 = 0")
  case True
  with assms(2) obtain q where q: "r = 8 * q + 8"
    by (metis add.commute dvd_imp_mod_0 gr0_conv_Suc mod_0_imp_dvd dvdE mult_Suc_right mult_is_0 neq0_conv)
  show ?thesis
    by (rule fresh [OF q]) (use q assms(1) cursor_at_add [of 0 "Suc q"] in \<open>simp_all add: algebra_simps\<close>)
next
  case False
  show ?thesis
  proof (rule inside)
    show "r = 8 * (r div 8) + r mod 8" by simp
    show "cursor_at r = \<lparr>cdata = r div 8, bits_left = r mod 8\<rparr>" by (simp add: cursor_at_def)
    have "8 * (r div 8) + r mod 8 = r" by simp
    with assms(1) False show "r div 8 < length input" by linarith
  qed (use False in simp_all)
qed

lemma retreat_simps [simp]:
  "retreat 0 p = Inr p"
  "retreat (Suc 0) 0 = Inl OutOfBounds"
  "retreat (Suc 0) (Suc p) = Inr p"
  by (simp_all add: retreat_def)

lemma masked_u8:
  "a + k \<le> 8 \<Longrightarrow> drop_bit a (input ! p) AND ucast (layla_bit_mask k) =
    bits_word (bits_between input (8 * p + a) (8 * p + (a + k)))"
  using masked_bits_u8 [of k a "input ! p"] bit_run_between [of a k input p] by (simp add: add.assoc)

lemma masked_u32:
  "a + k \<le> 8 \<Longrightarrow> drop_bit a (ucast (input ! p)) AND layla_bit_mask k =
    bits_word (bits_between input (8 * p + a) (8 * p + (a + k)))"
  using masked_bits_u32 [of k a "input ! p"] bit_run_between [of a k input p] by (simp add: add.assoc)

lemma whole_byte: "input ! p = bits_word (bits_between input (8 * p) (8 * p + 8))"
proof -
  have "ucast (mask 8 :: u32) = (- 1 :: u8)" by (simp add: mask_eq_exp_minus_1)
  then show ?thesis using masked_u8 [of 0 8 input p] by (simp add: layla_bit_mask_eq)
qed

text \<open>Two runs that meet.\<close>

lemma bits_word_join:
  "a \<le> b \<Longrightarrow> b \<le> c \<Longrightarrow>
   push_bit (b - a) (bits_word (bits_between input b c)) OR bits_word (bits_between input a b) =
   (bits_word (bits_between input a c) :: 'a::len word)"
  by (simp add: bits_between_split [of a b c] bits_word_append)

lemma single_bit: "bits_between input i (Suc i) = [bit_at input i]"
  by (simp add: bits_between_def)

lemma low_bit: "b AND 1 \<noteq> 0 \<longleftrightarrow> b AND 1 = 1" for b :: u8
  by (simp add: and_one_eq not_mod_2_eq_0_eq_1)

lemmas cursor_at_const =
  cursor_at_add [where k = 0, OF zero_less_numeral] cursor_at_add [where k = 6, OF byte_bound(1)]
  cursor_at_add [where k = 7, OF byte_bound(2)]

interpretation flag_reader: bit_reader read_1 hd 1
proof
  fix r and input :: bytes assume r: "1 \<le> r" and len: "r \<le> 8 * length input"
  from r have between: "hd (bits_between input (r - 1) r) = bit_at input (r - 1)"
    using single_bit [of input "r - 1"] by simp
  from r have "0 < r" by simp
  with len show "read_1 input (cursor_at r) = Inr (hd (bits_between input (r - 1) r), cursor_at (r - 1))"
  proof (cases rule: cursor_cases)
    case (fresh q)
    then have r1: "r - 1 = 8 * q + 7" by simp
    show ?thesis
      unfolding between unfolding r1 cursor_at_const fresh(2)
      using fresh(3) by (simp add: read_1_def bit_at_def bit_iff_and_drop_bit_eq_1 low_bit)
  next
    case (inside p k)
    then obtain j where k: "k = Suc j" by (cases k) auto
    with inside have r1: "r - 1 = 8 * p + j" and j: "j < 8" by simp_all
    show ?thesis
      unfolding between unfolding r1 cursor_at_add [OF j] inside(5)
      using inside(4) j by (simp add: k read_1_def bit_at_def bit_iff_and_drop_bit_eq_1 low_bit)
  qed
next
  fix r :: nat and input :: bytes assume "r < 1"
  then show "read_1 input (cursor_at r) = Inl OutOfBounds"
    by (simp add: read_1_def cursor_at_def)
qed

interpretation pair_reader: bit_reader read_2 bits_word 2
proof
  fix r and input :: bytes assume r: "2 \<le> r" and len: "r \<le> 8 * length input"
  then have "0 < r" by simp
  with len show "read_2 input (cursor_at r) = Inr (bits_word (bits_between input (r - 2) r), cursor_at (r - 2))"
  proof (cases rule: cursor_cases)
    case (fresh q)
    then have r2: "r - 2 = 8 * q + 6" by simp
    show ?thesis
      unfolding r2 cursor_at_const fresh(2) unfolding fresh(1)
      using fresh(3) masked_u8 [of 6 2 input q, symmetric]
      by (simp add: read_2_def layla_bit_mask_eq mask_eq_exp_minus_1)
  next
    case (inside p k)
    show ?thesis
    proof (cases "k = 1")
      case True
      with inside r obtain q where q: "p = Suc q" by (cases p) auto
      have r2: "r - 2 = 8 * q + 7" "r = 8 * q + 9" using inside q True by simp_all
      have "bits_word (bits_between input (8 * q + 7) (8 * q + 9)) =
          push_bit 1 (input ! Suc q AND 1) OR (drop_bit 7 (input ! q) AND 1)"
        using masked_u8 [of 0 1 input "Suc q"] masked_u8 [of 7 1 input q]
          bits_word_join [of "8 * q + 7" "8 * q + 8" "8 * q + 9" input, where ?'a = 8]
        by (simp add: layla_bit_mask_eq mask_eq_exp_minus_1 numeral_eq_Suc)
      moreover have "drop_bit 7 b AND 1 = drop_bit 7 b" for b :: u8
        by (rule bit_word_eqI) (auto simp: bit_simps bit_1_iff dest: bit_imp_le_length)
      ultimately show ?thesis
        unfolding inside(5) unfolding r2(1) cursor_at_const unfolding r2(2)
        using inside(4) by (simp add: q True read_2_def)
    next
      case False
      with inside have r2: "r - 2 = 8 * p + (k - 2)" "r = 8 * p + (k - 2 + 2)" and k: "k - 2 < 8" "k - 2 + 2 \<le> 8"
        by simp_all
      show ?thesis
        unfolding inside(5) unfolding r2(1) cursor_at_add [OF k(1)] unfolding r2(2)
        using inside False masked_u8 [OF k(2), of input p, symmetric]
        by (simp add: read_2_def Let_def layla_bit_mask_eq mask_eq_exp_minus_1)
    qed
  qed
next
  fix r :: nat and input :: bytes assume "r < 2" and "r \<le> 8 * length input"
  then show "read_2 input (cursor_at r) = Inl OutOfBounds"
    by (auto simp: read_2_def cursor_at_def fetch_def Let_def less_Suc_eq numeral_2_eq_2)
qed

interpretation byte_reader: bit_reader read_8 bits_word 8
proof
  fix r and input :: bytes assume r: "8 \<le> r" and len: "r \<le> 8 * length input"
  then have "0 < r" by simp
  with len show "read_8 input (cursor_at r) = Inr (bits_word (bits_between input (r - 8) r), cursor_at (r - 8))"
  proof (cases rule: cursor_cases)
    case (fresh q)
    then have r8: "r - 8 = 8 * q + 0" by simp
    show ?thesis
      unfolding r8 cursor_at_const fresh(2) unfolding fresh(1)
      using fresh(3) whole_byte [of input q, symmetric] by (simp add: read_8_def)
  next
    case (inside p k)
    with r obtain q where q: "p = Suc q" by (cases p) auto
    have r8: "r - 8 = 8 * q + k" "r = 8 * q + (8 + k)" using inside q by simp_all
    have "push_bit (8 - k) (input ! Suc q AND ucast (layla_bit_mask k)) OR
        (drop_bit k (input ! q) AND ucast (layla_bit_mask (8 - k))) =
        bits_word (bits_between input (8 * q + k) (8 * q + (8 + k)))"
      using masked_u8 [of 0 k input "Suc q"] masked_u8 [of k "8 - k" input q] inside(2,3)
        bits_word_join [of "8 * q + k" "8 * q + 8" "8 * q + (8 + k)" input, where ?'a = 8]
      by (simp add: algebra_simps)
    then show ?thesis
      unfolding inside(5) unfolding r8(1) cursor_at_add [OF inside(3)] unfolding r8(2)
      using inside q by (simp add: read_8_def Let_def)
  qed
next
  fix r :: nat and input :: bytes assume "r < 8"
  then show "read_8 input (cursor_at r) = Inl OutOfBounds"
    by (simp add: read_8_def cursor_at_def)
qed

text \<open>The longer readers first make sure that the cursor's byte has unread bits.\<close>

lemma first_byte:
  assumes "0 < r" and "r \<le> 8 * length input"
  obtains p k where "r = 8 * p + k" "0 < k" "k \<le> 8" "p < length input"
    "read_13 input (cursor_at r) = read_13 input \<lparr>cdata = p, bits_left = k\<rparr>"
    "\<And>n. read_max_8 n input (cursor_at r) = read_max_8 n input \<lparr>cdata = p, bits_left = k\<rparr>"
  using assms(2,1)
proof (cases rule: cursor_cases)
  case (fresh q)
  show ?thesis
    by (rule that [of q 8]) (use fresh in \<open>simp_all add: read_13_def read_max_8_def\<close>)
next
  case (inside p k)
  show ?thesis by (rule that [of p k]) (use inside in simp_all)
qed

lemma read_13_two_bytes:
  assumes "q < length input" "Suc q < length input" and j: "j \<le> 3"
  shows "read_13 input \<lparr>cdata = Suc q, bits_left = 5 + j\<rparr> =
    Inr (bits_word (bits_between input (8 * q + j) (8 * Suc q + (5 + j))), cursor_at (8 * q + j))"
proof -
  have "ucast (input ! Suc q) AND layla_bit_mask (5 + j) =
      (bits_word (bits_between input (8 * Suc q) (8 * Suc q + (5 + j))) :: u32)"
    using masked_u32 [of 0 "5 + j" input "Suc q"] j by simp
  moreover have "drop_bit j (ucast (input ! q)) AND layla_bit_mask (8 - j) =
      (bits_word (bits_between input (8 * q + j) (8 * Suc q)) :: u32)"
    using masked_u32 [of j "8 - j" input q] j by (simp add: add_ac)
  ultimately have "push_bit (8 - j) (ucast (input ! Suc q) AND layla_bit_mask (5 + j)) OR
      (drop_bit j (ucast (input ! q)) AND layla_bit_mask (8 - j)) =
      (bits_word (bits_between input (8 * q + j) (8 * Suc q + (5 + j))) :: u32)"
    using bits_word_join [of "8 * q + j" "8 * Suc q" "8 * Suc q + (5 + j)" input, where ?'a = 32] j
    by simp
  moreover have "min (8 - j) 8 = 8 - j" "8 - (8 - j) = j" "j < 8" using j by simp_all
  ultimately show ?thesis
    using assms by (simp add: read_13_def Let_def cursor_at_add)
qed

lemma read_13_three_bytes:
  assumes "q < length input" "Suc (Suc q) < length input" and k: "0 < k" "k < 5"
  shows "read_13 input \<lparr>cdata = Suc (Suc q), bits_left = k\<rparr> =
    Inr (bits_word (bits_between input (8 * q + (3 + k)) (8 * Suc (Suc q) + k)), cursor_at (8 * q + (3 + k)))"
proof -
  have "ucast (input ! Suc (Suc q)) AND layla_bit_mask k =
      (bits_word (bits_between input (8 * Suc (Suc q)) (8 * Suc (Suc q) + k)) :: u32)"
    using masked_u32 [of 0 k input "Suc (Suc q)"] k by simp
  moreover have "drop_bit 0 (ucast (input ! Suc q)) AND layla_bit_mask 8 =
      (bits_word (bits_between input (8 * Suc q) (8 * Suc (Suc q))) :: u32)"
    using masked_u32 [of 0 8 input "Suc q"] by (simp add: add_ac)
  ultimately have high: "push_bit 8 (ucast (input ! Suc (Suc q)) AND layla_bit_mask k) OR
      (ucast (input ! Suc q) AND layla_bit_mask 8) =
      (bits_word (bits_between input (8 * Suc q) (8 * Suc (Suc q) + k)) :: u32)"
    using bits_word_join [of "8 * Suc q" "8 * Suc (Suc q)" "8 * Suc (Suc q) + k" input, where ?'a = 32]
    by simp
  have "drop_bit (3 + k) (ucast (input ! q)) AND layla_bit_mask (5 - k) =
      (bits_word (bits_between input (8 * q + (3 + k)) (8 * Suc q)) :: u32)"
    using masked_u32 [of "3 + k" "5 - k" input q] k by (simp add: add_ac)
  with high have "push_bit (5 - k) (push_bit 8 (ucast (input ! Suc (Suc q)) AND layla_bit_mask k) OR
      (ucast (input ! Suc q) AND layla_bit_mask 8)) OR
      (drop_bit (3 + k) (ucast (input ! q)) AND layla_bit_mask (5 - k)) =
      (bits_word (bits_between input (8 * q + (3 + k)) (8 * Suc (Suc q) + k)) :: u32)"
    using bits_word_join [of "8 * q + (3 + k)" "8 * Suc q" "8 * Suc (Suc q) + k" input, where ?'a = 32] k
    by (simp add: add_ac)
  moreover have "min (13 - k) 8 = 8" "13 - k - 8 = 5 - k" "3 + k < 8" "\<not> 13 - k \<le> 8"
    using k by simp_all
  ultimately show ?thesis
    using assms by (simp add: read_13_def Let_def cursor_at_add)
qed

interpretation offset_reader: bit_reader read_13 bits_word 13
proof
  fix r and input :: bytes assume r: "13 \<le> r" and len: "r \<le> 8 * length input"
  then have "0 < r" by simp
  from this len obtain p k where pk: "r = 8 * p + k" "0 < k" "k \<le> 8" "p < length input"
    and eq: "read_13 input (cursor_at r) = read_13 input \<lparr>cdata = p, bits_left = k\<rparr>"
    by (rule first_byte) blast
  show "read_13 input (cursor_at r) = Inr (bits_word (bits_between input (r - 13) r), cursor_at (r - 13))"
  proof (cases "5 \<le> k")
    case True
    from pk r obtain q where q: "p = Suc q" by (cases p) auto
    define j where "j = k - 5"
    with True pk have k: "k = 5 + j" and j: "j \<le> 3" by simp_all
    have r13: "r - 13 = 8 * q + j" "r = 8 * Suc q + (5 + j)" using pk(1) q k by simp_all
    have "q < length input" "Suc q < length input" using pk(4) q by simp_all
    from read_13_two_bytes [OF this j] show ?thesis unfolding eq q k r13(1) unfolding r13(2) .
  next
    case False
    with pk r have "2 \<le> p" by simp
    then obtain q where q: "p = Suc (Suc q)" by (metis add_2_eq_Suc le_Suc_ex)
    have r13: "r - 13 = 8 * q + (3 + k)" "r = 8 * Suc (Suc q) + k" using pk(1) q False by simp_all
    have "q < length input" "Suc (Suc q) < length input" "0 < k" "k < 5" using pk q False by simp_all
    from read_13_three_bytes [OF this] show ?thesis unfolding eq q r13(1) unfolding r13(2) .
  qed
next
  fix r :: nat and input :: bytes assume r: "r < 13" and len: "r \<le> 8 * length input"
  show "read_13 input (cursor_at r) = Inl OutOfBounds"
  proof (cases "r = 0")
    case True
    then show ?thesis by (simp add: read_13_def cursor_at_def)
  next
    case False
    then have "0 < r" by simp
    from this len obtain p k where pk: "r = 8 * p + k" "0 < k" "k \<le> 8" "p < length input"
      and eq: "read_13 input (cursor_at r) = read_13 input \<lparr>cdata = p, bits_left = k\<rparr>"
      by (rule first_byte) blast
    from pk r consider "p = 0" | "p = 1" "k < 5" by linarith
    then show ?thesis
    proof cases
      case 1
      with pk show ?thesis unfolding eq by (simp add: read_13_def Let_def)
    next
      case 2
      then have "\<not> 13 - k \<le> 8" "min (13 - k) 8 = 8" "13 - k - 8 = 5 - k" by simp_all
      moreover have "fetch 0 input = Inr (input ! 0)" using pk by (intro fetch_in_bounds) auto
      ultimately show ?thesis unfolding eq using pk 2 by (simp add: read_13_def Let_def)
    qed
  qed
qed

text \<open>\<open>read_max_8\<close>: within one byte, or across a boundary.\<close>

lemma read_max_8_one_byte:
  assumes "p < length input" and "0 < n" "n \<le> k" "k \<le> 8"
  shows "read_max_8 n input \<lparr>cdata = p, bits_left = k\<rparr> =
    Inr (bits_word (bits_between input (8 * p + (k - n)) (8 * p + k)), cursor_at (8 * p + (k - n)))"
proof -
  have "drop_bit (k - n) (input ! p) AND ucast (layla_bit_mask n) =
      bits_word (bits_between input (8 * p + (k - n)) (8 * p + k))"
    using masked_u8 [of "k - n" n input p] assms by simp
  moreover have "min n k = n" "k \<noteq> 0" and kn: "k - n < 8" using assms by simp_all
  ultimately show ?thesis
    unfolding cursor_at_add [OF kn]
    using assms(1) by (simp add: read_max_8_def numeral_2_eq_2 Let_def)
qed

lemma read_max_8_two_bytes:
  assumes "q < length input" "Suc q < length input" and k: "0 < k" "k < n" and j: "n + j = 8 + k" "j < 8" and "n \<le> 8"
  shows "read_max_8 n input \<lparr>cdata = Suc q, bits_left = k\<rparr> =
    Inr (bits_word (bits_between input (8 * q + j) (8 * Suc q + k)), cursor_at (8 * q + j))"
proof -
  have k8: "k \<le> 8" using k assms(7) by simp
  have "j + (n - k) = 8" using j k by simp
  have "input ! Suc q AND ucast (layla_bit_mask k) =
      bits_word (bits_between input (8 * Suc q) (8 * Suc q + k))"
    using masked_u8 [of 0 k input "Suc q"] k8 by simp
  moreover have "drop_bit j (input ! q) AND ucast (layla_bit_mask (n - k)) =
      bits_word (bits_between input (8 * q + j) (8 * Suc q))"
    using masked_u8 [of j "n - k" input q] \<open>j + (n - k) = 8\<close> by (simp add: add_ac)
  moreover have "8 - j = n - k" using j k by simp
  ultimately have "push_bit (n - k) (input ! Suc q AND ucast (layla_bit_mask k)) OR
      (drop_bit j (input ! q) AND ucast (layla_bit_mask (n - k))) =
      bits_word (bits_between input (8 * q + j) (8 * Suc q + k))"
    using bits_word_join [of "8 * q + j" "8 * Suc q" "8 * Suc q + k" input, where ?'a = 8] j(2)
    by simp
  moreover have "min n k = k" "min (n - k) 8 = n - k" "8 - (n - k) = j" "n - k \<noteq> 0" "k \<noteq> 0"
    using k j by simp_all
  ultimately show ?thesis
    using assms by (simp add: read_max_8_def numeral_2_eq_2 Let_def cursor_at_add)
qed

lemma read_max_8_reader:
  assumes n: "0 < n" "n \<le> 8"
  shows "bit_reader (read_max_8 n) bits_word n"
proof
  fix r and input :: bytes assume r: "n \<le> r" and len: "r \<le> 8 * length input"
  with n have "0 < r" by simp
  from this len obtain p k where pk: "r = 8 * p + k" "0 < k" "k \<le> 8" "p < length input"
    and eq: "\<And>n. read_max_8 n input (cursor_at r) = read_max_8 n input \<lparr>cdata = p, bits_left = k\<rparr>"
    by (rule first_byte) blast
  show "read_max_8 n input (cursor_at r) = Inr (bits_word (bits_between input (r - n) r), cursor_at (r - n))"
  proof (cases "n \<le> k")
    case True
    with pk have rn: "r - n = 8 * p + (k - n)" by simp
    from read_max_8_one_byte [OF pk(4) n(1) True pk(3)] show ?thesis
      unfolding eq rn unfolding pk(1) .
  next
    case False
    with pk r obtain q where q: "p = Suc q" by (cases p) auto
    define j where "j = 8 + k - n"
    have j: "n + j = 8 + k" "j < 8" using False n pk(2) by (simp_all add: j_def)
    have rn: "r - n = 8 * q + j" "r = 8 * Suc q + k" using pk(1) q j by simp_all
    have "q < length input" "Suc q < length input" using pk(4) q by simp_all
    from read_max_8_two_bytes [OF this pk(2) _ j n(2)] False show ?thesis
      unfolding eq q rn(1) unfolding rn(2) by simp
  qed
next
  fix r :: nat and input :: bytes assume r: "r < n" and len: "r \<le> 8 * length input"
  show "read_max_8 n input (cursor_at r) = Inl OutOfBounds"
  proof (cases "r = 0")
    case True
    then show ?thesis by (simp add: read_max_8_def cursor_at_def)
  next
    case False
    then have "0 < r" by simp
    from this len obtain p k where pk: "r = 8 * p + k" "0 < k" "k \<le> 8" "p < length input"
      and eq: "\<And>n. read_max_8 n input (cursor_at r) = read_max_8 n input \<lparr>cdata = p, bits_left = k\<rparr>"
      by (rule first_byte) blast
    from pk(1) r n have "p = 0" "k < n" by auto
    moreover then have "min n k = k" by simp
    ultimately show ?thesis
      using pk unfolding eq by (simp add: read_max_8_def numeral_2_eq_2 Let_def)
  qed
qed

interpretation three_reader: bit_reader "read_max_8 3" bits_word 3
  by (rule read_max_8_reader) simp_all

interpretation five_reader: bit_reader "read_max_8 5" bits_word 5
  by (rule read_max_8_reader) simp_all

end
