(* ===== verification/Free_List.thy ===== *)
theory Free_List
  imports Raw_Memory
begin

text \<open>
  \<open>cpk/free_list.rs\<close>: a bump-and-bitmap allocator over one 64 MB slab of 256 blocks.  The bitmap
  is accessed byte by byte through raw pointers, as in the source; blocks are looked for in steps
  of the requested size.  The trait \<open>ListAllocationMethod\<close> is the locale
  \<open>list_allocation_method\<close>.

  \<open>reachable\<close> are the states of allocations and drops.  As long as no request exceeds 64 blocks
  the bitmap is exactly the union of the live nodes and these do not overlap
  (\<open>reachable_inv\<close>); the occupancy test looks at 64 blocks at most, and \<open>large_request_overlaps\<close>
  shows the two live nodes a larger request can put on the same memory.
\<close>

section \<open>State and bit operations\<close>

definition SLAB_SIZE :: nat where "SLAB_SIZE = 64 * 1024 * 1024"
definition BLOCK_SHIFT :: nat where "BLOCK_SHIFT = 0x12"

definition USIZE_MAX :: nat where "USIZE_MAX = 2 ^ 64 - 1"

definition BIT_MASK_U8 :: "u32 list" where
  "BIT_MASK_U8 = [0x00, 0x01, 0x03, 0x07, 0x0f, 0x1f, 0x3f, 0x7f, 0xff]"

record free_list =
  slab :: nat
  used :: bytes
  lock :: bool

definition free_list_new :: "nat \<Rightarrow> free_list" where
  "free_list_new slab_address = \<lparr>slab = slab_address, used = replicate 32 0, lock = False\<rparr>"

definition block_size :: "nat \<Rightarrow> nat" where
  "block_size n = (n + (2 ^ BLOCK_SHIFT - 1)) div 2 ^ BLOCK_SHIFT"

definition acquire :: "free_list \<Rightarrow> free_list memory_result" where
  "acquire fl = (if lock fl then Inl Spins else Inr (fl\<lparr>lock := True\<rparr>))"

definition unacquire :: "free_list \<Rightarrow> free_list" where
  "unacquire fl = fl\<lparr>lock := False\<rparr>"

definition bit_mask_u8 :: "nat \<Rightarrow> u32" where
  "bit_mask_u8 n = BIT_MASK_U8 ! n"

definition bit_bounds_check :: "nat \<Rightarrow> nat \<Rightarrow> bool" where
  "bit_bounds_check start len \<longleftrightarrow> len = 0 \<or> start + len > 255"

fun occupation_bytes :: "nat \<Rightarrow> nat \<Rightarrow> nat \<Rightarrow> u64 \<Rightarrow> bytes \<Rightarrow> (nat \<times> u64) memory_result" where
  "occupation_bytes 0 byte diff res bs = Inr (byte, res)"
| "occupation_bytes (Suc n) byte diff res bs =
     and_then (fetch byte bs) (\<lambda>b.
       occupation_bytes n (byte + 1) 8 (push_bit diff res OR ucast b) bs)"

definition check_occupation :: "bytes \<Rightarrow> nat \<Rightarrow> nat \<Rightarrow> u64 memory_result" where
  "check_occupation bs start len =
     (if bit_bounds_check start len then Inr 0
      else
        let len = min len 64; byte = start div 8; bit = start mod 8; diff = min len (8 - bit) in
        and_then
          (if bit \<noteq> 0
           then and_then (fetch byte bs) (\<lambda>b.
                  Inr (ucast (b AND ucast (push_bit bit (bit_mask_u8 diff))), byte + 1, len - diff))
           else Inr (0, byte, len)) (\<lambda>(res, byte, len).
        and_then (occupation_bytes (len div 8) byte diff res bs) (\<lambda>(byte, res).
        let bit = len mod 8 in
        if bit \<noteq> 0
        then and_then (fetch byte bs) (\<lambda>b.
               Inr (push_bit bit res OR ucast (b AND ucast (bit_mask_u8 bit))))
        else Inr res)))"

text \<open>
  \<open>bit_on\<close> and \<open>bit_off\<close> are one walk over the bitmap: \<open>op\<close> combines a byte with a mask,
  \<open>fill\<close> is written to the whole bytes.
\<close>

fun fill_bytes :: "u8 \<Rightarrow> nat \<Rightarrow> nat \<Rightarrow> bytes \<Rightarrow> (nat \<times> bytes) memory_result" where
  "fill_bytes fill 0 byte bs = Inr (byte, bs)"
| "fill_bytes fill (Suc n) byte bs =
     and_then (update_byte byte (\<lambda>_. fill) bs) (\<lambda>bs. fill_bytes fill n (byte + 1) bs)"

definition apply_bits :: "(u8 \<Rightarrow> u8 \<Rightarrow> u8) \<Rightarrow> u8 \<Rightarrow> bytes \<Rightarrow> nat \<Rightarrow> nat \<Rightarrow> bytes memory_result" where
  "apply_bits op fill bs start len =
     (if bit_bounds_check start len then Inr bs
      else
        let byte = start div 8; bit = start mod 8 in
        and_then
          (if bit \<noteq> 0
           then let diff = min len (8 - bit) in
                and_then (update_byte byte (\<lambda>b. op b (ucast (push_bit bit (bit_mask_u8 diff)))) bs)
                  (\<lambda>bs. Inr (bs, byte + 1, len - diff))
           else Inr (bs, byte, len)) (\<lambda>(bs, byte, len).
        and_then (fill_bytes fill (len div 8) byte bs) (\<lambda>(byte, bs).
        let bit = len mod 8 in
        if bit \<noteq> 0 then update_byte byte (\<lambda>b. op b (ucast (bit_mask_u8 bit))) bs
        else Inr bs)))"

definition bit_on :: "bytes \<Rightarrow> nat \<Rightarrow> nat \<Rightarrow> bytes memory_result" where
  "bit_on = apply_bits (\<lambda>b m. b OR m) 0xff"

definition bit_off :: "bytes \<Rightarrow> nat \<Rightarrow> nat \<Rightarrow> bytes memory_result" where
  "bit_off = apply_bits (\<lambda>b m. b AND NOT m) 0"

section \<open>The walk over the bitmap\<close>

definition block_used :: "bytes \<Rightarrow> nat \<Rightarrow> bool" where
  "block_used bs k \<longleftrightarrow> bit (bs ! (k div 8)) (k mod 8)"

lemma bit_mask_u8_eq: "n \<le> 8 \<Longrightarrow> bit_mask_u8 n = mask n"
proof -
  assume "n \<le> 8"
  then have "n \<in> {0, 1, 2, 3, 4, 5, 6, 7, 8}" by auto
  then show ?thesis by (auto simp: bit_mask_u8_def BIT_MASK_U8_def mask_eq_exp_minus_1)
qed

lemma bit_mask_byte: "n \<le> 8 \<Longrightarrow> bit (ucast (bit_mask_u8 n) :: u8) i \<longleftrightarrow> i < n"
  by (auto simp: bit_mask_u8_eq bit_ucast_iff bit_mask_iff)

lemma bit_mask_byte_shifted:
  "n + b \<le> 8 \<Longrightarrow> bit (ucast (push_bit b (bit_mask_u8 n)) :: u8) i \<longleftrightarrow> b \<le> i \<and> i < b + n"
  by (auto simp: bit_mask_u8_eq bit_ucast_iff bit_push_bit_iff bit_mask_iff)

lemma fill_bytes_eq:
  "byte + n \<le> length bs \<Longrightarrow>
   fill_bytes fill n byte bs = Inr (byte + n, take byte bs @ replicate n fill @ drop (byte + n) bs)"
proof (induction n arbitrary: byte bs)
  case 0
  then show ?case by simp
next
  case (Suc n)
  then have "byte < length bs" by simp
  with Suc show ?case
    by (simp add: upd_conv_take_nth_drop take_Suc_conv_app_nth replicate_append_same
        flip: append_assoc) (simp add: add_ac replicate_append_same)
qed

definition bits_set :: "bool \<Rightarrow> nat \<Rightarrow> nat \<Rightarrow> bytes \<Rightarrow> bytes \<Rightarrow> bool" where
  "bits_set v a b bs bs' \<longleftrightarrow> length bs' = length bs \<and>
     (\<forall>k < 8 * length bs. block_used bs' k \<longleftrightarrow> (if a \<le> k \<and> k < b then v else block_used bs k))"

lemma bits_set_trans:
  "bits_set v a b bs bs1 \<Longrightarrow> bits_set v b c bs1 bs2 \<Longrightarrow> a \<le> b \<Longrightarrow> b \<le> c \<Longrightarrow> bits_set v a c bs bs2"
  by (auto simp: bits_set_def)

lemma bits_set_empty:
  "bits_set v a a bs bs' \<longleftrightarrow>
   length bs' = length bs \<and> (\<forall>k < 8 * length bs. block_used bs' k \<longleftrightarrow> block_used bs k)"
proof -
  have "\<not> (a \<le> k \<and> k < a)" for k by simp
  then show ?thesis by (simp only: bits_set_def if_False)
qed

lemma bits_set_empty_any: "bits_set v a a bs bs' \<Longrightarrow> bits_set v b b bs bs'"
  by (simp add: bits_set_empty)

lemma bits_set_byte:
  assumes op: "\<And>b m i. bit (op b m) i \<longleftrightarrow> (if bit (m :: u8) i then v else bit (b :: u8) i)"
    and m: "\<And>i. bit m i \<longleftrightarrow> b0 \<le> i \<and> i < b0 + n" and "b0 + n \<le> 8" and byte: "byte < length bs"
  shows "bits_set v (8 * byte + b0) (8 * byte + b0 + n) bs (bs[byte := op (bs ! byte) m])"
proof -
  have "block_used (bs[byte := op (bs ! byte) m]) k \<longleftrightarrow>
      (if 8 * byte + b0 \<le> k \<and> k < 8 * byte + b0 + n then v else block_used bs k)" for k
  proof (cases "k div 8 = byte")
    case True
    have "k = 8 * (k div 8) + k mod 8" by simp
    then have "8 * byte + b0 \<le> k \<and> k < 8 * byte + b0 + n \<longleftrightarrow> b0 \<le> k mod 8 \<and> k mod 8 < b0 + n"
      using True by linarith
    with True byte show ?thesis by (simp add: block_used_def op m)
  next
    case False
    then have "\<not> (8 * byte \<le> k \<and> k < 8 * byte + 8)" by linarith
    with False assms(3) show ?thesis by (auto simp: block_used_def)
  qed
  then show ?thesis by (simp add: bits_set_def)
qed

lemma bits_set_fill:
  assumes fill: "\<And>i. i < 8 \<Longrightarrow> bit fill i = v" and "byte + n \<le> length bs"
  shows "bits_set v (8 * byte) (8 * (byte + n)) bs (take byte bs @ replicate n fill @ drop (byte + n) bs)"
proof -
  have "block_used (take byte bs @ replicate n fill @ drop (byte + n) bs) k \<longleftrightarrow>
      (if 8 * byte \<le> k \<and> k < 8 * (byte + n) then v else block_used bs k)" if "k < 8 * length bs" for k
  proof -
    have "8 * byte \<le> k \<longleftrightarrow> byte \<le> k div 8" by linarith
    moreover have "k < 8 * (byte + n) \<longleftrightarrow> k div 8 < byte + n"
      by (simp only: div_less_iff_less_mult [of 8, simplified] mult.commute)
    moreover have "k div 8 < length bs" using that by linarith
    ultimately show ?thesis
      using nth_stored [of byte "replicate n fill" bs "k div 8"] assms(2)
      by (auto simp: block_used_def fill)
  qed
  with assms(2) show ?thesis by (simp add: bits_set_def)
qed

text \<open>Byte-wise from a byte boundary: whole bytes, then the low bits of the next one.\<close>

lemma apply_tail:
  assumes op: "\<And>b m i. bit (op b m) i \<longleftrightarrow> (if bit (m :: u8) i then v else bit (b :: u8) i)"
    and fill: "\<And>i. i < 8 \<Longrightarrow> bit fill i = v" and room: "8 * byte + len \<le> 8 * length bs"
  shows "\<exists>bs'. and_then (fill_bytes fill (len div 8) byte bs) (\<lambda>(byte, bs).
      if len mod 8 \<noteq> 0 then update_byte byte (\<lambda>b. op b (ucast (bit_mask_u8 (len mod 8)))) bs else Inr bs) =
      Inr bs' \<and> bits_set v (8 * byte) (8 * byte + len) bs bs'"
proof -
  let ?n = "len div 8"
  let ?bs = "take byte bs @ replicate ?n fill @ drop (byte + ?n) bs"
  have n: "byte + ?n \<le> length bs" using room by linarith
  have len: "8 * byte + len = 8 * (byte + ?n) + len mod 8" by simp
  have F: "fill_bytes fill ?n byte bs = Inr (byte + ?n, ?bs)" by (rule fill_bytes_eq [OF n])
  note whole = bits_set_fill [where fill = fill, OF fill n]
  have L: "length ?bs = length bs" using n by simp
  show ?thesis
  proof (cases "len mod 8 = 0")
    case True
    then have "8 * byte + len = 8 * (byte + ?n)" using len by simp
    with F whole True show ?thesis by simp
  next
    case False
    have m8: "len mod 8 \<le> 8" by simp
    have "8 * (byte + ?n) < 8 * length bs" using room False len by linarith
    then have "byte + ?n < length bs" by (simp only: mult_less_cancel1)
    then have lt: "byte + ?n < length ?bs" by (simp only: L)
    let ?m = "ucast (bit_mask_u8 (len mod 8)) :: u8"
    have "bits_set v (8 * (byte + ?n) + 0) (8 * (byte + ?n) + 0 + len mod 8) ?bs
        (?bs[byte + ?n := op (?bs ! (byte + ?n)) ?m])"
      by (rule bits_set_byte [OF op _ _ lt]) (simp_all add: bit_mask_byte [OF m8])
    then have "bits_set v (8 * (byte + ?n)) (8 * byte + len) ?bs (?bs[byte + ?n := op (?bs ! (byte + ?n)) ?m])"
      by (simp only: len add_0_right)
    from bits_set_trans [OF whole this] have
      "bits_set v (8 * byte) (8 * byte + len) bs (?bs[byte + ?n := op (?bs ! (byte + ?n)) ?m])"
      by simp
    moreover have "update_byte (byte + ?n) (\<lambda>b. op b ?m) ?bs = Inr (?bs[byte + ?n := op (?bs ! (byte + ?n)) ?m])"
      using lt by (rule update_byte_in_bounds)
    ultimately show ?thesis using False by (simp only: F and_then_simps prod.case if_False if_True not_False_eq_True simp_thms) blast
  qed
qed

lemma next_byte:
  assumes "start = 8 * y + b" and "b < (8 :: nat)" and "\<not> len \<le> 8 - b"
  shows "8 * (y + 1) = start + min len (8 - b)"
    and "start + min len (8 - b) + (len - min len (8 - b)) = start + len"
  using assms by simp_all

lemma next_byte_room:
  assumes "start = 8 * y + b" and "b < (8 :: nat)" and "start + len \<le> 8 * m" and "y < m"
  shows "8 * (y + 1) + (len - min len (8 - b)) \<le> 8 * m"
proof (cases "len \<le> 8 - b")
  case True
  then show ?thesis using assms(4) by simp
next
  case False
  show ?thesis unfolding next_byte [OF assms(1,2) False] using assms(3) by simp
qed

lemma bits_set_next:
  assumes "start = 8 * y + b" and "b < (8 :: nat)"
    and set: "bits_set v (8 * (y + 1)) (8 * (y + 1) + (len - min len (8 - b))) bs bs'"
  shows "bits_set v (start + min len (8 - b)) (start + len) bs bs'"
proof (cases "len \<le> 8 - b")
  case True
  then have eq: "8 * (y + 1) + (len - min len (8 - b)) = 8 * (y + 1)" "start + len = start + min len (8 - b)"
    by simp_all
  show ?thesis unfolding eq(2) by (rule bits_set_empty_any [OF set [unfolded eq(1)]])
next
  case False
  from set show ?thesis unfolding next_byte [OF assms(1,2) False] .
qed

lemma apply_bits_sets:
  assumes op: "\<And>b m i. bit (op b m) i \<longleftrightarrow> (if bit (m :: u8) i then v else bit (b :: u8) i)"
    and fill: "\<And>i. i < 8 \<Longrightarrow> bit fill i = v" and L: "length bs = 32"
    and ok: "\<not> bit_bounds_check start len"
  shows "\<exists>bs'. apply_bits op fill bs start len = Inr bs' \<and> bits_set v start (start + len) bs bs'"
proof -
  let ?byte = "start div 8" let ?bit = "start mod 8"
  have start: "start = 8 * ?byte + ?bit" by simp
  have le: "start + len \<le> 255" and pos: "0 < len" using ok by (auto simp: bit_bounds_check_def)
  show ?thesis
  proof (cases "?bit = 0")
    case True
    then have s: "8 * ?byte = start" using start by simp
    have "8 * ?byte + len \<le> 8 * length bs" using le L s by simp
    from apply_tail [where op = op and fill = fill, OF op fill this] show ?thesis
      using ok True by (simp add: apply_bits_def Let_def s)
  next
    case False
    let ?diff = "min len (8 - ?bit)"
    let ?m = "ucast (push_bit ?bit (bit_mask_u8 ?diff)) :: u8"
    have lt8: "?bit < 8" by simp
    have d8: "?diff + ?bit \<le> 8" using lt8 by linarith
    have byte: "?byte < length bs" using le L by linarith
    let ?bs = "bs[?byte := op (bs ! ?byte) ?m]"
    have "bits_set v (8 * ?byte + ?bit) (8 * ?byte + ?bit + ?diff) bs ?bs"
      by (rule bits_set_byte [OF op _ _ byte])
        (use d8 in \<open>simp_all add: bit_mask_byte_shifted [OF d8] add.commute\<close>)
    then have first: "bits_set v start (start + ?diff) bs ?bs" by simp
    have room: "8 * (?byte + 1) + (len - ?diff) \<le> 8 * length ?bs"
      using le L byte by (intro next_byte_room [OF start lt8]) simp_all
    from apply_tail [where op = op and fill = fill, OF op fill room] obtain bs' where
      tail: "and_then (fill_bytes fill ((len - ?diff) div 8) (?byte + 1) ?bs) (\<lambda>(byte, bs).
        if (len - ?diff) mod 8 \<noteq> 0
        then update_byte byte (\<lambda>b. op b (ucast (bit_mask_u8 ((len - ?diff) mod 8)))) bs else Inr bs) = Inr bs'"
      and set: "bits_set v (8 * (?byte + 1)) (8 * (?byte + 1) + (len - ?diff)) ?bs bs'" by blast
    have "apply_bits op fill bs start len = Inr bs'"
      using ok False tail by (simp only: apply_bits_def Let_def update_byte_in_bounds [OF byte]
          and_then_simps prod.case if_False if_True not_False_eq_True simp_thms)
    moreover have "bits_set v start (start + len) bs bs'"
      by (rule bits_set_trans [OF first bits_set_next [OF start lt8 set]]) simp_all
    ultimately show ?thesis by blast
  qed
qed

lemma bits_full: "i < 8 \<Longrightarrow> bit (0xff :: u8) i"
proof -
  have "(0xff :: u8) = - 1" by simp
  then show "i < 8 \<Longrightarrow> bit (0xff :: u8) i" by (simp only: bit_minus_1_iff) simp
qed

lemma bit_on_sets:
  "length bs = 32 \<Longrightarrow> \<not> bit_bounds_check start len \<Longrightarrow>
   \<exists>bs'. bit_on bs start len = Inr bs' \<and> bits_set True start (start + len) bs bs'"
  unfolding bit_on_def
  by (rule apply_bits_sets) (simp_all only: bit_or_iff bits_full, simp_all)

lemma bit_off_sets:
  "length bs = 32 \<Longrightarrow> \<not> bit_bounds_check start len \<Longrightarrow>
   \<exists>bs'. bit_off bs start len = Inr bs' \<and> bits_set False start (start + len) bs bs'"
  unfolding bit_off_def
  by (rule apply_bits_sets)
    (auto simp: bit_and_iff bit_not_iff dest: bit_imp_le_length)

section \<open>The occupancy test\<close>

definition bits_clear :: "nat \<Rightarrow> nat \<Rightarrow> bytes \<Rightarrow> bool" where
  "bits_clear a b bs \<longleftrightarrow> (\<forall>k. a \<le> k \<and> k < b \<longrightarrow> \<not> block_used bs k)"

lemma bits_clear_split: "a \<le> b \<Longrightarrow> b \<le> c \<Longrightarrow> bits_clear a c bs \<longleftrightarrow> bits_clear a b bs \<and> bits_clear b c bs"
  by (auto simp: bits_clear_def) (meson not_le_imp_less)

lemma bits_clear_empty [simp]: "b \<le> a \<Longrightarrow> bits_clear a b bs"
  by (auto simp: bits_clear_def)

lemma byte_zero_iff: "(b :: u8) = 0 \<longleftrightarrow> (\<forall>i < 8. \<not> bit b i)"
  by (auto simp: bit_eq_iff dest: bit_imp_le_length)

lemma byte_bit: "i < 8 \<Longrightarrow> (8 * y + i) div 8 = (y :: nat)" "i < 8 \<Longrightarrow> (8 * y + i) mod 8 = (i :: nat)"
  by simp_all

lemma bits_clear_byte:
  assumes m: "\<And>i. bit m i \<longleftrightarrow> b0 \<le> i \<and> i < b0 + n" and "b0 + n \<le> 8"
  shows "bs ! byte AND m = 0 \<longleftrightarrow> bits_clear (8 * byte + b0) (8 * byte + b0 + n) bs"
proof -
  have "bs ! byte AND m = 0 \<longleftrightarrow> (\<forall>i < 8. bit m i \<longrightarrow> \<not> bit (bs ! byte) i)"
    by (auto simp: byte_zero_iff bit_and_iff)
  also have "\<dots> \<longleftrightarrow> (\<forall>i. b0 \<le> i \<and> i < b0 + n \<longrightarrow> \<not> block_used bs (8 * byte + i))"
    using assms(2) by (auto simp: m block_used_def byte_bit)
  also have "\<dots> \<longleftrightarrow> bits_clear (8 * byte + b0) (8 * byte + b0 + n) bs"
    unfolding bits_clear_def
  proof (intro iffI allI impI)
    fix k assume A: "\<forall>i. b0 \<le> i \<and> i < b0 + n \<longrightarrow> \<not> block_used bs (8 * byte + i)"
      and "8 * byte + b0 \<le> k \<and> k < 8 * byte + b0 + n"
    moreover from this obtain i where "k = 8 * byte + i" by (metis add.assoc le_iff_add)
    ultimately show "\<not> block_used bs k" using A by simp
  qed auto
  finally show ?thesis .
qed

lemma bits_clear_whole: "bs ! byte = 0 \<longleftrightarrow> bits_clear (8 * byte) (8 * byte + 8) bs"
proof -
  have ones: "bit (- 1 :: u8) i \<longleftrightarrow> 0 \<le> i \<and> i < 0 + 8" for i by (simp only: bit_minus_1_iff) simp
  have "bs ! byte AND - 1 = 0 \<longleftrightarrow> bits_clear (8 * byte + 0) (8 * byte + 0 + 8) bs"
    by (rule bits_clear_byte [OF ones]) simp
  then show ?thesis by (simp only: and.right_neutral add_0_right)
qed

lemma bits_clear_bytes: "(\<forall>j. byte \<le> j \<and> j < byte + n \<longrightarrow> bs ! j = 0) \<longleftrightarrow> bits_clear (8 * byte) (8 * (byte + n)) bs"
proof (induction n)
  case 0
  then show ?case by (auto simp: bits_clear_def)
next
  case (Suc n)
  have "(\<forall>j. byte \<le> j \<and> j < byte + Suc n \<longrightarrow> bs ! j = 0) \<longleftrightarrow>
      (\<forall>j. byte \<le> j \<and> j < byte + n \<longrightarrow> bs ! j = 0) \<and> bs ! (byte + n) = 0"
    by (auto simp: less_Suc_eq)
  with Suc bits_clear_whole [of bs "byte + n"] show ?case
    using bits_clear_split [of "8 * byte" "8 * (byte + n)" "8 * (byte + Suc n)" bs] by (simp add: add.commute)
qed

text \<open>Shifting the accumulator never loses a set bit while it has room.\<close>

definition bits_below :: "nat \<Rightarrow> u64 \<Rightarrow> bool" where
  "bits_below m res \<longleftrightarrow> (\<forall>i \<ge> m. \<not> bit res i)"

lemma shift_or:
  fixes b :: u8
  assumes "bits_below m res" and "m + d \<le> 64"
  shows "push_bit d res OR ucast b = 0 \<longleftrightarrow> res = 0 \<and> b = 0"
    and "8 \<le> m + d \<Longrightarrow> bits_below (m + d) (push_bit d res OR ucast b)"
proof -
  have shifted: "push_bit d res = 0 \<longleftrightarrow> res = 0"
  proof
    assume Z: "push_bit d res = 0"
    show "res = 0"
    proof (rule bit_word_eqI)
      fix i assume "i < LENGTH(64)"
      show "bit res i \<longleftrightarrow> bit 0 i"
      proof (cases "i < m")
        case True
        with assms(2) Z have "\<not> bit (push_bit d res) (i + d)" "i + d < 64" by simp_all
        then show ?thesis by (simp add: bit_push_bit_iff)
      qed (use assms(1) in \<open>simp add: bits_below_def\<close>)
    qed
  qed simp
  have low: "(ucast b :: u64) = 0 \<longleftrightarrow> b = 0"
    using unat_ucast_wide [of b, where 'b = 64] by (auto simp: unat_eq_zero [symmetric] simp del: unat_eq_zero)
  show "push_bit d res OR ucast b = 0 \<longleftrightarrow> res = 0 \<and> b = 0"
    by (simp add: or_eq_0_iff shifted low)
  show "bits_below (m + d) (push_bit d res OR ucast b)" if "8 \<le> m + d"
    using that assms(1)
    by (auto simp: bits_below_def bit_or_iff bit_push_bit_iff bit_ucast_iff dest: bit_imp_le_length)
qed

lemma occupation_bytes_zero:
  assumes "byte + n \<le> length bs" and "bits_below m res"
    and "n \<noteq> 0 \<Longrightarrow> 8 \<le> m + diff \<and> m + diff + 8 * n \<le> 72"
  shows "\<exists>res'. occupation_bytes n byte diff res bs = Inr (byte + n, res') \<and>
    (res' = 0 \<longleftrightarrow> res = 0 \<and> bits_clear (8 * byte) (8 * (byte + n)) bs) \<and>
    bits_below (if n = 0 then m else m + diff + 8 * n - 8) res'"
  using assms
proof (induction n arbitrary: byte diff res m)
  case 0
  then show ?case by (auto simp: bits_clear_def)
next
  case (Suc n)
  let ?res = "push_bit diff res OR ucast (bs ! byte)"
  have room: "m + diff \<le> 64" "8 \<le> m + diff" using Suc.prems(3) by simp_all
  note step = shift_or [OF Suc.prems(2) room(1), of "bs ! byte"]
  have byte0: "bs ! byte = 0 \<longleftrightarrow> bits_clear (8 * byte) (8 * (byte + 1)) bs"
    using bits_clear_whole [of bs byte] by (simp add: add.commute)
  have "\<exists>res'. occupation_bytes n (byte + 1) 8 ?res bs = Inr (byte + 1 + n, res') \<and>
    (res' = 0 \<longleftrightarrow> ?res = 0 \<and> bits_clear (8 * (byte + 1)) (8 * (byte + 1 + n)) bs) \<and>
    bits_below (if n = 0 then m + diff else m + diff + 8 + 8 * n - 8) res'"
    by (rule Suc.IH) (use Suc.prems step(2) room in auto)
  moreover have "byte < length bs" using Suc.prems(1) by simp
  moreover have "bits_clear (8 * byte) (8 * (byte + Suc n)) bs \<longleftrightarrow>
      bs ! byte = 0 \<and> bits_clear (8 * (byte + 1)) (8 * (byte + 1 + n)) bs"
    using bits_clear_split [of "8 * byte" "8 * (byte + 1)" "8 * (byte + Suc n)" bs] byte0 by simp
  ultimately show ?case using step(1) by (auto split: if_splits)
qed

lemma occupation_tail:
  assumes room: "8 * byte + len \<le> 8 * length bs" and res: "bits_below m res" and m: "m \<le> 8"
    and diff: "8 \<le> len \<Longrightarrow> 8 \<le> m + diff \<and> m + diff + len \<le> 72"
  shows "\<exists>res'. and_then (occupation_bytes (len div 8) byte diff res bs) (\<lambda>(byte, res).
      if len mod 8 \<noteq> 0
      then and_then (fetch byte bs) (\<lambda>b.
             Inr (push_bit (len mod 8) res OR ucast (b AND ucast (bit_mask_u8 (len mod 8)))))
      else Inr res) = Inr res' \<and> (res' = 0 \<longleftrightarrow> res = 0 \<and> bits_clear (8 * byte) (8 * byte + len) bs)"
proof -
  let ?n = "len div 8" let ?r = "len mod 8"
  have len: "8 * byte + len = 8 * (byte + ?n) + ?r" by simp
  have n: "byte + ?n \<le> length bs" using room by linarith
  have nz: "?n \<noteq> 0 \<Longrightarrow> 8 \<le> m + diff \<and> m + diff + 8 * ?n + ?r \<le> 72"
    using diff by (simp add: div_eq_0_iff)
  then have nz': "?n \<noteq> 0 \<Longrightarrow> 8 \<le> m + diff \<and> m + diff + 8 * ?n \<le> 72" by auto
  from occupation_bytes_zero [OF n res nz'] obtain res1 where
    r1: "occupation_bytes ?n byte diff res bs = Inr (byte + ?n, res1)"
      "res1 = 0 \<longleftrightarrow> res = 0 \<and> bits_clear (8 * byte) (8 * (byte + ?n)) bs"
      "bits_below (if ?n = 0 then m else m + diff + 8 * ?n - 8) res1" by auto
  show ?thesis
  proof (cases "?r = 0")
    case True
    with r1 len show ?thesis by simp
  next
    case False
    have lt: "byte + ?n < length bs"
    proof -
      have "8 * (byte + ?n) < 8 * length bs" using room False len by linarith
      then show ?thesis by (simp only: mult_less_cancel1)
    qed
    have r8: "?r \<le> 8" by simp
    let ?m = "ucast (bit_mask_u8 ?r) :: u8"
    have "(if ?n = 0 then m else m + diff + 8 * ?n - 8) + ?r \<le> 64"
      using nz m r8 by (cases "?n = 0") auto
    from shift_or(1) [OF r1(3) this, of "bs ! (byte + ?n) AND ?m"]
    have "push_bit ?r res1 OR ucast (bs ! (byte + ?n) AND ?m) = 0 \<longleftrightarrow>
        res1 = 0 \<and> bs ! (byte + ?n) AND ?m = 0" .
    also have "bs ! (byte + ?n) AND ?m = 0 \<longleftrightarrow> bits_clear (8 * (byte + ?n) + 0) (8 * (byte + ?n) + 0 + ?r) bs"
      by (rule bits_clear_byte) (simp_all add: bit_mask_byte [OF r8])
    also have "res1 = 0 \<and> bits_clear (8 * (byte + ?n) + 0) (8 * (byte + ?n) + 0 + ?r) bs \<longleftrightarrow>
        res = 0 \<and> bits_clear (8 * byte) (8 * byte + len) bs"
      using r1(2) bits_clear_split [of "8 * byte" "8 * (byte + ?n)" "8 * byte + len" bs]
      by (simp only: len add_0_right) auto
    finally show ?thesis using False lt r1(1) by simp
  qed
qed

lemma first_byte_clear:
  assumes "start = 8 * y + b" and "d + b \<le> 8"
  shows "(ucast (bs ! y AND ucast (push_bit b (bit_mask_u8 d)) :: u8) :: u64) = 0 \<longleftrightarrow> bits_clear start (start + d) bs"
    and "bits_below 8 (ucast (bs ! y AND ucast (push_bit b (bit_mask_u8 d)) :: u8) :: u64)"
proof -
  let ?b = "bs ! y AND ucast (push_bit b (bit_mask_u8 d)) :: u8"
  have "?b = 0 \<longleftrightarrow> bits_clear (8 * y + b) (8 * y + b + d) bs"
    by (rule bits_clear_byte) (use assms(2) in \<open>simp_all add: bit_mask_byte_shifted [OF assms(2)] add.commute\<close>)
  moreover have "(ucast ?b :: u64) = 0 \<longleftrightarrow> ?b = 0"
    using shift_or(1) [of 0 0 0 ?b] by (simp add: bits_below_def)
  ultimately show "(ucast ?b :: u64) = 0 \<longleftrightarrow> bits_clear start (start + d) bs" by (simp add: assms(1))
  show "bits_below 8 (ucast ?b :: u64)" using shift_or(2) [of 8 0 0 ?b] by (simp add: bits_below_def)
qed

lemma bits_clear_next:
  assumes "start = 8 * y + b" and "b < (8 :: nat)"
  shows "bits_clear (8 * (y + 1)) (8 * (y + 1) + (n - min n (8 - b))) bs \<longleftrightarrow>
    bits_clear (start + min n (8 - b)) (start + n) bs"
proof (cases "n \<le> 8 - b")
  case False
  show ?thesis unfolding next_byte [OF assms False] ..
qed simp

lemma check_occupation_zero:
  assumes L: "length bs = 32" and ok: "\<not> bit_bounds_check start len"
  shows "\<exists>res. check_occupation bs start len = Inr res \<and>
    (res = 0 \<longleftrightarrow> bits_clear start (start + min len 64) bs)"
proof -
  define n where "n = min len 64"
  let ?byte = "start div 8" let ?bit = "start mod 8" let ?diff = "min n (8 - ?bit)"
  have start: "start = 8 * ?byte + ?bit" by simp
  have le: "start + n \<le> 255" "n \<le> 64" "0 < n" using ok by (auto simp: bit_bounds_check_def n_def)
  show ?thesis
  proof (cases "?bit = 0")
    case True
    then have s: "8 * ?byte = start" using start by simp
    have room: "8 * ?byte + n \<le> 8 * length bs" using le L s by simp
    from occupation_tail [OF room, of 0 0 ?diff] le True show ?thesis
      using ok by (auto simp: check_occupation_def Let_def s bits_below_def simp flip: n_def)
  next
    case False
    have lt8: "?bit < 8" by simp
    have d8: "?diff + ?bit \<le> 8" using lt8 by linarith
    have byte: "?byte < length bs" using le L by linarith
    let ?b = "bs ! ?byte AND ucast (push_bit ?bit (bit_mask_u8 ?diff)) :: u8"
    note first = first_byte_clear [OF start d8, of bs]
    have room: "8 * (?byte + 1) + (n - ?diff) \<le> 8 * length bs"
      using le L byte by (intro next_byte_room [OF start lt8]) simp_all
    have d: "8 \<le> 8 + ?diff \<and> 8 + ?diff + (n - ?diff) \<le> 72" using le by simp
    from occupation_tail [OF room first(2) order_refl d] obtain res where
      tail: "and_then (occupation_bytes ((n - ?diff) div 8) (?byte + 1) ?diff (ucast ?b) bs) (\<lambda>(byte, res).
        if (n - ?diff) mod 8 \<noteq> 0
        then and_then (fetch byte bs) (\<lambda>b. Inr (push_bit ((n - ?diff) mod 8) res OR
               ucast (b AND ucast (bit_mask_u8 ((n - ?diff) mod 8)))))
        else Inr res) = Inr res"
      and zero: "res = 0 \<longleftrightarrow> (ucast ?b :: u64) = 0 \<and>
        bits_clear (8 * (?byte + 1)) (8 * (?byte + 1) + (n - ?diff)) bs" by blast
    have "check_occupation bs start len = Inr res"
      using ok False tail by (simp only: check_occupation_def Let_def fetch_in_bounds [OF byte]
          and_then_simps prod.case if_False if_True not_False_eq_True simp_thms n_def)
    moreover have "res = 0 \<longleftrightarrow> bits_clear start (start + n) bs"
      using bits_clear_split [of start "start + ?diff" "start + n" bs] zero first(1) bits_clear_next [OF start lt8, of n bs] by simp
    ultimately show ?thesis by (auto simp: n_def)
  qed
qed

section \<open>Finding, taking and returning blocks\<close>

lemma check_occupation_nonzero: "check_occupation bs start len = Inr res \<Longrightarrow> res \<noteq> 0 \<Longrightarrow> 0 < len \<and> start + len \<le> 255"
  by (auto simp: check_occupation_def bit_bounds_check_def split: if_splits)

function find_start :: "bytes \<Rightarrow> nat \<Rightarrow> nat \<Rightarrow> nat memory_result" where
  "find_start bs n start =
     and_then (check_occupation bs start n) (\<lambda>occupation.
       if occupation = 0 then Inr start else find_start bs n (start + n))"
  by pat_completeness auto
termination
  by (relation "measure (\<lambda>(bs, n, start). 256 - start)") (auto dest!: check_occupation_nonzero)

declare find_start.simps [simp del]

definition Basic_get_free_block_index :: "free_list \<Rightarrow> nat \<Rightarrow> nat memory_result" where
  "Basic_get_free_block_index fl n =
     and_then (find_start (used fl) n 0) (\<lambda>start.
       Inr (if start + n \<le> 255 then start else USIZE_MAX))"

record free_list_node =
  node_ptr :: nat
  node_size :: nat
  managed :: bool

definition new_managed :: "nat \<Rightarrow> nat \<Rightarrow> free_list_node" where
  "new_managed ptr n = \<lparr>node_ptr = ptr, node_size = n, managed = True\<rparr>"

text \<open>\<open>heap\<close> is the address the global allocator would return.\<close>

definition new_unmanaged :: "nat \<Rightarrow> nat \<Rightarrow> free_list_node" where
  "new_unmanaged heap n = \<lparr>node_ptr = heap, node_size = n, managed = False\<rparr>"

text \<open>The bytes of a node, in a memory with an address for every byte.\<close>

definition node_slice :: "(nat \<Rightarrow> u8) \<Rightarrow> free_list_node \<Rightarrow> bytes" where
  "node_slice memory p = map memory [node_ptr p..<node_ptr p + node_size p]"

declare new_managed_def [simp] new_unmanaged_def [simp] node_slice_def [simp]

definition allocate :: "nat \<Rightarrow> free_list \<Rightarrow> nat \<Rightarrow> (free_list_node \<times> free_list) memory_result" where
  "allocate heap fl n =
     (let blocks = block_size n in
      and_then (acquire fl) (\<lambda>fl.
      and_then (Basic_get_free_block_index fl blocks) (\<lambda>start.
      if start = USIZE_MAX
      then Inr (new_unmanaged heap n, unacquire fl)
      else
        and_then (bit_on (used fl) start blocks) (\<lambda>bs.
        let fl = unacquire (fl\<lparr>used := bs\<rparr>) in
        Inr (new_managed (slab fl + start * 2 ^ BLOCK_SHIFT) n, fl)))))"

definition deallocate :: "free_list \<Rightarrow> free_list_node \<Rightarrow> free_list memory_result" where
  "deallocate fl p =
     (let blocks = block_size (node_size p) in
      and_then (acquire fl) (\<lambda>fl.
      and_then (bit_off (used fl) ((node_ptr p - slab fl) div 2 ^ BLOCK_SHIFT) blocks) (\<lambda>bs.
        Inr (unacquire (fl\<lparr>used := bs\<rparr>)))))"

definition drop_node :: "free_list \<Rightarrow> free_list_node \<Rightarrow> free_list memory_result" where
  "drop_node fl p = (if managed p then deallocate fl p else Inr fl)"

definition free_list_wf :: "free_list \<Rightarrow> bool" where
  "free_list_wf fl \<longleftrightarrow> length (used fl) = 32 \<and> \<not> lock fl"

lemma find_start_ok:
  assumes "length bs = 32"
  shows "\<exists>i. find_start bs n start = Inr i \<and> start \<le> i \<and>
    (i + n \<le> 255 \<longrightarrow> bits_clear i (i + min n 64) bs)"
  using assms
proof (induction bs n start rule: find_start.induct)
  case (1 bs n start)
  show ?case
  proof (cases "bit_bounds_check start n")
    case True
    then have "find_start bs n start = Inr start"
      by (subst find_start.simps) (simp add: check_occupation_def)
    with True show ?thesis by (auto simp: bit_bounds_check_def bits_clear_def)
  next
    case False
    from check_occupation_zero [OF "1.prems" False] obtain res where
      res: "check_occupation bs start n = Inr res" "res = 0 \<longleftrightarrow> bits_clear start (start + min n 64) bs"
      by blast
    show ?thesis
    proof (cases "res = 0")
      case True
      with res show ?thesis by (subst find_start.simps) simp
    next
      case nz: False
      from "1.IH" [OF res(1) nz "1.prems"] show ?thesis
        using res(1) nz by (subst find_start.simps) auto
    qed
  qed
qed

text \<open>
  The trait.  Its contract is what the source relies on: either the marker \<open>usize::MAX\<close>, or a
  place inside the slab of which the first 64 blocks at most are known to be free.
\<close>

locale list_allocation_method =
  fixes get_index :: "free_list \<Rightarrow> nat \<Rightarrow> nat memory_result"
  assumes get_index_ok: "free_list_wf fl \<Longrightarrow>
    \<exists>i. get_index fl n = Inr i \<and>
      (i = USIZE_MAX \<or> i + n \<le> 255 \<and> bits_clear i (i + min n 64) (used fl))"
begin

lemma get_index_cases:
  assumes "free_list_wf fl"
  obtains "get_index fl n = Inr USIZE_MAX"
  | i where "get_index fl n = Inr i" "i \<noteq> USIZE_MAX" "i + n \<le> 255" "bits_clear i (i + min n 64) (used fl)"
  using get_index_ok [OF assms, of n] by blast

lemma small_index_free:
  assumes "free_list_wf fl" and "n \<le> 64" and "get_index fl n = Inr i" and "i \<noteq> USIZE_MAX"
  shows "i + n \<le> 255 \<and> bits_clear i (i + n) (used fl)"
  using get_index_ok [OF assms(1), of n] assms(2-4) by (auto simp: min_absorb1)

end

interpretation basic: list_allocation_method Basic_get_free_block_index
proof
  fix fl n assume "free_list_wf fl"
  then have "length (used fl) = 32" by (simp add: free_list_wf_def)
  from find_start_ok [OF this, of n 0] obtain i where
    "find_start (used fl) n 0 = Inr i" "i + n \<le> 255 \<longrightarrow> bits_clear i (i + min n 64) (used fl)"
    by blast
  then show "\<exists>i. Basic_get_free_block_index fl n = Inr i \<and>
      (i = USIZE_MAX \<or> i + n \<le> 255 \<and> bits_clear i (i + min n 64) (used fl))"
    by (simp add: Basic_get_free_block_index_def)
qed

section \<open>Live nodes\<close>

text \<open>The blocks a managed node occupies, and how many live nodes own a block.\<close>

definition node_start :: "nat \<Rightarrow> free_list_node \<Rightarrow> nat" where
  "node_start base p = (node_ptr p - base) div 2 ^ BLOCK_SHIFT"

definition owns :: "nat \<Rightarrow> nat \<Rightarrow> free_list_node \<Rightarrow> bool" where
  "owns base k p \<longleftrightarrow>
     managed p \<and> node_start base p \<le> k \<and> k < node_start base p + block_size (node_size p)"

definition owners :: "nat \<Rightarrow> nat \<Rightarrow> free_list_node list \<Rightarrow> nat" where
  "owners base k ps = length (filter (owns base k) ps)"

definition node_wf :: "nat \<Rightarrow> free_list_node \<Rightarrow> bool" where
  "node_wf base p \<longleftrightarrow> (managed p \<longrightarrow>
     node_ptr p = base + node_start base p * 2 ^ BLOCK_SHIFT \<and>
     node_start base p + block_size (node_size p) \<le> 255)"

text \<open>
  Allocations of at most \<open>limit\<close> blocks and drops of live nodes, in any order.
\<close>

inductive alloc_step ::
  "nat \<Rightarrow> free_list \<times> free_list_node list \<Rightarrow> free_list \<times> free_list_node list \<Rightarrow> bool"
  for limit where
  step_allocate: "allocate heap fl n = Inr (p, fl') \<Longrightarrow> block_size n \<le> limit \<Longrightarrow>
    alloc_step limit (fl, ps) (fl', p # ps)"
| step_drop: "drop_node fl p = Inr fl' \<Longrightarrow>
    alloc_step limit (fl, ps @ p # qs) (fl', ps @ qs)"

inductive alloc_reachable :: "nat \<Rightarrow> nat \<Rightarrow> free_list \<times> free_list_node list \<Rightarrow> bool" for limit base where
  reachable_new: "alloc_reachable limit base (free_list_new base, [])"
| reachable_step: "alloc_reachable limit base s \<Longrightarrow> alloc_step limit s s' \<Longrightarrow>
    alloc_reachable limit base s'"

inductive_cases alloc_stepE: "alloc_step limit s s'"

definition alloc_inv :: "nat \<Rightarrow> free_list \<times> free_list_node list \<Rightarrow> bool" where
  "alloc_inv base s \<longleftrightarrow>
     free_list_wf (fst s) \<and> slab (fst s) = base \<and> (\<forall>p \<in> set (snd s). node_wf base p) \<and>
     (\<forall>k < 256. owners base k (snd s) = of_bool (block_used (used (fst s)) k))"

lemma owners_simps [simp]:
  "owners base k [] = 0"
  "owners base k (p # ps) = of_bool (owns base k p) + owners base k ps"
  "owners base k (ps @ qs) = owners base k ps + owners base k qs"
  by (simp_all add: owners_def)

lemma usize_max_big: "i + n \<le> 255 \<Longrightarrow> i \<noteq> USIZE_MAX"
  by (auto simp: USIZE_MAX_def)

lemma allocate_cases:
  assumes "free_list_wf fl"
  obtains (unmanaged_node) "allocate heap fl n = Inr (\<lparr>node_ptr = heap, node_size = n, managed = False\<rparr>, fl)"
  | (managed_node) i bs where
    "allocate heap fl n = Inr (\<lparr>node_ptr = slab fl + i * 2 ^ BLOCK_SHIFT, node_size = n, managed = True\<rparr>,
       fl\<lparr>used := bs\<rparr>)"
    "bits_set True i (i + block_size n) (used fl) bs" "i + block_size n \<le> 255"
    "bits_clear i (i + min (block_size n) 64) (used fl)"
proof -
  let ?locked = "fl\<lparr>lock := True\<rparr>"
  have lk: "acquire fl = Inr ?locked" "unacquire ?locked = fl" and L: "length (used fl) = 32"
    using assms by (simp_all add: free_list_wf_def acquire_def unacquire_def)
  have same: "Basic_get_free_block_index ?locked m = Basic_get_free_block_index fl m" for m
    by (simp add: Basic_get_free_block_index_def)
  from assms show thesis
  proof (cases rule: basic.get_index_cases [of fl "block_size n"])
    case 1
    then show thesis using unmanaged_node lk same by (simp add: allocate_def Let_def)
  next
    case (2 i)
    obtain bs where bs: "bit_on (used fl) i (block_size n) = Inr bs"
      "bits_set True i (i + block_size n) (used fl) bs"
    proof (cases "block_size n = 0")
      case True
      then show thesis
        using that [of "used fl"] by (simp add: bit_on_def apply_bits_def bit_bounds_check_def bits_set_empty)
    next
      case False
      with 2(3) have "\<not> bit_bounds_check i (block_size n)" by (simp add: bit_bounds_check_def)
      from bit_on_sets [OF L this] that show thesis by blast
    qed
    have "unacquire (?locked\<lparr>used := bs\<rparr>) = fl\<lparr>used := bs\<rparr>"
      using assms by (simp add: unacquire_def free_list_wf_def)
    with 2 bs managed_node [of i bs] lk same show thesis by (simp add: allocate_def Let_def)
  qed
qed

lemma alloc_inv_allocate:
  assumes inv: "alloc_inv base (fl, ps)" and "block_size n \<le> 64" and "allocate heap fl n = Inr (p, fl')"
  shows "alloc_inv base (fl', p # ps)"
proof -
  have wf: "free_list_wf fl" and base: "slab fl = base" using inv by (simp_all add: alloc_inv_def)
  show ?thesis
  proof (cases rule: allocate_cases [OF wf, of heap n])
    case 1
    with assms show ?thesis by (auto simp: alloc_inv_def owns_def node_wf_def)
  next
    case (2 i bs)
    then have p: "p = \<lparr>node_ptr = base + i * 2 ^ BLOCK_SHIFT, node_size = n, managed = True\<rparr>"
      and fl': "fl' = fl\<lparr>used := bs\<rparr>" using assms(3) base by simp_all
    have st: "node_start base p = i" by (simp add: node_start_def p BLOCK_SHIFT_def)
    have owns: "owns base k p \<longleftrightarrow> i \<le> k \<and> k < i + block_size n" for k
      by (simp add: owns_def st) (simp add: p)
    have L: "length (used fl) = 32" using wf by (simp add: free_list_wf_def)
    have clear: "\<not> block_used (used fl) k" if "i \<le> k" "k < i + block_size n" for k
      using 2(4) assms(2) that by (simp add: bits_clear_def min_absorb1)
    have "owners base k (p # ps) = of_bool (block_used bs k)" if "k < 256" for k
      using inv that 2(2) L clear [of k] by (auto simp: alloc_inv_def bits_set_def owns)
    moreover have "node_wf base p" using 2(3) st by (simp add: node_wf_def) (simp add: p)
    ultimately show ?thesis
      using inv 2(2) by (auto simp: alloc_inv_def fl' free_list_wf_def bits_set_def)
  qed
qed

lemma drop_node_cases:
  assumes "free_list_wf fl" and "node_wf (slab fl) p"
  obtains (unmanaged_node) "\<not> managed p" "drop_node fl p = Inr fl"
  | (managed_node) bs where "managed p" "drop_node fl p = Inr (fl\<lparr>used := bs\<rparr>)"
    "bits_set False (node_start (slab fl) p) (node_start (slab fl) p + block_size (node_size p)) (used fl) bs"
proof (cases "managed p")
  case False
  with unmanaged_node show thesis by (simp add: drop_node_def)
next
  case True
  let ?s = "node_start (slab fl) p" let ?n = "block_size (node_size p)"
  have L: "length (used fl) = 32" and lk: "\<not> lock fl" using assms by (simp_all add: free_list_wf_def)
  obtain bs where "bit_off (used fl) ?s ?n = Inr bs" "bits_set False ?s (?s + ?n) (used fl) bs"
  proof (cases "?n = 0")
    case True
    then show thesis
      using that [of "used fl"] by (simp add: bit_off_def apply_bits_def bit_bounds_check_def bits_set_empty)
  next
    case False
    with assms(2) \<open>managed p\<close> have "\<not> bit_bounds_check ?s ?n" by (simp add: bit_bounds_check_def node_wf_def)
    from bit_off_sets [OF L this] that show thesis by blast
  qed
  with managed_node [of bs] True lk show thesis
    by (simp add: drop_node_def deallocate_def Let_def acquire_def unacquire_def node_start_def)
qed

lemma alloc_inv_drop:
  assumes inv: "alloc_inv base (fl, ps @ p # qs)" and "drop_node fl p = Inr fl'"
  shows "alloc_inv base (fl', ps @ qs)"
proof -
  have wf: "free_list_wf fl" and base: "slab fl = base" and p: "node_wf (slab fl) p"
    using inv by (simp_all add: alloc_inv_def)
  show ?thesis
  proof (cases rule: drop_node_cases [OF wf p])
    case 1
    with assms show ?thesis by (auto simp: alloc_inv_def owns_def)
  next
    case (2 bs)
    have L: "length (used fl) = 32" using wf by (simp add: free_list_wf_def)
    have "owners base k (ps @ qs) = of_bool (block_used bs k)" if "k < 256" for k
    proof -
      have "owners base k (ps @ p # qs) = of_bool (block_used (used fl) k)"
        using inv that by (simp add: alloc_inv_def)
      with that 2(1,3) L base show ?thesis
        by (cases "owns base k p"; cases "block_used (used fl) k") (auto simp: bits_set_def owns_def)
    qed
    with inv 2 assms(2) show ?thesis by (auto simp: alloc_inv_def free_list_wf_def bits_set_def)
  qed
qed

lemma alloc_inv_new: "alloc_inv base (free_list_new base, [])"
  by (auto simp: alloc_inv_def free_list_new_def free_list_wf_def block_used_def)

lemma reachable_inv:
  assumes "alloc_reachable limit base s" and "limit \<le> 64"
  shows "alloc_inv base s"
  using assms(1)
proof (induction rule: alloc_reachable.induct)
  case reachable_new
  show ?case by (rule alloc_inv_new)
next
  case (reachable_step s s')
  from reachable_step.hyps(2) reachable_step.IH assms(2) show ?case
    by (elim alloc_stepE) (auto intro: alloc_inv_allocate [OF _ order_trans] alloc_inv_drop)
qed

section \<open>Memory\<close>

text \<open>The bytes a node may be read and written at.\<close>

definition node_bytes :: "free_list_node \<Rightarrow> nat set" where
  "node_bytes p = {node_ptr p ..< node_ptr p + node_size p}"

lemma block_size_covers: "n \<le> block_size n * 2 ^ BLOCK_SHIFT"
proof -
  let ?b = "2 ^ BLOCK_SHIFT :: nat"
  have "n + (?b - 1) = block_size n * ?b + (n + (?b - 1)) mod ?b"
    unfolding block_size_def by (simp only: div_mult_mod_eq)
  moreover have "(n + (?b - 1)) mod ?b \<le> ?b - 1" by (simp add: BLOCK_SHIFT_def)
  ultimately show ?thesis by linarith
qed

lemma node_bytes_owned:
  assumes "node_wf base p" and "managed p" and "a \<in> node_bytes p"
  shows "owns base ((a - base) div 2 ^ BLOCK_SHIFT) p"
proof -
  let ?b = "2 ^ BLOCK_SHIFT :: nat"
  have ptr: "node_ptr p = base + node_start base p * ?b" using assms by (simp add: node_wf_def)
  have b0: "0 < ?b" by simp
  from assms(3) ptr block_size_covers [of "node_size p"]
  have "node_start base p * ?b \<le> a - base"
    and "a - base < (node_start base p + block_size (node_size p)) * ?b"
    by (auto simp: node_bytes_def algebra_simps)
  then show ?thesis
    using assms(2) by (simp add: owns_def less_eq_div_iff_mult_less_eq [OF b0] div_less_iff_less_mult [OF b0])
qed

lemma two_owners:
  assumes "i < j" and "j < length ps" and "owns base k (ps ! i)" and "owns base k (ps ! j)"
  shows "2 \<le> owners base k ps"
proof -
  have "ps = take j ps @ ps ! j # drop (Suc j) ps" using assms(2) by (rule id_take_nth_drop)
  then have "owners base k ps = owners base k (take j ps) + owners base k (ps ! j # drop (Suc j) ps)"
    by (metis owners_simps(3))
  moreover have "ps ! i \<in> set (filter (owns base k) (take j ps))"
    using assms by (auto simp: in_set_conv_nth intro!: exI [of _ i])
  then have "owners base k (take j ps) \<noteq> 0" using assms(3) by (auto simp: owners_def filter_empty_conv)
  ultimately show ?thesis using assms(4) by simp
qed

lemma inv_disjoint:
  assumes inv: "alloc_inv base (fl, ps)" and ij: "i < j" "j < length ps"
    and "managed (ps ! i)" and "managed (ps ! j)"
  shows "node_bytes (ps ! i) \<inter> node_bytes (ps ! j) = {}"
proof (rule ccontr)
  assume "\<not> ?thesis"
  then obtain a where a: "a \<in> node_bytes (ps ! i)" "a \<in> node_bytes (ps ! j)" by blast
  let ?k = "(a - base) div 2 ^ BLOCK_SHIFT"
  have wf: "node_wf base (ps ! i)" "node_wf base (ps ! j)" using inv ij by (simp_all add: alloc_inv_def)
  note o = node_bytes_owned [OF wf(1) assms(4) a(1)] node_bytes_owned [OF wf(2) assms(5) a(2)]
  from o(1) wf(1) have "?k < 256" by (auto simp: owns_def node_wf_def)
  then have "owners base ?k ps \<le> 1" using inv by (simp add: alloc_inv_def)
  with two_owners [OF ij o] show False by simp
qed

lemma inv_in_slab:
  assumes "alloc_inv base (fl, ps)" and "p \<in> set ps" and "managed p"
  shows "node_bytes p \<subseteq> {base ..< base + SLAB_SIZE}"
proof -
  have wf: "node_wf base p" using assms by (simp add: alloc_inv_def)
  then have "(node_start base p + block_size (node_size p)) * 2 ^ BLOCK_SHIFT \<le> 255 * 2 ^ BLOCK_SHIFT"
    using assms(3) by (intro mult_right_mono) (simp_all add: node_wf_def)
  with wf assms(3) block_size_covers [of "node_size p"] show ?thesis
    by (auto simp: node_bytes_def node_wf_def SLAB_SIZE_def BLOCK_SHIFT_def algebra_simps)
qed

section \<open>A node used and dropped\<close>

lemma same_bitmap:
  assumes "length bs = length bs'" and "\<And>k. k < 8 * length bs \<Longrightarrow> block_used bs k \<longleftrightarrow> block_used bs' k"
  shows "bs = bs'"
proof (rule nth_equalityI [OF assms(1)])
  fix i assume i: "i < length bs"
  show "bs ! i = bs' ! i"
  proof (rule bit_word_eqI)
    fix j assume "j < LENGTH(8)"
    then have j: "j < 8" by simp
    with i have "8 * i + j < 8 * length bs" by simp
    from assms(2) [OF this] j show "bit (bs ! i) j \<longleftrightarrow> bit (bs' ! i) j" by (simp add: block_used_def)
  qed
qed

lemma allocate_drop:
  assumes wf: "free_list_wf fl" and all: "allocate heap fl n = Inr (p, fl')"
    and free: "block_size n \<le> 64 \<or> used fl = replicate 32 0"
  shows "node_size p = n" and "drop_node fl' p = Inr fl"
proof -
  show "node_size p = n" by (cases rule: allocate_cases [OF wf, of heap n]) (use all in auto)
  show "drop_node fl' p = Inr fl"
  proof (cases rule: allocate_cases [OF wf, of heap n])
    case 1
    with all show ?thesis by (auto simp: drop_node_def)
  next
    case (2 i bs)
    have L: "length (used fl) = 32" using wf by (simp add: free_list_wf_def)
    have fl': "fl' = fl\<lparr>used := bs\<rparr>" and
      p: "p = \<lparr>node_ptr = slab fl + i * 2 ^ BLOCK_SHIFT, node_size = n, managed = True\<rparr>"
      using all 2(1) by simp_all
    have st: "node_start (slab fl') p = i" by (simp add: node_start_def p fl' BLOCK_SHIFT_def)
    have wf': "free_list_wf fl'" using wf 2(2) by (auto simp: fl' free_list_wf_def bits_set_def)
    have node: "node_wf (slab fl') p" using 2(3) st by (simp add: node_wf_def) (simp add: p fl')
    have clear: "\<not> block_used (used fl) k" if "i \<le> k" "k < i + block_size n" for k
      using free
    proof
      assume "block_size n \<le> 64"
      with 2(4) that show ?thesis by (simp add: bits_clear_def min_absorb1)
    next
      assume "used fl = replicate 32 0"
      with that 2(3) show ?thesis by (simp add: block_used_def)
    qed
    show ?thesis
    proof (cases rule: drop_node_cases [OF wf' node])
      case 1
      then show ?thesis by (simp add: p)
    next
      case (2 bs')
      have "bs' = used fl"
      proof (rule same_bitmap)
        show "length bs' = length (used fl)"
          using 2(3) \<open>bits_set True i (i + block_size n) (used fl) bs\<close> by (simp add: bits_set_def fl')
        fix k assume "k < 8 * length bs'"
        then show "block_used bs' k \<longleftrightarrow> block_used (used fl) k"
          using 2(3) \<open>bits_set True i (i + block_size n) (used fl) bs\<close> clear [of k]
          unfolding st by (auto simp: bits_set_def fl' p)
      qed
      with 2(2) show ?thesis by (simp add: fl')
    qed
  qed
qed

section \<open>Where a request lands\<close>

lemma find_start_here:
  "length bs = 32 \<Longrightarrow> 0 < n \<Longrightarrow> start + n \<le> 255 \<Longrightarrow> bits_clear start (start + min n 64) bs \<Longrightarrow>
   find_start bs n start = Inr start"
  using check_occupation_zero [of bs start n]
  by (subst find_start.simps) (auto simp: bit_bounds_check_def)

lemma find_start_skip:
  assumes "length bs = 32" and "0 < n" and "start + n \<le> 255"
    and "\<not> bits_clear start (start + min n 64) bs"
  shows "find_start bs n start = find_start bs n (start + n)"
  using check_occupation_zero [of bs start n] assms
  by (subst find_start.simps) (auto simp: bit_bounds_check_def)

lemma allocate_at:
  assumes wf: "free_list_wf fl" and i: "find_start (used fl) (block_size n) 0 = Inr i"
    and "0 < block_size n" "i + block_size n \<le> 255"
  shows "\<exists>bs. allocate heap fl n =
      Inr (\<lparr>node_ptr = slab fl + i * 2 ^ BLOCK_SHIFT, node_size = n, managed = True\<rparr>, fl\<lparr>used := bs\<rparr>) \<and>
    bits_set True i (i + block_size n) (used fl) bs \<and> free_list_wf (fl\<lparr>used := bs\<rparr>)"
proof -
  have L: "length (used fl) = 32" and lk: "\<not> lock fl" using wf by (simp_all add: free_list_wf_def)
  from assms have "\<not> bit_bounds_check i (block_size n)" by (simp add: bit_bounds_check_def)
  from bit_on_sets [OF L this] obtain bs where "bit_on (used fl) i (block_size n) = Inr bs"
    "bits_set True i (i + block_size n) (used fl) bs" by blast
  moreover have "unacquire (fl\<lparr>lock := True, used := bs\<rparr>) = fl\<lparr>used := bs\<rparr>"
    using lk by (cases fl) (simp add: unacquire_def)
  ultimately have "allocate heap fl n =
      Inr (\<lparr>node_ptr = slab fl + i * 2 ^ BLOCK_SHIFT, node_size = n, managed = True\<rparr>, fl\<lparr>used := bs\<rparr>)"
    using i lk assms(4) usize_max_big [OF assms(4)]
    by (simp add: allocate_def Let_def acquire_def Basic_get_free_block_index_def)
  with \<open>bits_set True i (i + block_size n) (used fl) bs\<close> lk L show ?thesis
    by (auto simp: free_list_wf_def bits_set_def)
qed

text \<open>
  A request of more than 64 blocks is placed where its first 64 blocks are free, whoever owns the
  rest.
\<close>

lemma large_request_ignores_rest:
  assumes "free_list_wf fl" and "64 < block_size n" "block_size n \<le> 255"
    and "bits_clear 0 64 (used fl)"
  shows "\<exists>bs. allocate heap fl n =
    Inr (\<lparr>node_ptr = slab fl, node_size = n, managed = True\<rparr>, fl\<lparr>used := bs\<rparr>)"
proof -
  have "find_start (used fl) (block_size n) 0 = Inr 0"
    using assms by (intro find_start_here) (simp_all add: free_list_wf_def)
  from allocate_at [OF assms(1) this, of heap] assms(2,3) show ?thesis by auto
qed

text \<open>Two allocations of 64 blocks, the first one dropped, and a request for 65 blocks.\<close>

lemma overlapping_nodes:
  fixes base :: nat
  defines "A \<equiv> \<lparr>node_ptr = base, node_size = 16777216, managed = True\<rparr>"
    and "B \<equiv> \<lparr>node_ptr = base + 16777216, node_size = 16777216, managed = True\<rparr>"
    and "C \<equiv> \<lparr>node_ptr = base, node_size = 17039360, managed = True\<rparr>"
  shows "\<exists>fl. alloc_reachable 65 base (fl, [C, B])"
proof -
  let ?f0 = "free_list_new base"
  have sizes: "block_size 16777216 = 64" "block_size 17039360 = 65"
    by (simp_all add: block_size_def BLOCK_SHIFT_def)
  have wf0: "free_list_wf ?f0" and base0: "slab ?f0 = base"
    by (simp_all add: free_list_wf_def free_list_new_def)
  have clear0: "\<not> block_used (used ?f0) k" if "k < 256" for k
    using that by (simp add: block_used_def free_list_new_def)
  have "find_start (used ?f0) 64 0 = Inr 0"
    using wf0 clear0 by (intro find_start_here) (simp_all add: free_list_wf_def bits_clear_def)
  from allocate_at [OF wf0, of "16777216" 0 0] this obtain b1 where
    a1: "allocate 0 ?f0 16777216 = Inr (A, ?f0\<lparr>used := b1\<rparr>)" and
    s1: "bits_set True 0 64 (used ?f0) b1" and w1: "free_list_wf (?f0\<lparr>used := b1\<rparr>)"
    by (auto simp: sizes A_def base0)
  have L1: "length b1 = 32" using w1 by (simp add: free_list_wf_def)
  have u1: "block_used b1 k \<longleftrightarrow> k < 64" if "k < 256" for k
    using s1 clear0 [OF that] that by (simp add: bits_set_def free_list_new_def)
  have "find_start b1 64 0 = find_start b1 64 (0 + 64)"
    using L1 u1 [of 0] by (intro find_start_skip) (auto simp: bits_clear_def intro!: exI [of _ 0])
  also have "\<dots> = Inr 64"
    using L1 u1 by (subst find_start_here) (auto simp: bits_clear_def)
  finally have i2: "find_start b1 64 0 = Inr 64" .
  from allocate_at [OF w1, of "16777216" 64 0] this obtain b2 where
    a2: "allocate 0 (?f0\<lparr>used := b1\<rparr>) 16777216 = Inr (B, ?f0\<lparr>used := b2\<rparr>)" and
    s2: "bits_set True 64 128 b1 b2" and w2: "free_list_wf (?f0\<lparr>used := b2\<rparr>)"
    by (auto simp: sizes B_def base0 BLOCK_SHIFT_def)
  have "node_wf (slab (?f0\<lparr>used := b2\<rparr>)) A"
    by (simp add: node_wf_def node_start_def A_def sizes base0)
  from drop_node_cases [OF w2 this] obtain b3 where
    d3: "drop_node (?f0\<lparr>used := b2\<rparr>) A = Inr (?f0\<lparr>used := b3\<rparr>)" and s3: "bits_set False 0 64 b2 b3"
    by (auto simp: A_def node_start_def base0 sizes)
  have w3: "free_list_wf (?f0\<lparr>used := b3\<rparr>)" and c3: "bits_clear 0 64 b3"
    using w2 s3 by (auto simp: free_list_wf_def bits_set_def bits_clear_def)
  from large_request_ignores_rest [OF w3, of "17039360" 0] c3 obtain b4 where
    a4: "allocate 0 (?f0\<lparr>used := b3\<rparr>) 17039360 = Inr (C, ?f0\<lparr>used := b4\<rparr>)"
    by (auto simp: sizes C_def base0)
  have r1: "alloc_reachable 65 base (?f0\<lparr>used := b1\<rparr>, [A])"
    by (rule reachable_step [OF reachable_new step_allocate [OF a1]]) (simp add: sizes)
  have r2: "alloc_reachable 65 base (?f0\<lparr>used := b2\<rparr>, [B, A])"
    by (rule reachable_step [OF r1 step_allocate [OF a2]]) (simp add: sizes)
  have "alloc_step 65 (?f0\<lparr>used := b2\<rparr>, [B] @ A # []) (?f0\<lparr>used := b3\<rparr>, [B] @ [])"
    by (rule step_drop [OF d3])
  with r2 have r3: "alloc_reachable 65 base (?f0\<lparr>used := b3\<rparr>, [B])"
    by (auto intro: reachable_step)
  have "alloc_reachable 65 base (?f0\<lparr>used := b4\<rparr>, [C, B])"
    by (rule reachable_step [OF r3 step_allocate [OF a4]]) (simp add: sizes)
  then show ?thesis by blast
qed

end
