(* ===== verification/Layla_Spec.thy ===== *)
theory Layla_Spec
  imports Layla "HOL-Library.Sublist"
begin

text \<open>
  What a Layla stream means: a sequence of tokens, each of which puts bytes in front of the text
  decoded so far.  The lemmas show that the readers, the copies and the main loop of the source
  compute it: \<open>layla_decompress_eq\<close> is an equation, so a stream the specification does not accept
  is exactly one on which the source leaves its buffers.  The initial contents of the output
  buffer do not occur in it.
\<close>

section \<open>The format\<close>

datatype layla_token = Literal u8 | Copy nat nat

definition take_number :: "nat \<Rightarrow> bool list \<Rightarrow> (nat \<times> bool list) option" where
  "take_number n bs = (if n \<le> length bs then Some (bits_value (take n bs), drop n bs) else None)"

function long_length :: "nat \<Rightarrow> bool list \<Rightarrow> (nat \<times> bool list) option" where
  "long_length len bs =
     Option.bind (take_number 8 bs) (\<lambda>(v, bs').
       if v \<noteq> 255 then Some (len + v, bs') else long_length (len + v) bs')"
  by pat_completeness auto
termination
  by (relation "measure (\<lambda>(len, bs). length bs)") (auto simp: take_number_def split: if_splits)

declare long_length.simps [simp del]

definition token_length :: "bool list \<Rightarrow> (nat \<times> bool list) option" where
  "token_length bs =
     Option.bind (take_number 2 bs) (\<lambda>(v, bs). if v \<noteq> 3 then Some (3 + v, bs) else
     Option.bind (take_number 3 bs) (\<lambda>(v, bs). if v \<noteq> 7 then Some (6 + v, bs) else
     Option.bind (take_number 5 bs) (\<lambda>(v, bs). if v \<noteq> 31 then Some (13 + v, bs) else
     long_length 44 bs)))"

definition parse_token :: "bool list \<Rightarrow> (layla_token \<times> bool list) option" where
  "parse_token bs =
     Option.bind (take_number 1 bs) (\<lambda>(flag, bs).
     if flag = 1
     then Option.bind (take_number 13 bs) (\<lambda>(d, bs).
          Option.bind (token_length bs) (\<lambda>(len, bs). Some (Copy (d + 3) len, bs)))
     else Option.bind (take_number 8 bs) (\<lambda>(b, bs). Some (Literal (of_nat b), bs)))"

fun copy_back :: "nat \<Rightarrow> nat \<Rightarrow> bytes \<Rightarrow> bytes option" where
  "copy_back d 0 acc = Some acc"
| "copy_back d (Suc n) acc = (if d < length acc then copy_back d n (acc ! d # acc) else None)"

fun expand_token :: "layla_token \<Rightarrow> bytes \<Rightarrow> bytes option" where
  "expand_token (Literal b) acc = Some (b # acc)"
| "expand_token (Copy d len) acc = copy_back (d - 1) len acc"

text \<open>
  The last token may reach up to 255 bytes further than the text: there it overwrites the copy of
  the stored bytes.
\<close>

lemma take_number_suffix: "take_number n bs = Some (v, bs') \<Longrightarrow> suffix bs' bs \<and> length bs' + n = length bs"
  by (auto simp: take_number_def suffix_drop split: if_splits)

lemma long_length_suffix: "long_length len bs = Some (v, bs') \<Longrightarrow> suffix bs' bs"
proof (induction len bs rule: long_length.induct)
  case (1 len bs)
  from "1.prems" obtain w rest where tn: "take_number 8 bs = Some (w, rest)" and
    cont: "(if w \<noteq> 255 then Some (len + w, rest) else long_length (len + w) rest) = Some (v, bs')"
    by (subst (asm) long_length.simps) (auto simp: Option.bind_eq_Some_conv)
  from tn have "suffix rest bs" by (simp add: take_number_suffix)
  moreover have "suffix bs' rest"
    using cont "1.IH" [OF tn refl] by (cases "w = 255") auto
  ultimately show ?case by (rule suffix_order.trans [rotated])
qed

lemma token_length_suffix: "token_length bs = Some (v, bs') \<Longrightarrow> suffix bs' bs"
  unfolding token_length_def
  by (auto simp: Option.bind_eq_Some_conv split: if_splits
      dest!: take_number_suffix long_length_suffix intro: suffix_order.trans)

lemma parse_token_suffix: "parse_token bs = Some (t, bs') \<Longrightarrow> suffix bs' bs \<and> length bs' < length bs"
  unfolding parse_token_def
  by (auto simp: Option.bind_eq_Some_conv split: if_splits
      dest!: take_number_suffix token_length_suffix dest: suffix_length_le intro: suffix_order.trans)

function expand_stream :: "nat \<Rightarrow> bool list \<Rightarrow> bytes \<Rightarrow> bytes option" where
  "expand_stream goal bs acc =
     (if goal \<le> length acc then Some acc
      else Option.bind (parse_token bs) (\<lambda>(t, bs').
           Option.bind (expand_token t acc) (\<lambda>acc'.
             if length acc' < goal + UNCOMPRESSED_DATA_SIZE then expand_stream goal bs' acc' else None)))"
  by pat_completeness auto
termination
  by (relation "measure (\<lambda>(goal, bs, acc). length bs)") (auto dest: parse_token_suffix)

declare expand_stream.simps [simp del]

section \<open>Reading\<close>

lemma suffix_unread: "suffix bs (unread input r) \<Longrightarrow> bs = unread input (length bs) \<and> length bs \<le> r"
proof -
  assume "suffix bs (unread input r)"
  then obtain xs where xs: "unread input r = xs @ bs" by (auto simp: suffix_def)
  from arg_cong [OF xs, of length] have len: "r = length xs + length bs" by simp
  have "bs = drop (length xs) (unread input r)" using xs by simp
  also have "\<dots> = unread input (length bs)" using len by (simp add: drop_unread)
  finally show ?thesis using len by simp
qed

lemma take_number_unread:
  "take_number n (unread input r) =
    (if n \<le> r then Some (bits_value (bits_between input (r - n) r), unread input (r - n)) else None)"
  by (simp add: take_number_def take_unread drop_unread)

text \<open>A parser of bits, seen as a reader at a cursor.\<close>

definition at_cursor :: "('a \<Rightarrow> 'b) \<Rightarrow> ('a \<times> bool list) option \<Rightarrow> ('b \<times> layla_cursor) memory_result" where
  "at_cursor conv m = ok_or OutOfBounds (map_option (\<lambda>(v, bs). (conv v, cursor_at (length bs))) m)"

lemma at_cursor_simps [simp]:
  "at_cursor conv None = Inl OutOfBounds"
  "at_cursor conv (Some (v, bs)) = Inr (conv v, cursor_at (length bs))"
  by (simp_all add: at_cursor_def)

lemma bits_word_of_nat: "of_nat (bits_value bs) = bits_word bs"
  by (simp add: bits_word_def)

text \<open>Every reader of words is \<open>take_number\<close>.\<close>

context bit_reader
begin

lemma read_number:
  assumes "r \<le> 8 * length input" and "\<And>bs. decode bs = f (bits_value bs)"
  shows "read input (cursor_at r) = at_cursor f (take_number width (unread input r))"
  using assms by (simp add: read_enough read_short take_number_unread)

end

lemma flag_is_number: "length bs = 1 \<Longrightarrow> hd bs \<longleftrightarrow> bits_value bs = 1"
  by (cases bs) auto

lemma read_1_number:
  "r \<le> 8 * length input \<Longrightarrow> read_1 input (cursor_at r) = at_cursor (\<lambda>v. v = 1) (take_number 1 (unread input r))"
  using flag_reader.read_enough [of r input] flag_reader.read_short [of r input]
  by (cases "r = 0") (auto simp: take_number_unread flag_is_number)

lemmas read_2_number = pair_reader.read_number [where f = of_nat, OF _ bits_word_def]
lemmas read_3_number = three_reader.read_number [where f = of_nat, OF _ bits_word_def]
lemmas read_5_number = five_reader.read_number [where f = of_nat, OF _ bits_word_def]
lemmas read_8_number = byte_reader.read_number [where f = of_nat, OF _ bits_word_def]
lemmas read_13_number = offset_reader.read_number [where f = of_nat, OF _ bits_word_def]

lemma take_number_lt: "take_number n bs = Some (v, bs') \<Longrightarrow> v < 2 ^ n"
  using bits_value_lt [of "take n bs"] by (auto simp: take_number_def min_def split: if_splits)

lemma number_word:
  assumes "take_number n bs = Some (v, bs')" and "n \<le> LENGTH('a)" and "m < 2 ^ LENGTH('a)"
  shows "unat (of_nat v :: 'a::len word) = v" and "of_nat v = (of_nat m :: 'a word) \<longleftrightarrow> v = m"
proof -
  from assms(2) have "(2 :: nat) ^ n \<le> 2 ^ LENGTH('a)" by (rule power_increasing) simp
  with take_number_lt [OF assms(1)] have v: "v < 2 ^ LENGTH('a)" by (rule less_le_trans)
  then show *: "unat (of_nat v :: 'a word) = v" by (rule unat_of_nat_fits)
  show "of_nat v = (of_nat m :: 'a word) \<longleftrightarrow> v = m"
    using * unat_of_nat_fits [OF assms(3)] by metis
qed

lemma read_long_length_eq:
  "r \<le> 8 * length input \<Longrightarrow>
   read_long_length input (cursor_at r) len = at_cursor id (long_length len (unread input r))"
proof (induction r arbitrary: len rule: less_induct)
  case (less r)
  show ?case
  proof (cases "take_number 8 (unread input r)")
    case None
    then show ?thesis
      using read_8_number [OF less.prems]
      by (subst read_long_length.simps, subst long_length.simps) simp
  next
    case (Some vb)
    obtain v bs where vb: "vb = (v, bs)" by (cases vb)
    note tn = Some [unfolded vb]
    from take_number_suffix [OF tn] have bs: "suffix bs (unread input r)" "length bs < r" by auto
    from suffix_unread [OF bs(1)] have un: "unread input (length bs) = bs" by simp
    have minus: "(- 1 :: u8) = of_nat 255" by simp
    have max: "(of_nat v :: u8) = - 1 \<longleftrightarrow> v = 255" and v: "unat (of_nat v :: u8) = v"
      unfolding minus using number_word [OF tn, where ?'a = 8 and m = 255] by simp_all
    show ?thesis
      using less.IH [OF bs(2), of "len + v"] less.prems bs(2) read_8_number [OF less.prems] tn max v un
      by (subst read_long_length.simps, subst long_length.simps) (auto simp: Let_def id_def)
  qed
qed

text \<open>One step of a sequence of reads.\<close>

lemma read_step:
  assumes "read input (cursor_at r) = at_cursor (of_nat :: nat \<Rightarrow> 'a::len word) (take_number n (unread input r))"
    and "\<And>v bs. take_number n (unread input r) = Some (v, bs) \<Longrightarrow> length bs \<le> r \<Longrightarrow>
      bs = unread input (length bs) \<Longrightarrow> F (of_nat v) (cursor_at (length bs)) = at_cursor conv (G v bs)"
  shows "and_then (read input (cursor_at r)) (\<lambda>(w, c). F w c) =
    at_cursor conv (Option.bind (take_number n (unread input r)) (\<lambda>(v, bs). G v bs))"
proof (cases "take_number n (unread input r)")
  case (Some vb)
  obtain v bs where vb: "vb = (v, bs)" by (cases vb)
  note tn = Some [unfolded vb]
  from take_number_suffix [OF tn] suffix_unread [of bs input r]
  have "length bs \<le> r" "bs = unread input (length bs)" by auto
  with assms tn show ?thesis by simp
qed (simp add: assms(1))

text \<open>The levels of the length: the largest value of a level asks for the next one.\<close>

lemma read_level:
  fixes read :: "bytes \<Rightarrow> layla_cursor \<Rightarrow> (u8 \<times> layla_cursor) memory_result"
  assumes read: "\<And>r. r \<le> 8 * length input \<Longrightarrow>
      read input (cursor_at r) = at_cursor of_nat (take_number n (unread input r))"
    and r: "r \<le> 8 * length input" and "n \<le> 8" and "m < 256"
    and "\<And>r'. r' \<le> 8 * length input \<Longrightarrow>
      next_level (base + m) (cursor_at r') = at_cursor id (next_spec (unread input r'))"
  shows "and_then (read input (cursor_at r)) (\<lambda>(w, c).
      let len = base + unat w in if w \<noteq> of_nat m then Inr (len, c) else next_level len c) =
    at_cursor id (Option.bind (take_number n (unread input r)) (\<lambda>(v, bs).
      if v \<noteq> m then Some (base + v, bs) else next_spec bs))"
proof (rule read_step)
  show "read input (cursor_at r) = at_cursor of_nat (take_number n (unread input r))" by (rule read [OF r])
  fix v bs
  assume tn: "take_number n (unread input r) = Some (v, bs)" and "length bs \<le> r"
    and un: "bs = unread input (length bs)"
  with r have "next_level (base + m) (cursor_at (length bs)) = at_cursor id (next_spec bs)"
    using assms(5) [of "length bs"] by simp
  then show "(let len = base + unat (of_nat v :: u8) in
      if (of_nat v :: u8) \<noteq> of_nat m then Inr (len, cursor_at (length bs))
      else next_level len (cursor_at (length bs))) =
    at_cursor id (if v \<noteq> m then Some (base + v, bs) else next_spec bs)"
    using number_word [OF tn, where ?'a = 8 and m = m] assms(3,4) by (simp add: Let_def)
qed

lemma read_length_eq:
  assumes "r \<le> 8 * length input"
  shows "read_length input (cursor_at r) = at_cursor id (token_length (unread input r))"
proof -
  note third = read_level [where read = "read_max_8 5" and n = 5 and input = input, OF read_5_number, where m = 31 and base = 13 and
      next_level = "\<lambda>len c. read_long_length input c len" and next_spec = "long_length 44", simplified,
      OF _ read_long_length_eq]
  note second = read_level [where read = "read_max_8 3" and n = 3 and input = input, OF read_3_number, where m = 7 and base = 6 and
      next_level = "\<lambda>len c. and_then (read_max_8 5 input c) (\<lambda>(w, c).
          let len = len + unat w in if w \<noteq> 31 then Inr (len, c) else read_long_length input c len)" and
      next_spec = "\<lambda>bs. Option.bind (take_number 5 bs) (\<lambda>(v, bs).
          if v \<noteq> 31 then Some (13 + v, bs) else long_length 44 bs)", simplified, OF _ third, simplified]
  note first = read_level [where read = read_2 and n = 2 and input = input, OF read_2_number, where m = 3 and base = 3 and
      next_level = "\<lambda>len c. and_then (read_max_8 3 input c) (\<lambda>(w, c).
          let len = len + unat w in if w \<noteq> 7 then Inr (len, c) else
          and_then (read_max_8 5 input c) (\<lambda>(w, c).
          let len = len + unat w in if w \<noteq> 31 then Inr (len, c) else read_long_length input c len))" and
      next_spec = "\<lambda>bs. Option.bind (take_number 3 bs) (\<lambda>(v, bs).
          if v \<noteq> 7 then Some (6 + v, bs) else Option.bind (take_number 5 bs) (\<lambda>(v, bs).
          if v \<noteq> 31 then Some (13 + v, bs) else long_length 44 bs))", simplified, OF _ second, simplified]
  from first [OF assms] show ?thesis
    unfolding read_length_def token_length_def MIN_COPY_LENGTH_def by simp
qed

section \<open>Copying\<close>

text \<open>
  The output with the text decoded so far at its end, and the pointer to the byte before it.  A
  text that fills the whole buffer leaves no byte for the pointer.
\<close>

definition with_text :: "bytes \<Rightarrow> bytes \<Rightarrow> bytes" where
  "with_text out acc = take (length out - length acc) out @ acc"

definition written :: "bytes \<Rightarrow> bytes option \<Rightarrow> (nat \<times> bytes) memory_result" where
  "written out m = (case m of None \<Rightarrow> Inl OutOfBounds
     | Some acc \<Rightarrow> if length acc < length out
                   then Inr (length out - 1 - length acc, with_text out acc) else Inl OutOfBounds)"

lemma written_simps [simp]:
  "written out None = Inl OutOfBounds"
  "length acc < length out \<Longrightarrow>
   written out (Some acc) = Inr (length out - 1 - length acc, with_text out acc)"
  "\<not> length acc < length out \<Longrightarrow> written out (Some acc) = Inl OutOfBounds"
  by (simp_all add: written_def)

lemma with_text_length [simp]: "length acc \<le> length out \<Longrightarrow> length (with_text out acc) = length out"
  by (simp add: with_text_def)

lemma with_text_twice:
  "length acc \<le> length acc' \<Longrightarrow> length acc \<le> length out \<Longrightarrow>
   with_text (with_text out acc) acc' = with_text out acc'"
  by (simp add: with_text_def)

lemma with_text_drop: "length acc \<le> length out \<Longrightarrow> drop (length out - length acc) (with_text out acc) = acc"
  by (simp add: with_text_def)

text \<open>Writing the byte the pointer is at makes it the first byte of the text.\<close>

lemma with_text_Cons:
  assumes "length acc < length out"
  shows "(with_text out acc)[length out - 1 - length acc := b] = with_text out (b # acc)"
proof -
  define p where "p = length out - Suc (length acc)"
  have p: "p < length out" "length out - length acc = Suc p" using assms by (simp_all add: p_def)
  then have "take (Suc p) out = take p out @ [out ! p]" by (simp add: take_Suc_conv_app_nth)
  with p show ?thesis by (simp add: with_text_def list_update_append flip: p_def)
qed

lemma copy_back_length: "copy_back d n acc = Some acc' \<Longrightarrow> length acc' = length acc + n"
  by (induction n arbitrary: acc) (auto split: if_splits)

lemma copy_byte_eq:
  assumes "0 < offset" and "length acc < length out"
  shows "copy_byte offset (length out - 1 - length acc) (with_text out acc) =
    (if offset - 1 < length acc then Inr (with_text out (acc ! (offset - 1) # acc)) else Inl OutOfBounds)"
proof -
  define p where "p = length out - 1 - length acc"
  have p: "p < length out" "length out - length acc = Suc p" using assms by (simp_all add: p_def)
  have iff: "p + offset < length out \<longleftrightarrow> offset - 1 < length acc" using p assms by linarith
  have "with_text out acc ! (p + offset) = acc ! (offset - 1)"
    if "offset - 1 < length acc"
    using that p assms by (simp add: with_text_def nth_append)
  with iff with_text_Cons [OF assms(2), folded p_def] assms(2) p(1) show ?thesis
    unfolding p_def [symmetric] by (auto simp: copy_byte_def fetch_def)
qed

lemma copy_loop_eq:
  assumes "0 < offset" and "length acc < length out"
  shows "copy_loop offset n (length out - 1 - length acc) (with_text out acc) =
    written out (copy_back (offset - 1) n acc)"
  using assms(2)
proof (induction n arbitrary: acc)
  case 0
  then show ?case by simp
next
  case (Suc n)
  let ?acc = "acc ! (offset - 1) # acc"
  show ?case
  proof (cases "offset - 1 < length acc")
    case True
    note byte = copy_byte_eq [OF assms(1) Suc.prems]
    show ?thesis
    proof (cases "length ?acc < length out")
      case room: True
      then have "retreat 1 (length out - 1 - length acc) = Inr (length out - 1 - length ?acc)"
        by (simp add: retreat_def)
      with Suc.IH [OF room] byte True show ?thesis by simp
    next
      case False
      with Suc.prems have "retreat 1 (length out - 1 - length acc) = Inl OutOfBounds"
        by (simp add: retreat_def)
      moreover have "written out (copy_back (offset - 1) n ?acc) = Inl OutOfBounds"
        using False by (cases "copy_back (offset - 1) n ?acc") (auto dest!: copy_back_length simp: written_def)
      ultimately show ?thesis using byte True by simp
    qed
  next
    case False
    with copy_byte_eq [OF assms(1) Suc.prems] show ?thesis by simp
  qed
qed

text \<open>The unrolled copy is the loop.\<close>

fun copy_run :: "nat \<Rightarrow> nat \<Rightarrow> nat \<Rightarrow> bytes \<Rightarrow> bytes memory_result" where
  "copy_run offset 0 p out = Inr out"
| "copy_run offset (Suc k) p out = and_then (copy_run offset k p out) (copy_below k offset p)"

lemma and_then_assoc: "and_then (and_then m f) g = and_then m (\<lambda>x. and_then (f x) g)"
  by (cases m) simp_all

lemma copy_loop_run:
  "copy_loop offset (k + n) p out =
     and_then (copy_run offset k p out) (\<lambda>out.
     and_then (retreat k p) (\<lambda>p. copy_loop offset n p out))"
proof (induction k arbitrary: n)
  case (Suc k)
  have "copy_loop offset (Suc k + n) p out = copy_loop offset (k + Suc n) p out" by simp
  also have "\<dots> = and_then (copy_run offset k p out) (\<lambda>out.
     and_then (retreat k p) (\<lambda>p. copy_loop offset (Suc n) p out))"
    by (rule Suc.IH)
  also have "\<dots> = and_then (copy_run offset (Suc k) p out) (\<lambda>out.
     and_then (retreat (Suc k) p) (\<lambda>p. copy_loop offset n p out))"
  proof -
    consider "p < k" | "p = k" | d where "p = Suc (k + d)" by (metis less_iff_Suc_add linorder_neqE_nat)
    then show ?thesis
      by cases (auto simp: copy_below_def retreat_def and_then_def split: sum.splits)
  qed
  finally show ?case .
qed simp

lemma copy_below_zero: "copy_below 0 offset p out = copy_byte offset p out"
  by (simp add: copy_below_def)

text \<open>The unrolled copy is the loop, on every input.\<close>

lemma copy_block_loop: "3 \<le> len \<Longrightarrow> copy_block offset len p out = copy_loop offset len p out"
proof -
  assume "3 \<le> len"
  show ?thesis
  proof (cases "len < 8")
    case True
    have "copy_loop offset len p out = and_then (copy_run offset 3 p out) (\<lambda>out.
        and_then (retreat 3 p) (\<lambda>p. copy_loop offset (len - 3) p out))"
      using copy_loop_run [of offset 3 "len - 3" p out] \<open>3 \<le> len\<close> by simp
    moreover have "(if len = 3 then Inr (p, out) else copy_loop offset (len - 3) p out) =
        copy_loop offset (len - 3) p out" for p out
      by simp
    ultimately show ?thesis
      using True unfolding copy_block_def EXTRA_PIPELINE_LENGTH_def DEFAULT_PIPELINE_LENGTH_def
      by (simp add: eval_nat_numeral copy_below_zero and_then_assoc del: copy_loop.simps)
  next
    case False
    then have "copy_loop offset len p out = and_then (copy_run offset 8 p out) (\<lambda>out.
        and_then (retreat 8 p) (\<lambda>p. copy_loop offset (len - 8) p out))"
      using copy_loop_run [of offset 8 "len - 8" p out] by simp
    with False show ?thesis
      by (simp add: copy_block_def EXTRA_PIPELINE_LENGTH_def eval_nat_numeral copy_below_zero and_then_assoc
          del: copy_loop.simps)
  qed
qed

section \<open>The loop\<close>

lemma token_length_ge: "token_length bs = Some (len, bs') \<Longrightarrow> 3 \<le> len"
proof -
  have long: "long_length k bs = Some (len, bs') \<Longrightarrow> k \<le> len" for k bs
  proof (induction k bs rule: long_length.induct)
    case (1 k bs)
    from "1.prems" show ?case
      by (subst (asm) long_length.simps)
        (auto simp: Option.bind_eq_Some_conv split: if_splits dest!: "1.IH")
  qed
  assume "token_length bs = Some (len, bs')"
  then show ?thesis
    unfolding token_length_def by (auto simp: Option.bind_eq_Some_conv split: if_splits dest!: long)
qed

text \<open>
  A step of the source: the token at the cursor, put in front of the text.
\<close>

definition step_result ::
  "bytes \<Rightarrow> (layla_token \<times> bool list) option \<Rightarrow> bytes \<Rightarrow> (nat \<times> layla_cursor \<times> bytes) memory_result" where
  "step_result out m acc =
     and_then (ok_or OutOfBounds m) (\<lambda>(t, bs).
     and_then (written out (expand_token t acc)) (\<lambda>(p, out). Inr (p, cursor_at (length bs), out)))"

lemma take_number_cases:
  assumes "r \<le> 8 * length input" and "take_number n (unread input r) = Some (v, bs)"
  shows "bs = unread input (length bs)" and "length bs \<le> 8 * length input"
  using take_number_suffix [OF assms(2)] suffix_unread [of bs input r] assms(1) by auto

lemma literal_step:
  assumes r: "r \<le> 8 * length input" and room: "length acc < length out"
  defines "p \<equiv> length out - 1 - length acc"
  shows "and_then (read_8 input (cursor_at r)) (\<lambda>(b, c).
      and_then (update_byte p (\<lambda>_. b) (with_text out acc)) (\<lambda>out.
      and_then (retreat 1 p) (\<lambda>p. Inr (p, c, out)))) =
    step_result out (Option.bind (take_number 8 (unread input r)) (\<lambda>(b, bs). Some (Literal (of_nat b), bs))) acc"
proof (cases "take_number 8 (unread input r)")
  case None
  then show ?thesis using read_8_number [OF r] by (simp add: step_result_def)
next
  case (Some vb)
  obtain v bs where vb: "vb = (v, bs)" by (cases vb)
  have p: "p < length out" using room by (simp add: p_def)
  have "update_byte p (\<lambda>_. of_nat v) (with_text out acc) = Inr (with_text out (of_nat v # acc))"
    using with_text_Cons [OF room] p room by (simp add: p_def)
  then show ?thesis
    using read_8_number [OF r] Some vb room
    by (cases "Suc (length acc) < length out") (simp_all add: step_result_def p_def retreat_def)
qed

lemma copy_step:
  assumes r: "r \<le> 8 * length input" and room: "length acc < length out"
  defines "p \<equiv> length out - 1 - length acc"
  shows "and_then (read_13 input (cursor_at r)) (\<lambda>(o13, c).
      let offset = unat o13 + MIN_COPY_LENGTH in
      and_then (read_length input c) (\<lambda>(len, c).
      and_then (copy_block offset len p (with_text out acc)) (\<lambda>(p, out). Inr (p, c, out)))) =
    step_result out (Option.bind (take_number 13 (unread input r)) (\<lambda>(d, bs).
      Option.bind (token_length bs) (\<lambda>(len, bs). Some (Copy (d + 3) len, bs)))) acc"
proof (cases "take_number 13 (unread input r)")
  case None
  then show ?thesis using read_13_number [OF r] by (simp add: step_result_def)
next
  case (Some vb)
  obtain d b1 where vb: "vb = (d, b1)" by (cases vb)
  note tn = Some [unfolded vb]
  note b1 = take_number_cases [OF r tn]
  from number_word(1) [OF tn, where ?'a = 32 and m = 0] have d: "unat (of_nat d :: u32) = d" by simp
  show ?thesis
  proof (cases "token_length b1")
    case None
    with read_length_eq [OF b1(2)] b1(1) have "read_length input (cursor_at (length b1)) = Inl OutOfBounds"
      by simp
    with None show ?thesis using read_13_number [OF r] tn by (simp add: step_result_def Let_def)
  next
    case (Some lb)
    obtain len b2 where lb: "lb = (len, b2)" by (cases lb)
    note tl = Some [unfolded lb]
    from read_length_eq [OF b1(2)] b1(1) tl
    have rl: "read_length input (cursor_at (length b1)) = Inr (len, cursor_at (length b2))" by simp
    have "copy_block (d + 3) len p (with_text out acc) = written out (copy_back (d + 3 - 1) len acc)"
      unfolding copy_block_loop [OF token_length_ge [OF tl]] p_def
      by (rule copy_loop_eq) (use room in simp_all)
    with rl tl show ?thesis using read_13_number [OF r] tn d
      by (simp add: step_result_def Let_def MIN_COPY_LENGTH_def)
  qed
qed

lemma layla_step_eq:
  assumes r: "r \<le> 8 * length input" and room: "length acc < length out"
  shows "layla_step input (length out - 1 - length acc) (cursor_at r) (with_text out acc) =
    step_result out (parse_token (unread input r)) acc"
proof (cases "take_number 1 (unread input r)")
  case None
  then show ?thesis using read_1_number [OF r] by (simp add: layla_step_def step_result_def parse_token_def)
next
  case (Some fb)
  obtain f b1 where fb: "fb = (f, b1)" by (cases fb)
  note flag = Some [unfolded fb]
  note b1 = take_number_cases [OF r flag]
  show ?thesis
    using read_1_number [OF r] flag literal_step [OF b1(2) room] copy_step [OF b1(2) room]
    unfolding layla_step_def parse_token_def flag b1(1) [symmetric] by simp
qed

text \<open>The whole loop.\<close>

lemma layla_loop_eq:
  assumes "r \<le> 8 * length input" and "length out = goal + UNCOMPRESSED_DATA_SIZE"
    and "length acc < length out"
  shows "layla_loop input (length out - 1 - length acc) (cursor_at r) (with_text out acc) =
    and_then (ok_or OutOfBounds (expand_stream goal (unread input r) acc)) (\<lambda>text. Inr (with_text out text))"
  using assms(1,3)
proof (induction r arbitrary: acc rule: less_induct)
  case (less r)
  define p where "p = length out - 1 - length acc"
  have more: "UNCOMPRESSED_DATA_SIZE \<le> p \<longleftrightarrow> \<not> goal \<le> length acc"
    using assms(2) less.prems(2) by (auto simp: p_def UNCOMPRESSED_DATA_SIZE_def)
  have "layla_loop input p (cursor_at r) (with_text out acc) =
    and_then (ok_or OutOfBounds (expand_stream goal (unread input r) acc)) (\<lambda>text. Inr (with_text out text))"
  proof (cases "goal \<le> length acc")
    case True
    with more show ?thesis
      by (subst layla_loop.simps, subst expand_stream.simps) (simp)
  next
    case False
    note unfold = layla_loop.simps [of input p] expand_stream.simps [of goal _ acc]
    note step = layla_step_eq [OF less.prems, folded p_def]
    show ?thesis
    proof (cases "parse_token (unread input r)")
      case None
      with step False show ?thesis by (simp add: unfold more step_result_def)
    next
      case (Some tb)
      obtain t bs where tb: "tb = (t, bs)" by (cases tb)
      note parsed = Some [unfolded tb]
      from parse_token_suffix [OF parsed] suffix_unread [of bs input r]
      have bs: "unread input (length bs) = bs" "length bs < r" by auto
      show ?thesis
      proof (cases "expand_token t acc")
        case None
        with parsed step False show ?thesis by (simp add: unfold more step_result_def)
      next
        case (Some acc')
        show ?thesis
        proof (cases "length acc' < length out")
          case True
          with less.IH [OF bs(2) _ True] less.prems(1) bs parsed Some step False show ?thesis
            by (simp add: unfold more step_result_def assms(2))
        next
          case False
          with parsed Some step \<open>\<not> goal \<le> length acc\<close> show ?thesis
            by (simp add: unfold more step_result_def assms(2))
        qed
      qed
    qed
  qed
  then show ?case by (simp only: p_def)
qed

text \<open>What a turn of the loop uses up: at least nine bits, and at least one byte of the output.\<close>

lemma parse_token_bits_used: "parse_token bs = Some (t, bs') \<Longrightarrow> length bs' + 9 \<le> length bs"
  unfolding parse_token_def
  by (auto simp: Option.bind_eq_Some_conv split: if_splits
      dest!: take_number_suffix token_length_suffix dest: suffix_length_le)

lemma layla_step_uses:
  assumes r: "r \<le> 8 * length input" and p: "p < length out"
    and step: "layla_step input p (cursor_at r) out = Inr (p', c', out')"
  shows "\<exists>r'. c' = cursor_at r' \<and> r' + 9 \<le> r \<and> p' < p \<and> length out' = length out"
proof -
  define acc where "acc = drop (Suc p) out"
  have acc: "length acc < length out" "length out - 1 - length acc = p" using p by (simp_all add: acc_def)
  have "with_text out acc = out" using p by (simp add: with_text_def acc_def)
  with layla_step_eq [OF r acc(1)] acc(2) step
  have *: "step_result out (parse_token (unread input r)) acc = Inr (p', c', out')" by simp
  then obtain t bs where t: "parse_token (unread input r) = Some (t, bs)"
    and w: "written out (expand_token t acc) = Inr (p', out')" and c': "c' = cursor_at (length bs)"
    by (cases "parse_token (unread input r)") (auto simp: step_result_def result_iff)
  from w have "length out' = length out"
    by (auto simp: written_def split: option.splits if_splits)
  with parse_token_bits_used [OF t] c' layla_step_retreats [OF step] show ?thesis by auto
qed

section \<open>Decompression\<close>

text \<open>
  The result of \<open>decompress\<close>: what is stored as it is, followed by the text; bytes of the text
  that reach further replace stored ones.
\<close>

definition layla_text :: "layla_header \<Rightarrow> bytes \<Rightarrow> bytes option" where
  "layla_text h input =
     (let off = unat (lh_uncompressed_header_offset h) in
      if off + UNCOMPRESSED_DATA_SIZE \<le> length input
      then map_option
        (with_text (slice off UNCOMPRESSED_DATA_SIZE input @ replicate (unat (lh_uncompressed_size h)) 0))
        (expand_stream (unat (lh_uncompressed_size h)) (unread input (8 * off)) [])
      else None)"

lemma expand_stream_length:
  "expand_stream goal bs acc = Some text \<Longrightarrow> length acc < goal + UNCOMPRESSED_DATA_SIZE \<Longrightarrow>
   goal \<le> length text \<and> length text < goal + UNCOMPRESSED_DATA_SIZE"
proof (induction goal bs acc rule: expand_stream.induct)
  case (1 goal bs acc)
  from "1.prems" show ?case
    by (subst (asm) expand_stream.simps)
      (auto simp: Option.bind_eq_Some_conv split: if_splits dest: "1.IH")
qed

lemma layla_decompress_eq:
  assumes "length out = unat (lh_uncompressed_size h) + UNCOMPRESSED_DATA_SIZE"
  shows "layla_decompress h input out = ok_or OutOfBounds (layla_text h input)"
proof -
  let ?off = "unat (lh_uncompressed_header_offset h)" and ?size = "unat (lh_uncompressed_size h)"
  show ?thesis
  proof (cases "?off + UNCOMPRESSED_DATA_SIZE \<le> length input")
    case False
    then show ?thesis by (simp add: layla_decompress_def layla_text_def load_def Let_def)
  next
    case True
    let ?raw = "slice ?off UNCOMPRESSED_DATA_SIZE input"
    let ?out = "?raw @ drop UNCOMPRESSED_DATA_SIZE out"
    have raw: "length ?raw = UNCOMPRESSED_DATA_SIZE" using True by simp
    have out: "length ?out = ?size + UNCOMPRESSED_DATA_SIZE" using raw assms by simp
    have start: "\<lparr>cdata = ?off, bits_left = 0\<rparr> = cursor_at (8 * ?off)" by (simp add: cursor_at_def)
    have stored: "store 0 ?raw out = Inr ?out" using raw assms by (simp add: store_def)
    have "layla_loop input (length ?out - 1 - length ([] :: bytes)) (cursor_at (8 * ?off)) (with_text ?out []) =
        and_then (ok_or OutOfBounds (expand_stream ?size (unread input (8 * ?off)) []))
          (\<lambda>text. Inr (with_text ?out text))"
      by (rule layla_loop_eq [OF _ out]) (use True out in \<open>auto simp: UNCOMPRESSED_DATA_SIZE_def\<close>)
    moreover have "length ?out - 1 - length ([] :: bytes) = UNCOMPRESSED_DATA_SIZE + ?size - 1"
      using out by simp
    moreover have "with_text ?out [] = ?out" by (simp add: with_text_def)
    moreover have "layla_decompress h input out =
        layla_loop input (UNCOMPRESSED_DATA_SIZE + ?size - 1) (cursor_at (8 * ?off)) ?out"
      using True stored start by (simp add: layla_decompress_def Let_def)
    ultimately have run: "layla_decompress h input out =
        and_then (ok_or OutOfBounds (expand_stream ?size (unread input (8 * ?off)) []))
          (\<lambda>text. Inr (with_text ?out text))"
      by (simp only: simp_thms)
    show ?thesis
    proof (cases "expand_stream ?size (unread input (8 * ?off)) []")
      case None
      with run True show ?thesis by (simp add: layla_text_def Let_def)
    next
      case (Some decoded)
      then have "?size \<le> length decoded" by (auto dest!: expand_stream_length simp: UNCOMPRESSED_DATA_SIZE_def)
      then have "with_text ?out decoded = with_text (?raw @ replicate ?size 0) decoded"
        using raw out by (simp add: with_text_def)
      with run True Some show ?thesis by (simp add: layla_text_def Let_def)
    qed
  qed
qed

lemma layla_text_length:
  "layla_text h input = Some out \<Longrightarrow>
   length out = unat (lh_uncompressed_size h) + UNCOMPRESSED_DATA_SIZE"
  by (auto simp: layla_text_def Let_def UNCOMPRESSED_DATA_SIZE_def dest!: expand_stream_length
      split: if_splits)

text \<open>
  Whole files: the format of a compressed file, and the decompressor of the source, with its node of
  the slab.  The slab is as it was afterwards, and what the node's memory held does not matter.
\<close>

definition layla_unpack :: "bytes \<Rightarrow> bytes option" where
  "layla_unpack input =
     (case from_stream input of Inl e \<Rightarrow> None | Inr h \<Rightarrow> layla_text h (drop LAYLA_HEADER_SIZE input))"

lemma from_stream_cases: "from_stream input = Inl OutOfBounds \<or> (\<exists>h. from_stream input = Inr h)"
  by (auto simp: from_stream_def load_def)

lemma LaylaDecompressor_decompress_eq:
  assumes wf: "free_list_wf fl" and clear: "used fl = replicate 32 0"
  shows "LaylaDecompressor_decompress heap memory input fl =
    and_then (ok_or OutOfBounds (layla_unpack input)) (\<lambda>out. Inr (out, fl))"
proof (cases "from_stream input")
  case (Inl e)
  with from_stream_cases [of input] have "e = OutOfBounds" by auto
  with Inl show ?thesis by (simp add: LaylaDecompressor_decompress_def layla_unpack_def)
next
  case (Inr h)
  let ?n = "unat (lh_uncompressed_size h) + UNCOMPRESSED_DATA_SIZE"
  obtain node fl' where all: "allocate heap fl ?n = Inr (node, fl')"
    by (cases rule: allocate_cases [OF wf, of heap ?n]) auto
  note node = allocate_drop [OF wf all disjI2 [OF clear]]
  have "layla_decompress h (drop LAYLA_HEADER_SIZE input) (map memory [node_ptr node..<node_ptr node + node_size node]) =
      ok_or OutOfBounds (layla_text h (drop LAYLA_HEADER_SIZE input))"
    by (rule layla_decompress_eq) (simp add: node(1))
  with Inr all node(2) show ?thesis
    by (cases "layla_text h (drop LAYLA_HEADER_SIZE input)")
      (simp_all add: LaylaDecompressor_decompress_def layla_unpack_def)
qed

end
