(* ===== verification/Layla_Round_Trip.thy ===== *)
theory Layla_Round_Trip
  imports Layla_Spec
begin

text \<open>
  Every sequence of tokens has a compressed file: \<open>layla_file\<close> writes one (the crate has no
  compressor; this one is the inverse of the format).  \<open>layla_file_unpacks\<close> shows that the
  decompressor of the source expands it, through the slab allocator and whatever memory the
  allocated node holds.
\<close>

section \<open>Tokens as bits\<close>

definition bits_of :: "nat \<Rightarrow> nat \<Rightarrow> bool list" where
  "bits_of n v = map (bit v) (rev [0..<n])"

fun long_bits :: "nat \<Rightarrow> bool list" where
  "long_bits m = (if m < 255 then bits_of 8 m else bits_of 8 255 @ long_bits (m - 255))"

declare long_bits.simps [simp del]

definition length_bits :: "nat \<Rightarrow> bool list" where
  "length_bits len =
     (if len < 6 then bits_of 2 (len - 3)
      else if len < 13 then bits_of 2 3 @ bits_of 3 (len - 6)
      else if len < 44 then bits_of 2 3 @ bits_of 3 7 @ bits_of 5 (len - 13)
      else bits_of 2 3 @ bits_of 3 7 @ bits_of 5 31 @ long_bits (len - 44))"

fun token_bits :: "layla_token \<Rightarrow> bool list" where
  "token_bits (Literal b) = bits_of 1 0 @ bits_of 8 (unat b)"
| "token_bits (Copy d len) = bits_of 1 1 @ bits_of 13 (d - 3) @ length_bits len"

fun token_ok :: "layla_token \<Rightarrow> bool" where
  "token_ok (Literal b) \<longleftrightarrow> True"
| "token_ok (Copy d len) \<longleftrightarrow> 3 \<le> d \<and> d < 3 + 2 ^ 13 \<and> 3 \<le> len"

lemma length_bits_of [simp]: "length (bits_of n v) = n"
  by (simp add: bits_of_def)

lemma bits_value_of: "v < 2 ^ n \<Longrightarrow> bits_value (bits_of n v) = v"
  by (simp add: bits_value_def bits_of_def rev_map horner_sum_bit_eq_take_bit take_bit_nat_eq_self
      flip: rev_map)

lemma take_bits_of: "v < 2 ^ n \<Longrightarrow> take_number n (bits_of n v @ rest) = Some (v, rest)"
  by (simp add: take_number_def bits_value_of)

lemma long_length_bits: "long_length k (long_bits m @ rest) = Some (k + m, rest)"
proof (induction m arbitrary: k rule: less_induct)
  case (less m)
  show ?case
  proof (cases "m < 255")
    case True
    then show ?thesis
      by (subst long_bits.simps, subst long_length.simps) (simp add: take_bits_of)
  next
    case False
    with less.IH [of "m - 255" "k + 255"] show ?thesis
      by (subst long_bits.simps, subst long_length.simps) (simp add: take_bits_of)
  qed
qed

lemma token_length_bits: "3 \<le> len \<Longrightarrow> token_length (length_bits len @ rest) = Some (len, rest)"
proof -
  assume "3 \<le> len"
  then consider "len < 6" "len - 3 < 3" | "6 \<le> len" "len < 13" "len - 6 < 7"
    | "13 \<le> len" "len < 44" "len - 13 < 31" | "44 \<le> len" by linarith
  then show ?thesis
    using \<open>3 \<le> len\<close>
    by cases (simp_all add: token_length_def length_bits_def take_bits_of long_length_bits)
qed

lemma parse_token_bits: "token_ok t \<Longrightarrow> parse_token (token_bits t @ rest) = Some (t, rest)"
proof (cases t)
  case (Literal b)
  have "unat b < 2 ^ 8" using unat_lt2p [of b] by simp
  with Literal show ?thesis by (simp add: parse_token_def take_bits_of)
next
  case (Copy d len)
  assume "token_ok t"
  with Copy have "d - 3 < 2 ^ 13" "3 \<le> d" "3 \<le> len" by auto
  with Copy show ?thesis
    by (simp add: parse_token_def take_bits_of token_length_bits)
qed

section \<open>Bits as bytes\<close>

text \<open>The stream is read from its last byte to its first, each from its highest bit.\<close>

fun pack :: "bool list \<Rightarrow> bytes" where
  "pack bs = (if bs = [] then [] else pack (drop 8 bs) @ [bits_word (take 8 (bs @ replicate 7 False))])"

declare pack.simps [simp del]

lemma bits_word_bits:
  "length bs = 8 \<Longrightarrow> bit_run (bits_word bs) 0 8 = bs"
proof -
  assume len: "length bs = 8"
  have "bit (bits_word bs :: u8) i \<longleftrightarrow> rev bs ! i" if "i < 8" for i
    using that len
    by (simp add: bits_word_def bits_value_def bit_of_nat_iff bit_horner_sum_bit_iff)
  then show ?thesis using len by (intro nth_equalityI) (simp_all add: bit_run_def rev_nth)
qed

lemma unread_byte:
  assumes "p < length input"
  shows "unread input (8 * Suc p) = bit_run (input ! p) 0 8 @ unread input (8 * p)"
  using unread_split [of 8 "8 * Suc p" input] bit_run_between [of 0 8 input p] by (simp add: add_ac)

lemma unread_pack: "\<exists>k. unread (pack bs @ rest) (8 * length (pack bs)) = bs @ replicate k False"
proof (induction bs arbitrary: rest rule: pack.induct)
  case (1 bs)
  show ?case
  proof (cases "bs = []")
    case True
    then show ?thesis by (simp add: pack.simps unread_def bits_between_def)
  next
    case False
    define chunk where "chunk = take 8 (bs @ replicate 7 False)"
    let ?xs = "pack (drop 8 bs)"
    from False have len: "length chunk = 8" by (cases bs) (auto simp: chunk_def)
    have pack: "pack bs = ?xs @ [bits_word chunk]"
      using False by (subst pack.simps) (simp add: chunk_def)
    from "1.IH" [OF False, of "bits_word chunk # rest"] obtain k where
      k: "unread (?xs @ bits_word chunk # rest) (8 * length ?xs) = drop 8 bs @ replicate k False" by blast
    have "unread (pack bs @ rest) (8 * length (pack bs)) =
        unread (?xs @ bits_word chunk # rest) (8 * Suc (length ?xs))"
      by (simp add: pack)
    also have "\<dots> = chunk @ drop 8 bs @ replicate k False"
      by (subst unread_byte) (simp_all add: k nth_append bits_word_bits [OF len])
    finally have *: "unread (pack bs @ rest) (8 * length (pack bs)) = chunk @ drop 8 bs @ replicate k False" .
    show ?thesis
    proof (cases "8 \<le> length bs")
      case True
      then have "chunk @ drop 8 bs = bs" by (simp add: chunk_def)
      with * show ?thesis by (metis append.assoc)
    next
      case False
      moreover have "0 < length bs" using \<open>bs \<noteq> []\<close> by simp
      then have "min (8 - length bs) 7 = 8 - length bs" by linarith
      ultimately have "chunk @ drop 8 bs @ replicate k False = bs @ replicate (8 - length bs + k) False"
        unfolding replicate_add by (simp add: chunk_def)
      with * show ?thesis by metis
    qed
  qed
qed

lemma length_pack_le: "length (pack bs) \<le> length bs"
proof (induction bs rule: pack.induct)
  case (1 bs)
  show ?case
  proof (cases "bs = []")
    case False
    with "1.IH" have "length (pack (drop 8 bs)) + 1 \<le> length bs" by (cases bs) auto
    with False show ?thesis by (subst pack.simps) simp
  qed (simp add: pack.simps)
qed

section \<open>Files\<close>

fun expand_tokens :: "layla_token list \<Rightarrow> bytes \<Rightarrow> bytes option" where
  "expand_tokens [] acc = Some acc"
| "expand_tokens (t # ts) acc = Option.bind (expand_token t acc) (expand_tokens ts)"

definition layla_file :: "layla_token list \<Rightarrow> nat \<Rightarrow> bytes \<Rightarrow> bytes" where
  "layla_file ts goal raw =
     (let stream = pack (concat (map token_bits ts)) in
      to_le_bytes 8 LAYLA_HEADER_MAGIC @ to_le_bytes 4 (of_nat goal :: u32) @
      to_le_bytes 4 (of_nat (length stream) :: u32) @ stream @ raw)"

text \<open>Every token adds a byte, so the tokens before the last leave the text short of its length.\<close>

lemma expand_token_length: "token_ok t \<Longrightarrow> expand_token t acc = Some acc' \<Longrightarrow> length acc < length acc'"
  by (cases t) (auto dest: copy_back_length)

lemma expand_tokens_length:
  "list_all token_ok ts \<Longrightarrow> expand_tokens ts acc = Some res \<Longrightarrow> length acc + length ts \<le> length res"
proof (induction ts arbitrary: acc)
  case (Cons t ts)
  then obtain acc' where "expand_token t acc = Some acc'" "expand_tokens ts acc' = Some res"
    by (auto simp: Option.bind_eq_Some_conv)
  with Cons expand_token_length [of t acc acc'] show ?case by fastforce
qed simp

lemma expand_stream_tokens:
  assumes "list_all token_ok ts" and "expand_tokens ts acc = Some res"
    and "length res = goal"
  shows "expand_stream goal (concat (map token_bits ts) @ rest) acc = Some res"
  using assms(1,2)
proof (induction ts arbitrary: acc)
  case Nil
  then show ?case using assms(3) by (subst expand_stream.simps) simp
next
  case (Cons t ts)
  then obtain acc' where t: "expand_token t acc = Some acc'" and ts: "expand_tokens ts acc' = Some res"
    by (auto simp: Option.bind_eq_Some_conv)
  from expand_token_length [OF _ t] expand_tokens_length [OF _ ts] Cons.prems(1) assms(3)
  have len: "length acc < goal" "length acc' < goal + UNCOMPRESSED_DATA_SIZE"
    by (auto simp: UNCOMPRESSED_DATA_SIZE_def)
  from Cons.prems(1) parse_token_bits [of t "concat (map token_bits ts) @ rest"] Cons.IH [OF _ ts] t len
  show ?case by (subst expand_stream.simps) simp
qed

lemma layla_file_text:
  assumes "list_all token_ok ts" and "expand_tokens ts [] = Some res" and "length res = goal"
    and "length raw = UNCOMPRESSED_DATA_SIZE" and "goal < 2 ^ 32"
    and fits: "length (pack (concat (map token_bits ts))) < 2 ^ 32"
  defines "f \<equiv> layla_file ts goal raw"
  shows "is_compressed f"
    and "\<exists>h. from_stream f = Inr h \<and> unat (lh_uncompressed_size h) = goal \<and>
      layla_text h (drop LAYLA_HEADER_SIZE f) = Some (raw @ res)"
proof -
  let ?bits = "concat (map token_bits ts)"
  let ?s = "pack ?bits"
  let ?h = "\<lparr>lh_magic = LAYLA_HEADER_MAGIC, lh_uncompressed_size = of_nat goal,
    lh_uncompressed_header_offset = of_nat (length ?s)\<rparr>"
  have f: "f = to_le_bytes 8 LAYLA_HEADER_MAGIC @ to_le_bytes 4 (of_nat goal :: u32) @
      to_le_bytes 4 (of_nat (length ?s) :: u32) @ ?s @ raw"
    by (simp add: f_def layla_file_def Let_def)
  show "is_compressed f"
    by (simp add: is_compressed_def f LAYLA_HEADER_SIZE_def slice_prefix from_to_le_bytes_id)
  have "from_stream f = Inr ?h"
    by (simp add: from_stream_def f load_def slice_def from_to_le_bytes_id)
  moreover have "unat (lh_uncompressed_size ?h) = goal" using assms(5) by (simp add: unat_of_nat_fits)
  moreover have "layla_text ?h (drop LAYLA_HEADER_SIZE f) = Some (raw @ res)"
  proof -
    have body: "drop LAYLA_HEADER_SIZE f = ?s @ raw" by (simp add: f LAYLA_HEADER_SIZE_def)
    have off: "unat (of_nat (length ?s) :: u32) = length ?s" using fits by (simp add: unat_of_nat_fits)
    have size: "unat (of_nat goal :: u32) = goal" using assms(5) by (simp add: unat_of_nat_fits)
    from unread_pack [of ?bits raw] obtain k where
      "unread (?s @ raw) (8 * length ?s) = ?bits @ replicate k False" by blast
    then have "expand_stream goal (unread (?s @ raw) (8 * length ?s)) [] = Some res"
      using expand_stream_tokens [OF assms(1-3)] by simp
    moreover have "with_text (raw @ replicate goal 0) res = raw @ res"
      using assms(3) by (simp add: with_text_def)
    ultimately show ?thesis
      using assms(4) by (simp add: layla_text_def body off size Let_def slice_def)
  qed
  ultimately show "\<exists>h. from_stream f = Inr h \<and> unat (lh_uncompressed_size h) = goal \<and>
      layla_text h (drop LAYLA_HEADER_SIZE f) = Some (raw @ res)" by blast
qed

lemma layla_file_unpacks:
  assumes "list_all token_ok ts" and "expand_tokens ts [] = Some res" and "length res = goal"
    and "length raw = UNCOMPRESSED_DATA_SIZE" and "goal < 2 ^ 32"
    and "length (pack (concat (map token_bits ts))) < 2 ^ 32"
  shows "is_compressed (layla_file ts goal raw)" and "layla_unpack (layla_file ts goal raw) = Some (raw @ res)"
  using layla_file_text [OF assms] by (auto simp: layla_unpack_def)

end
