(* ===== verification/Errors.thy ===== *)
theory Errors
  imports Rust_Prelude
begin

text \<open>
  The error values of the program.  Every fallible function of the source returns
  \<open>Result<_, Box<dyn Error>>\<close>; the boxed error is one of the concrete types below.
  \<open>CpkTableError\<close> carries a formatted message in the source: here one constructor per message.
  \<open>Panic\<close> is a Rust panic (slice index out of range), which is not a value of the source but is
  an outcome the model must be able to show.
\<close>

datatype io_error = UnexpectedEof | InvalidData | NotFound

datatype table_error =
    TableTooLarge
  | InvalidTableSize
  | HeaderAreaExceeded
  | TruncatedChunk
  | NotAUtfTable
  | InvalidUtfTable
  | UtfSizeOverflow
  | TruncatedUtfTable
  | InvalidSectionOffsets
  | RowSizeOverflow
  | RowOffsetOverflow
  | RowsOverlapStrings
  | ColumnsOverlapRows
  | RowSchemaOverflow
  | RowSchemaExceedsRowSize

datatype string_pool_error = InvalidPoolOffsets | UnterminatedString

datatype cpk_reader_error =
    InvalidHeaderChunk
  | MissingContentOffset
  | MissingFileName
  | MissingFileSize
  | MissingFileOffset
  | MissingTocAndItoc
  | InvalidTocColumn string
  | InvalidItoc
  | ItocContentOffsetTooLarge u64
  | FileTooLarge u64
  | GetFilesNotCalled

datatype cpk_writer_error =
    InvalidAlignment u32
  | EmptyInput
  | HeaderTooLarge nat
  | WriterFileTooLarge bytes u64
  | TooManyFiles nat
  | NonUtf8Path bytes
  | UnsupportedP5rEncryption
  | ArithmeticOverflow
  | DuplicateItocId u32
  | ItocIdTooLarge u32
  | WriterItocContentOffsetTooLarge u64
  | InvalidRawPayload bytes

datatype cri_error =
    Io io_error
  | CpkTableError table_error
  | StringPoolError string_pool_error
  | Utf8Error
  | CpkReaderError cpk_reader_error
  | CpkWriterError cpk_writer_error
  | Panic

type_synonym 'a result = "cri_error + 'a"

definition from_utf8 :: "bytes \<Rightarrow> rust_string result" where
  "from_utf8 bs = (if utf8_valid bs then Inr bs else Inl Utf8Error)"

text \<open>A step does not panic: it returns a value or one of the source's own errors.\<close>

definition no_panic :: "'a result \<Rightarrow> bool" where
  "no_panic r \<longleftrightarrow> r \<noteq> Inl Panic"

named_theorems no_panic_intros \<open>composition of steps that do not panic\<close>

lemma no_panic_Inr [no_panic_intros, simp]: "no_panic (Inr x)"
  by (simp add: no_panic_def)

lemma no_panic_Inl [no_panic_intros]: "e \<noteq> Panic \<Longrightarrow> no_panic (Inl e)"
  by (simp add: no_panic_def)

lemma no_panic_and_then [no_panic_intros]:
  "no_panic m \<Longrightarrow> (\<And>x. m = Inr x \<Longrightarrow> no_panic (f x)) \<Longrightarrow> no_panic (and_then m f)"
  by (cases m) (auto simp: no_panic_def)

lemma no_panic_ok_or [no_panic_intros]: "e \<noteq> Panic \<Longrightarrow> no_panic (ok_or e m)"
  by (cases m) (auto simp: no_panic_def)

lemma no_panic_result_map [no_panic_intros]: "no_panic m \<Longrightarrow> no_panic (result_map f m)"
  by (cases m) (auto simp: no_panic_def)

lemma no_panic_if [no_panic_intros]:
  "(b \<Longrightarrow> no_panic m) \<Longrightarrow> (\<not> b \<Longrightarrow> no_panic n) \<Longrightarrow> no_panic (if b then m else n)"
  by simp

lemma no_panic_map_result:
  "(\<And>x. x \<in> set xs \<Longrightarrow> no_panic (f x)) \<Longrightarrow> no_panic (map_result f xs)"
  by (induction xs) (auto intro!: no_panic_intros)

lemma no_panic_from_utf8 [no_panic_intros]: "no_panic (from_utf8 bs)"
  by (simp add: from_utf8_def no_panic_def)

lemma from_utf8_Inr [result_iff]: "from_utf8 bs = Inr s \<longleftrightarrow> utf8_valid bs \<and> s = bs"
  by (auto simp: from_utf8_def)

end
