(* ===== verification/Endianness.thy ===== *)
theory Endianness
  imports Errors
begin

text \<open>
  \<open>utils/endianness.rs\<close> and \<open>utils/slice.rs\<close>.  The trait \<open>Endianness\<close> is the locale
  \<open>endianness\<close>: three decoders, with the encoders they invert.  Its three implementations are
  interpreted below (\<open>NativeEndian\<close> for the little endian targets the crate is built for).
  \<open>FromSlice::from_slice\<close> takes the decoder of its trait parameter as an argument and panics
  when the slice is too short (\<open>Unchecked_Reads\<close> has the variants of the feature \<open>dangerous\<close>).
  Signed integers and floats are their bit patterns, as \<open>as i32\<close> and \<open>from_bits\<close> keep them.
\<close>

type_synonym i8 = u8
type_synonym i16 = u16
type_synonym i32 = u32
type_synonym i64 = u64
type_synonym f32 = u32
type_synonym f64 = u64

section \<open>The three implementations\<close>

definition BigEndian_get_u16 :: "bytes \<Rightarrow> u16" where
  "BigEndian_get_u16 arr = from_be_bytes arr"

definition BigEndian_get_u32 :: "bytes \<Rightarrow> u32" where
  "BigEndian_get_u32 arr = from_be_bytes arr"

definition BigEndian_get_u64 :: "bytes \<Rightarrow> u64" where
  "BigEndian_get_u64 arr = from_be_bytes arr"

definition LittleEndian_get_u16 :: "bytes \<Rightarrow> u16" where
  "LittleEndian_get_u16 arr = from_le_bytes arr"

definition LittleEndian_get_u32 :: "bytes \<Rightarrow> u32" where
  "LittleEndian_get_u32 arr = from_le_bytes arr"

definition LittleEndian_get_u64 :: "bytes \<Rightarrow> u64" where
  "LittleEndian_get_u64 arr = from_le_bytes arr"

definition NativeEndian_get_u16 :: "bytes \<Rightarrow> u16" where
  "NativeEndian_get_u16 arr = from_le_bytes arr"

definition NativeEndian_get_u32 :: "bytes \<Rightarrow> u32" where
  "NativeEndian_get_u32 arr = from_le_bytes arr"

definition NativeEndian_get_u64 :: "bytes \<Rightarrow> u64" where
  "NativeEndian_get_u64 arr = from_le_bytes arr"

text \<open>The default methods of the trait: reinterpretations of the same bits.\<close>

definition get_i16 :: "(bytes \<Rightarrow> u16) \<Rightarrow> bytes \<Rightarrow> i16" where
  "get_i16 get_u16 arr = get_u16 arr"

definition get_i32 :: "(bytes \<Rightarrow> u32) \<Rightarrow> bytes \<Rightarrow> i32" where
  "get_i32 get_u32 arr = get_u32 arr"

definition get_f32 :: "(bytes \<Rightarrow> u32) \<Rightarrow> bytes \<Rightarrow> f32" where
  "get_f32 get_u32 arr = get_u32 arr"

definition get_i64 :: "(bytes \<Rightarrow> u64) \<Rightarrow> bytes \<Rightarrow> i64" where
  "get_i64 get_u64 arr = get_u64 arr"

definition get_f64 :: "(bytes \<Rightarrow> u64) \<Rightarrow> bytes \<Rightarrow> f64" where
  "get_f64 get_u64 arr = get_u64 arr"

section \<open>Reading integers from slices\<close>

text \<open>\<open>slice[offset..n + offset]\<close> with its bounds check, converted to an array of length \<open>n\<close>.\<close>

definition sub_slice :: "bytes \<Rightarrow> nat \<Rightarrow> nat \<Rightarrow> bytes result" where
  "sub_slice bs offset n = (if offset + n \<le> length bs then Inr (slice offset n bs) else Inl Panic)"

definition from_slice_u8 :: "bytes \<Rightarrow> nat \<Rightarrow> u8 result" where
  "from_slice_u8 bs offset = (if offset < length bs then Inr (bs ! offset) else Inl Panic)"

definition from_slice_u16 :: "(bytes \<Rightarrow> u16) \<Rightarrow> bytes \<Rightarrow> nat \<Rightarrow> u16 result" where
  "from_slice_u16 get_u16 bs offset = result_map get_u16 (sub_slice bs offset 2)"

definition from_slice_i16 :: "(bytes \<Rightarrow> u16) \<Rightarrow> bytes \<Rightarrow> nat \<Rightarrow> i16 result" where
  "from_slice_i16 get_u16 bs offset = result_map (get_i16 get_u16) (sub_slice bs offset 2)"

definition from_slice_u32 :: "(bytes \<Rightarrow> u32) \<Rightarrow> bytes \<Rightarrow> nat \<Rightarrow> u32 result" where
  "from_slice_u32 get_u32 bs offset = result_map get_u32 (sub_slice bs offset 4)"

definition from_slice_i32 :: "(bytes \<Rightarrow> u32) \<Rightarrow> bytes \<Rightarrow> nat \<Rightarrow> i32 result" where
  "from_slice_i32 get_u32 bs offset = result_map (get_i32 get_u32) (sub_slice bs offset 4)"

definition from_slice_f32 :: "(bytes \<Rightarrow> u32) \<Rightarrow> bytes \<Rightarrow> nat \<Rightarrow> f32 result" where
  "from_slice_f32 get_u32 bs offset = result_map (get_f32 get_u32) (sub_slice bs offset 4)"

definition from_slice_u64 :: "(bytes \<Rightarrow> u64) \<Rightarrow> bytes \<Rightarrow> nat \<Rightarrow> u64 result" where
  "from_slice_u64 get_u64 bs offset = result_map get_u64 (sub_slice bs offset 8)"

definition from_slice_i64 :: "(bytes \<Rightarrow> u64) \<Rightarrow> bytes \<Rightarrow> nat \<Rightarrow> i64 result" where
  "from_slice_i64 get_u64 bs offset = result_map (get_i64 get_u64) (sub_slice bs offset 8)"

definition from_slice_f64 :: "(bytes \<Rightarrow> u64) \<Rightarrow> bytes \<Rightarrow> nat \<Rightarrow> f64 result" where
  "from_slice_f64 get_u64 bs offset = result_map (get_f64 get_u64) (sub_slice bs offset 8)"

lemma sub_slice_Inr [result_iff]:
  "sub_slice bs offset n = Inr r \<longleftrightarrow> offset + n \<le> length bs \<and> r = slice offset n bs"
  by (auto simp: sub_slice_def)

lemma sub_slice_append: "offset = length xs \<Longrightarrow> n = length ys \<Longrightarrow> sub_slice (xs @ ys @ zs) offset n = Inr ys"
  by (simp add: sub_slice_def slice_exact)

lemmas from_slice_defs = from_slice_u8_def from_slice_u16_def from_slice_i16_def from_slice_u32_def
  from_slice_i32_def from_slice_f32_def from_slice_u64_def from_slice_i64_def from_slice_f64_def

lemmas get_signed_defs = get_i16_def get_i32_def get_f32_def get_i64_def get_f64_def

section \<open>The trait as an interface\<close>

locale endianness =
  fixes get_u16 :: "bytes \<Rightarrow> u16"
    and get_u32 :: "bytes \<Rightarrow> u32"
    and get_u64 :: "bytes \<Rightarrow> u64"
    and put_u16 :: "u16 \<Rightarrow> bytes"
    and put_u32 :: "u32 \<Rightarrow> bytes"
    and put_u64 :: "u64 \<Rightarrow> bytes"
  assumes get_put_u16: "get_u16 (put_u16 a) = a"
    and get_put_u32: "get_u32 (put_u32 b) = b"
    and get_put_u64: "get_u64 (put_u64 c) = c"
    and put_get_u16: "length bs = 2 \<Longrightarrow> put_u16 (get_u16 bs) = bs"
    and put_get_u32: "length bs = 4 \<Longrightarrow> put_u32 (get_u32 bs) = bs"
    and put_get_u64: "length bs = 8 \<Longrightarrow> put_u64 (get_u64 bs) = bs"
    and length_put_u16: "length (put_u16 a) = 2"
    and length_put_u32: "length (put_u32 b) = 4"
    and length_put_u64: "length (put_u64 c) = 8"
begin

text \<open>An integer stored in a buffer is read back, whatever surrounds it, and nothing else is.\<close>

lemma from_slice_u16_stored: "from_slice_u16 get_u16 (xs @ put_u16 a @ ys) (length xs) = Inr a"
  by (simp add: from_slice_u16_def sub_slice_append length_put_u16 get_put_u16)

lemma from_slice_u32_stored: "from_slice_u32 get_u32 (xs @ put_u32 b @ ys) (length xs) = Inr b"
  by (simp add: from_slice_u32_def sub_slice_append length_put_u32 get_put_u32)

lemma from_slice_u64_stored: "from_slice_u64 get_u64 (xs @ put_u64 c @ ys) (length xs) = Inr c"
  by (simp add: from_slice_u64_def sub_slice_append length_put_u64 get_put_u64)

lemma from_slice_u16_iff:
  "from_slice_u16 get_u16 bs n = Inr a \<longleftrightarrow> n + 2 \<le> length bs \<and> slice n 2 bs = put_u16 a"
  by (auto simp: from_slice_u16_def result_iff get_put_u16 put_get_u16)

lemma from_slice_u32_iff:
  "from_slice_u32 get_u32 bs n = Inr b \<longleftrightarrow> n + 4 \<le> length bs \<and> slice n 4 bs = put_u32 b"
  by (auto simp: from_slice_u32_def result_iff get_put_u32 put_get_u32)

lemma from_slice_u64_iff:
  "from_slice_u64 get_u64 bs n = Inr c \<longleftrightarrow> n + 8 \<le> length bs \<and> slice n 8 bs = put_u64 c"
  by (auto simp: from_slice_u64_def result_iff get_put_u64 put_get_u64)

end

interpretation big: endianness
  BigEndian_get_u16 BigEndian_get_u32 BigEndian_get_u64
  "to_be_bytes 2" "to_be_bytes 4" "to_be_bytes 8"
  by unfold_locales
    (simp_all add: BigEndian_get_u16_def BigEndian_get_u32_def BigEndian_get_u64_def
      byte_simps to_from_be_bytes)

interpretation little: endianness
  LittleEndian_get_u16 LittleEndian_get_u32 LittleEndian_get_u64
  "to_le_bytes 2" "to_le_bytes 4" "to_le_bytes 8"
  by unfold_locales
    (simp_all add: LittleEndian_get_u16_def LittleEndian_get_u32_def LittleEndian_get_u64_def
      byte_simps to_from_le_bytes)

interpretation native: endianness
  NativeEndian_get_u16 NativeEndian_get_u32 NativeEndian_get_u64
  "to_le_bytes 2" "to_le_bytes 4" "to_le_bytes 8"
  by unfold_locales
    (simp_all add: NativeEndian_get_u16_def NativeEndian_get_u32_def NativeEndian_get_u64_def
      byte_simps to_from_le_bytes)

text \<open>The crate reads tables big endian: total versions for buffers known to be long enough.\<close>

definition be_u16_at :: "bytes \<Rightarrow> nat \<Rightarrow> u16" where
  "be_u16_at bs offset = BigEndian_get_u16 (slice offset 2 bs)"

definition be_u32_at :: "bytes \<Rightarrow> nat \<Rightarrow> u32" where
  "be_u32_at bs offset = BigEndian_get_u32 (slice offset 4 bs)"

definition be_u64_at :: "bytes \<Rightarrow> nat \<Rightarrow> u64" where
  "be_u64_at bs offset = BigEndian_get_u64 (slice offset 8 bs)"

lemma from_slice_be_in_range:
  "offset + 2 \<le> length bs \<Longrightarrow> from_slice_u16 BigEndian_get_u16 bs offset = Inr (be_u16_at bs offset)"
  "offset + 4 \<le> length bs \<Longrightarrow> from_slice_u32 BigEndian_get_u32 bs offset = Inr (be_u32_at bs offset)"
  "offset + 8 \<le> length bs \<Longrightarrow> from_slice_u64 BigEndian_get_u64 bs offset = Inr (be_u64_at bs offset)"
  by (simp_all add: from_slice_defs sub_slice_def be_u16_at_def be_u32_at_def be_u64_at_def)

lemma be_at_stored [byte_simps]:
  "length xs = n \<Longrightarrow> be_u16_at (xs @ to_be_bytes 2 a @ ys) n = a"
  "length xs = n \<Longrightarrow> be_u32_at (xs @ to_be_bytes 4 b @ ys) n = b"
  "length xs = n \<Longrightarrow> be_u64_at (xs @ to_be_bytes 8 c @ ys) n = c"
  by (simp_all add: be_u16_at_def be_u32_at_def be_u64_at_def slice_exact
      big.get_put_u16 big.get_put_u32 big.get_put_u64)

end
