(* ===== verification/Table_Header.thy ===== *)
theory Table_Header
  imports Endianness
begin

text \<open>
  \<open>schema/header.rs\<close>: the fixed 32 byte header of an \<open>@UTF\<close> table, kept as an owned copy of its
  bytes and read field by field, big endian.  Offsets stored in the header are relative to
  \<open>HEADER_OFFSET\<close>; the two pool offsets saturate instead of wrapping.
\<close>

datatype string_encoding = ShiftJIS | UTF8

definition string_encoding_from :: "u8 \<Rightarrow> string_encoding" where
  "string_encoding_from value = (if value = 0 then ShiftJIS else UTF8)"

definition HEADER_OFFSET :: u32 where "HEADER_OFFSET = 0x8"

definition HEADER_SIZE :: nat where "HEADER_SIZE = 0x20"

record table_header =
  header_bytes :: bytes

definition table_header_new :: "bytes \<Rightarrow> table_header" where
  "table_header_new file =
     (let copy_len = min (length file) HEADER_SIZE
      in \<lparr>header_bytes = take copy_len file @ replicate (HEADER_SIZE - copy_len) 0\<rparr>)"

text \<open>
  The array has exactly 32 bytes (\<open>table_header_new_wf\<close>), so no index below can panic
  (\<open>header_reads_in_range\<close>).
\<close>

definition th_size :: "table_header \<Rightarrow> u32" where
  "th_size h = be_u32_at (header_bytes h) 0x4"

definition th_encoding :: "table_header \<Rightarrow> string_encoding" where
  "th_encoding h = string_encoding_from (header_bytes h ! 0x9)"

definition th_rows_offset :: "table_header \<Rightarrow> u32" where
  "th_rows_offset h = ucast (be_u16_at (header_bytes h) 0xa) + HEADER_OFFSET"

definition th_string_pool_offset :: "table_header \<Rightarrow> u32" where
  "th_string_pool_offset h = saturating_add (be_u32_at (header_bytes h) 0xc) HEADER_OFFSET"

definition th_data_pool_offset :: "table_header \<Rightarrow> u32" where
  "th_data_pool_offset h = saturating_add (be_u32_at (header_bytes h) 0x10) HEADER_OFFSET"

definition th_column_count :: "table_header \<Rightarrow> u16" where
  "th_column_count h = be_u16_at (header_bytes h) 0x18"

definition th_row_size :: "table_header \<Rightarrow> u16" where
  "th_row_size h = be_u16_at (header_bytes h) 0x1a"

definition th_row_count :: "table_header \<Rightarrow> u32" where
  "th_row_count h = be_u32_at (header_bytes h) 0x1c"

definition header_wf :: "table_header \<Rightarrow> bool" where
  "header_wf h \<longleftrightarrow> length (header_bytes h) = HEADER_SIZE"

lemma table_header_new_wf: "header_wf (table_header_new file)"
  by (simp add: header_wf_def table_header_new_def Let_def)

lemma table_header_new_long:
  "HEADER_SIZE \<le> length file \<Longrightarrow> header_bytes (table_header_new file) = take HEADER_SIZE file"
  by (simp add: table_header_new_def Let_def min_def)

lemma header_reads_in_range:
  assumes "header_wf h"
  shows "from_slice_u32 BigEndian_get_u32 (header_bytes h) 0x4 = Inr (th_size h)"
    and "from_slice_u8 (header_bytes h) 0x9 = Inr (header_bytes h ! 0x9)"
    and "from_slice_u16 BigEndian_get_u16 (header_bytes h) 0x18 = Inr (th_column_count h)"
    and "from_slice_u16 BigEndian_get_u16 (header_bytes h) 0x1a = Inr (th_row_size h)"
    and "from_slice_u32 BigEndian_get_u32 (header_bytes h) 0x1c = Inr (th_row_count h)"
  using assms
  by (simp_all add: header_wf_def HEADER_SIZE_def from_slice_be_in_range from_slice_u8_def
      th_size_def th_column_count_def th_row_size_def th_row_count_def)

text \<open>The offsets as numbers: the rows offset cannot wrap, the pool offsets saturate.\<close>

lemma unat_rows_offset: "unat (th_rows_offset h) = unat (be_u16_at (header_bytes h) 0xa) + 8"
proof -
  let ?w = "be_u16_at (header_bytes h) 0xa"
  have lt: "unat ?w < 2 ^ 16" using unsigned_less [of ?w] by simp
  then have "unat (ucast ?w :: u32) = unat ?w" by (simp add: unat_ucast_le)
  with lt show ?thesis
    by (simp add: th_rows_offset_def HEADER_OFFSET_def unat_word_ariths)
qed

lemma unat_saturating_offset:
  "unat (saturating_add (w :: u32) HEADER_OFFSET) = min (unat w + 8) (2 ^ 32 - 1)"
proof -
  have "unat (- 1 :: u32) = 2 ^ 32 - 1" by (simp add: unsigned_minus_1_eq_mask mask_eq_exp_minus_1)
  then show ?thesis
    by (auto simp: saturating_add_def HEADER_OFFSET_def unat_word_ariths min_def)
qed

text \<open>
  A header laid out field by field is read back field by field: the shape every writer of the
  crate produces (\<open>marker\<close> is ignored by the reader).
\<close>

definition header_layout ::
  "bytes \<Rightarrow> u32 \<Rightarrow> u8 \<Rightarrow> u8 \<Rightarrow> u16 \<Rightarrow> u32 \<Rightarrow> u32 \<Rightarrow> u32 \<Rightarrow> u16 \<Rightarrow> u16 \<Rightarrow> u32 \<Rightarrow> bytes" where
  "header_layout magic tsize marker enc rows strs data name cols row_size row_count =
     magic @ to_be_bytes 4 tsize @ [marker, enc] @ to_be_bytes 2 rows @ to_be_bytes 4 strs @
     to_be_bytes 4 data @ to_be_bytes 4 name @ to_be_bytes 2 cols @ to_be_bytes 2 row_size @
     to_be_bytes 4 row_count"

lemma length_header_layout [simp]:
  "length (header_layout magic tsize marker enc rows strs data name cols row_size row_count) =
   length magic + 28"
  by (simp add: header_layout_def)

lemma be_u32_at_skip: "length xs \<le> n \<Longrightarrow> be_u32_at (xs @ ys) n = be_u32_at ys (n - length xs)"
  by (simp add: be_u32_at_def slice_append_skip)

lemma be_u16_at_skip: "length xs \<le> n \<Longrightarrow> be_u16_at (xs @ ys) n = be_u16_at ys (n - length xs)"
  by (simp add: be_u16_at_def slice_append_skip)

lemma be_at_Cons:
  "0 < n \<Longrightarrow> be_u16_at (x # ys) n = be_u16_at ys (n - 1)"
  "0 < n \<Longrightarrow> be_u32_at (x # ys) n = be_u32_at ys (n - 1)"
  using be_u16_at_skip [of "[x]" n ys] be_u32_at_skip [of "[x]" n ys] by simp_all

lemma be_at_zero [simp]:
  "be_u16_at (to_be_bytes 2 a @ ys) 0 = a"
  "be_u32_at (to_be_bytes 4 b @ ys) 0 = b"
  "be_u64_at (to_be_bytes 8 c @ ys) 0 = c"
  "be_u16_at (to_be_bytes 2 a) 0 = a"
  "be_u32_at (to_be_bytes 4 b) 0 = b"
  "be_u64_at (to_be_bytes 8 c) 0 = c"
  using be_at_stored [of "[]" 0] be_at_stored [of "[]" 0, where ys = "[]"] by simp_all

lemma read_header_layout:
  assumes "length magic = 4"
    and new: "h = table_header_new
      (header_layout magic tsize marker enc rows strs data name cols row_size row_count @ rest)"
  shows "th_size h = tsize"
    and "th_encoding h = string_encoding_from enc"
    and "unat (th_rows_offset h) = unat rows + 8"
    and "th_string_pool_offset h = saturating_add strs HEADER_OFFSET"
    and "th_data_pool_offset h = saturating_add data HEADER_OFFSET"
    and "th_column_count h = cols"
    and "th_row_size h = row_size"
    and "th_row_count h = row_count"
proof -
  have h: "header_bytes h =
      header_layout magic tsize marker enc rows strs data name cols row_size row_count"
    using assms(1) by (simp add: new table_header_new_long HEADER_SIZE_def)
  note fields = h header_layout_def be_u32_at_skip be_u16_at_skip be_at_Cons assms(1) nth_append
  show "th_size h = tsize" by (simp add: th_size_def fields)
  show "th_encoding h = string_encoding_from enc" by (simp add: th_encoding_def fields)
  show "unat (th_rows_offset h) = unat rows + 8" by (simp add: unat_rows_offset fields)
  show "th_string_pool_offset h = saturating_add strs HEADER_OFFSET"
    by (simp add: th_string_pool_offset_def fields)
  show "th_data_pool_offset h = saturating_add data HEADER_OFFSET"
    by (simp add: th_data_pool_offset_def fields)
  show "th_column_count h = cols" by (simp add: th_column_count_def fields)
  show "th_row_size h = row_size" by (simp add: th_row_size_def fields)
  show "th_row_count h = row_count" by (simp add: th_row_count_def fields)
qed

end
