(* ===== verification/Byte_Stream.thy ===== *)
theory Byte_Stream
  imports Errors
begin

text \<open>
  \<open>std::io\<close>'s \<open>Read + Seek\<close> and \<open>Write + Seek\<close> over a byte buffer with a position, as
  \<open>Cursor<Vec<u8>>\<close> and a regular file behave: seeking past the end is allowed, reading there
  reports the end of the file, and writing there fills the gap with zeros.  Device errors are
  not modelled.  After a failed read the source never uses the position again.
\<close>

record stream =
  contents :: bytes
  position :: nat

definition read_exact :: "nat \<Rightarrow> stream \<Rightarrow> (bytes \<times> stream) result" where
  "read_exact n s =
     (if n \<le> length (contents s) - position s
      then Inr (slice (position s) n (contents s), s\<lparr>position := position s + n\<rparr>)
      else Inl (Io UnexpectedEof))"

definition seek_start :: "nat \<Rightarrow> stream \<Rightarrow> stream" where
  "seek_start n s = s\<lparr>position := n\<rparr>"

definition seek_end :: "stream \<Rightarrow> stream" where
  "seek_end s = s\<lparr>position := length (contents s)\<rparr>"

definition write_all :: "bytes \<Rightarrow> stream \<Rightarrow> stream" where
  "write_all bs s =
     (if bs = [] then s else
      let padded = contents s @ replicate (position s - length (contents s)) 0
      in s\<lparr>contents := take (position s) padded @ bs @ drop (position s + length bs) padded,
           position := position s + length bs\<rparr>)"

text \<open>The contract of \<open>read_exact\<close> the parsers rely on.\<close>

lemma read_exact_Inr [result_iff]:
  "read_exact n s = Inr (bs, s') \<longleftrightarrow>
     n \<le> length (contents s) - position s \<and> bs = slice (position s) n (contents s) \<and>
     s' = s\<lparr>position := position s + n\<rparr>"
  by (auto simp: read_exact_def)

lemma no_panic_read_exact [no_panic_intros]: "no_panic (read_exact n s)"
  by (simp add: read_exact_def no_panic_def)

lemma read_exact_length: "read_exact n s = Inr (bs, s') \<Longrightarrow> length bs = n"
  by (auto simp: result_iff)

lemma read_exact_stored:
  "contents s = xs @ ys @ zs \<Longrightarrow> position s = length xs \<Longrightarrow> n = length ys \<Longrightarrow>
   read_exact n s = Inr (ys, s\<lparr>position := position s + n\<rparr>)"
  by (simp add: read_exact_def slice_exact)

lemma seek_simps [simp]:
  "contents (seek_start n s) = contents s"
  "position (seek_start n s) = n"
  "contents (seek_end s) = contents s"
  "position (seek_end s) = length (contents s)"
  by (simp_all add: seek_start_def seek_end_def)

text \<open>Appending at the end of the buffer, the case the writer is in for fresh output.\<close>

lemma write_all_at_end:
  "position s = length (contents s) \<Longrightarrow>
   write_all bs s = s\<lparr>contents := contents s @ bs, position := length (contents s) + length bs\<rparr>"
  by (cases s) (simp add: write_all_def)

end
