(* ===== verification/String_Pool.thy ===== *)
theory String_Pool
  imports Table_Header Byte_Stream
begin

text \<open>
  \<open>schema/strings.rs\<close>: a string pool is a run of NUL terminated strings; \<open>parse_strings\<close> cuts it
  at the NULs and files every string under the offset of its first byte.  The decoder of the
  Shift-JIS encoding belongs to the crate \<open>encoding_rs\<close> and is the parameter \<open>sjis\<close>.

  \<open>parse_strings_iff\<close> characterises success and result of the parser completely.  The trait
  \<open>StringPool\<close> is the locale \<open>string_pool\<close>; both of its implementations are interpreted.
\<close>

section \<open>The parser\<close>

fun nul_position :: "bytes \<Rightarrow> nat option" where
  "nul_position [] = None"
| "nul_position (b # bs) = (if b = 0 then Some 0 else map_option Suc (nul_position bs))"

definition decode_string :: "(bytes \<Rightarrow> rust_string) \<Rightarrow> string_encoding \<Rightarrow> bytes \<Rightarrow> rust_string result" where
  "decode_string sjis encoding bs =
     (case encoding of ShiftJIS \<Rightarrow> Inr (sjis bs) | UTF8 \<Rightarrow> from_utf8 bs)"

function parse_strings_loop ::
  "(bytes \<Rightarrow> rust_string) \<Rightarrow> string_encoding \<Rightarrow> bytes \<Rightarrow> nat \<Rightarrow> (nat \<rightharpoonup> rust_string) \<Rightarrow>
   (nat \<rightharpoonup> rust_string) result" where
  "parse_strings_loop sjis encoding stream offset strings =
     (if offset < length stream then
        (let tail = drop offset stream in
         case nul_position tail of
           None \<Rightarrow> Inl (StringPoolError UnterminatedString)
         | Some len \<Rightarrow>
             and_then (decode_string sjis encoding (take len tail)) (\<lambda>value.
               parse_strings_loop sjis encoding stream (offset + len + 1) (strings(offset \<mapsto> value))))
      else Inr strings)"
  by pat_completeness auto
termination
  by (relation "measure (\<lambda>(sjis, encoding, stream, offset, strings). length stream - offset)") auto

declare parse_strings_loop.simps [simp del]

definition parse_strings ::
  "(bytes \<Rightarrow> rust_string) \<Rightarrow> bytes \<Rightarrow> string_encoding \<Rightarrow> (nat \<rightharpoonup> rust_string) result" where
  "parse_strings sjis stream encoding = parse_strings_loop sjis encoding stream 0 Map.empty"

section \<open>What a pool contains\<close>

definition nul_terminated :: "bytes list \<Rightarrow> bytes" where
  "nul_terminated ss = concat (map (\<lambda>s. s @ [0]) ss)"

fun starts :: "nat \<Rightarrow> bytes list \<Rightarrow> nat list" where
  "starts base [] = []"
| "starts base (s # ss) = base # starts (base + length s + 1) ss"

definition pool_map :: "bytes list \<Rightarrow> rust_string list \<Rightarrow> nat \<rightharpoonup> rust_string" where
  "pool_map ss vs = map_of (zip (starts 0 ss) vs)"

lemma nul_terminated_simps [simp]:
  "nul_terminated [] = []"
  "nul_terminated (s # ss) = s @ 0 # nul_terminated ss"
  "nul_terminated (ss @ ts) = nul_terminated ss @ nul_terminated ts"
  by (simp_all add: nul_terminated_def)

lemma length_starts [simp]: "length (starts base ss) = length ss"
  by (induction ss arbitrary: base) auto

lemma starts_append:
  "starts base (ss @ ts) = starts base ss @ starts (base + length (nul_terminated ss)) ts"
  by (induction ss arbitrary: base) (auto simp: add_ac)

lemma starts_ge: "n \<in> set (starts base ss) \<Longrightarrow> base \<le> n"
  by (induction ss arbitrary: base) fastforce+

lemma starts_lt: "n \<in> set (starts base ss) \<Longrightarrow> n < base + length (nul_terminated ss)"
  by (induction ss arbitrary: base) fastforce+

lemma distinct_starts: "distinct (starts base ss)"
  by (induction ss arbitrary: base) (auto dest: starts_ge)

lemma nth_starts: "i < length ss \<Longrightarrow> starts base ss ! i = base + length (nul_terminated (take i ss))"
  by (induction ss arbitrary: base i) (auto simp: nth_Cons split: nat.splits)

lemma nul_position_append: "0 \<notin> set s \<Longrightarrow> nul_position (s @ 0 # r) = Some (length s)"
  by (induction s) auto

lemma nul_position_SomeD:
  "nul_position bs = Some n \<Longrightarrow> n < length bs \<and> 0 \<notin> set (take n bs) \<and> bs = take n bs @ 0 # drop (Suc n) bs"
proof (induction bs arbitrary: n)
  case Nil
  then show ?case by simp
next
  case (Cons b bs)
  then show ?case by (cases "b = 0") auto
qed

lemma parse_loop_forward:
  assumes "map_result (decode_string sjis enc) ss = Inr vs" and "\<forall>s \<in> set ss. 0 \<notin> set s"
  shows "parse_strings_loop sjis enc (pre @ nul_terminated ss) (length pre) m =
         Inr (m ++ map_of (zip (starts (length pre) ss) vs))"
  using assms
proof (induction ss arbitrary: pre m vs)
  case Nil
  then show ?case by (simp add: parse_strings_loop.simps)
next
  case (Cons s ss)
  from Cons.prems obtain v ws where v: "decode_string sjis enc s = Inr v"
    and ws: "map_result (decode_string sjis enc) ss = Inr ws" and vs: "vs = v # ws"
    by (auto simp: result_iff)
  let ?pre = "pre @ s @ [0]"
  have "parse_strings_loop sjis enc (pre @ nul_terminated (s # ss)) (length pre) m =
        parse_strings_loop sjis enc (?pre @ nul_terminated ss) (length ?pre) (m(length pre \<mapsto> v))"
    using Cons.prems(2) v
    by (subst parse_strings_loop.simps) (simp add: nul_position_append Let_def)
  also have "\<dots> = Inr (m(length pre \<mapsto> v) ++ map_of (zip (starts (length ?pre) ss) ws))"
    by (rule Cons.IH) (use ws Cons.prems(2) in auto)
  also have "m(length pre \<mapsto> v) ++ map_of (zip (starts (length ?pre) ss) ws) =
             m ++ map_of (zip (starts (length pre) (s # ss)) vs)"
  proof -
    have "length pre \<notin> dom (map_of (zip (starts (length ?pre) ss) ws))"
      using map_result_length [OF ws] by (auto simp: dom_map_of_zip dest!: starts_ge)
    then show ?thesis by (simp add: vs map_add_upd_left)
  qed
  finally show ?case .
qed

lemma parse_loop_backward:
  assumes "parse_strings_loop sjis enc stream off m = Inr m'"
  shows "\<exists>ss vs. drop off stream = nul_terminated ss \<and> (\<forall>s \<in> set ss. 0 \<notin> set s) \<and>
           map_result (decode_string sjis enc) ss = Inr vs"
  using assms
proof (induction sjis enc stream off m rule: parse_strings_loop.induct)
  case (1 sjis enc stream off m)
  show ?case
  proof (cases "off < length stream")
    case False
    then have "drop off stream = nul_terminated []" by simp
    moreover have "map_result (decode_string sjis enc) [] = Inr []" by simp
    ultimately show ?thesis by (metis empty_iff empty_set)
  next
    case True
    let ?tail = "drop off stream"
    from True "1.prems" obtain len v where len: "nul_position ?tail = Some len"
      and v: "decode_string sjis enc (take len ?tail) = Inr v"
      and rest: "parse_strings_loop sjis enc stream (off + len + 1) (m(off \<mapsto> v)) = Inr m'"
      by (subst (asm) parse_strings_loop.simps) (auto simp: Let_def result_iff split: option.splits)
    from "1.IH" [OF True refl len v rest] obtain ss vs where
      ss: "drop (off + len + 1) stream = nul_terminated ss" "\<forall>s \<in> set ss. 0 \<notin> set s"
        "map_result (decode_string sjis enc) ss = Inr vs" by blast
    from nul_position_SomeD [OF len] have cut: "0 \<notin> set (take len ?tail)"
      "?tail = take len ?tail @ 0 # drop (off + len + 1) stream"
      by (auto simp: add.commute)
    have "?tail = nul_terminated (take len ?tail # ss)" using ss(1) by (subst cut(2)) simp
    moreover have "map_result (decode_string sjis enc) (take len ?tail # ss) = Inr (v # vs)"
      using v ss(3) by simp
    moreover have "\<forall>s \<in> set (take len ?tail # ss). 0 \<notin> set s" using cut(1) ss(2) by simp
    ultimately show ?thesis by blast
  qed
qed

lemma no_panic_decode_string [no_panic_intros]: "no_panic (decode_string sjis enc bs)"
  by (cases enc) (auto simp: decode_string_def intro!: no_panic_intros)

lemma no_panic_parse_loop: "no_panic (parse_strings_loop sjis enc stream off m)"
proof (induction "length stream - off" arbitrary: off m rule: less_induct)
  case less
  have "no_panic (parse_strings_loop sjis enc stream (off + len + 1) m')" if "off < length stream" for len m'
    by (rule less) (use that in simp)
  then show ?case
    by (subst parse_strings_loop.simps)
      (auto simp: Let_def split: option.split intro!: no_panic_intros)
qed

lemma no_panic_parse_strings [no_panic_intros]: "no_panic (parse_strings sjis stream enc)"
  by (simp add: parse_strings_def no_panic_parse_loop)

text \<open>The parser succeeds on exactly the runs of terminated, decodable strings.\<close>

lemma parse_strings_iff_split:
  "parse_strings sjis stream enc = Inr m \<longleftrightarrow>
     (\<exists>ss vs. stream = nul_terminated ss \<and> (\<forall>s \<in> set ss. 0 \<notin> set s) \<and>
        map_result (decode_string sjis enc) ss = Inr vs \<and> m = pool_map ss vs)"
proof
  assume L: "parse_strings sjis stream enc = Inr m"
  from parse_loop_backward [OF L [unfolded parse_strings_def]] obtain ss vs where
    ss: "stream = nul_terminated ss" "\<forall>s \<in> set ss. 0 \<notin> set s"
      "map_result (decode_string sjis enc) ss = Inr vs" by auto
  from parse_loop_forward [OF ss(3,2), of "[]" Map.empty] L ss(1)
  have "m = pool_map ss vs" by (simp add: parse_strings_def pool_map_def)
  with ss show "\<exists>ss vs. stream = nul_terminated ss \<and> (\<forall>s \<in> set ss. 0 \<notin> set s) \<and>
        map_result (decode_string sjis enc) ss = Inr vs \<and> m = pool_map ss vs" by blast
next
  assume "\<exists>ss vs. stream = nul_terminated ss \<and> (\<forall>s \<in> set ss. 0 \<notin> set s) \<and>
        map_result (decode_string sjis enc) ss = Inr vs \<and> m = pool_map ss vs"
  then show "parse_strings sjis stream enc = Inr m"
    using parse_loop_forward [of sjis enc _ _ "[]" Map.empty]
    by (auto simp: parse_strings_def pool_map_def)
qed

lemma decode_utf8_strings:
  "\<forall>s \<in> set ss. utf8_valid s \<Longrightarrow> map_result (decode_string sjis UTF8) ss = Inr ss"
  using map_result_all_Inr [of ss "decode_string sjis UTF8" "\<lambda>s. s"]
  by (simp add: decode_string_def from_utf8_def)

definition pool_strings_ok :: "rust_string list \<Rightarrow> bool" where
  "pool_strings_ok ss \<longleftrightarrow> (\<forall>s \<in> set ss. 0 \<notin> set s \<and> utf8_valid s)"

lemma parse_utf8_pool:
  "pool_strings_ok ss \<Longrightarrow> parse_strings sjis (nul_terminated ss) UTF8 = Inr (pool_map ss ss)"
  by (auto simp: parse_strings_iff_split pool_strings_ok_def intro: decode_utf8_strings)

lemma pool_map_nth:
  assumes "i < length ss"
  shows "pool_map ss ss (length (nul_terminated (take i ss))) = Some (ss ! i)"
proof -
  have "(starts 0 ss ! i, ss ! i) \<in> set (zip (starts 0 ss) ss)"
    using assms by (auto simp: in_set_zip)
  with assms distinct_starts show ?thesis
    by (simp add: pool_map_def nth_starts)
qed

lemma pool_map_Some:
  assumes "pool_map ss ss n = Some s"
  obtains i where "i < length ss" "s = ss ! i" "n = length (nul_terminated (take i ss))"
proof -
  from assms have "(n, s) \<in> set (zip (starts 0 ss) ss)"
    by (simp add: pool_map_def map_of_SomeD)
  then show thesis using that by (auto simp: in_set_zip nth_starts)
qed

section \<open>The two pools\<close>

datatype StringPoolImpl = StringPoolImpl "nat \<rightharpoonup> rust_string"

datatype StringPoolFast = StringPoolFast "nat \<rightharpoonup> rust_string"

definition read_pool :: "stream \<Rightarrow> table_header \<Rightarrow> (bytes \<times> stream) result" where
  "read_pool handle header =
     (let string_pool_offset = th_string_pool_offset header;
          data_pool_offset = th_data_pool_offset header
      in if data_pool_offset < string_pool_offset then Inl (StringPoolError InvalidPoolOffsets)
         else read_exact (unat (data_pool_offset - string_pool_offset))
                (seek_start (unat string_pool_offset) handle))"

definition StringPoolImpl_new ::
  "(bytes \<Rightarrow> rust_string) \<Rightarrow> stream \<Rightarrow> table_header \<Rightarrow> StringPoolImpl result" where
  "StringPoolImpl_new sjis handle header =
     and_then (read_pool handle header) (\<lambda>(alloc, _).
       and_then (parse_strings sjis alloc (th_encoding header)) (\<lambda>strings.
         Inr (StringPoolImpl strings)))"

fun StringPoolImpl_get_string :: "StringPoolImpl \<Rightarrow> u32 \<Rightarrow> rust_string option" where
  "StringPoolImpl_get_string (StringPoolImpl strings) offset = strings (unat offset)"

definition StringPoolFast_new_borrowed ::
  "(bytes \<Rightarrow> rust_string) \<Rightarrow> bytes \<Rightarrow> table_header \<Rightarrow> StringPoolFast result" where
  "StringPoolFast_new_borrowed sjis stream header =
     and_then (parse_strings sjis stream (th_encoding header)) (\<lambda>strings.
       Inr (StringPoolFast strings))"

definition StringPoolFast_new ::
  "(bytes \<Rightarrow> rust_string) \<Rightarrow> stream \<Rightarrow> table_header \<Rightarrow> StringPoolFast result" where
  "StringPoolFast_new sjis handle header =
     and_then (read_pool handle header) (\<lambda>(alloc, _). StringPoolFast_new_borrowed sjis alloc header)"

fun StringPoolFast_get_string :: "StringPoolFast \<Rightarrow> u32 \<Rightarrow> rust_string option" where
  "StringPoolFast_get_string (StringPoolFast strings) offset = strings (unat offset)"

section \<open>The trait as an interface\<close>

text \<open>
  \<open>loads pool ss\<close>: the pool was built from the terminated strings \<open>ss\<close>, in that order.  What a
  client of the trait may use is where each string is found and that nothing else is.
\<close>

locale string_pool =
  fixes get_string :: "'p \<Rightarrow> u32 \<Rightarrow> rust_string option"
    and loads :: "'p \<Rightarrow> rust_string list \<Rightarrow> bool"
  assumes get_string_loaded:
    "loads p ss \<Longrightarrow> get_string p offset = pool_map ss ss (unat offset)"
begin

lemma get_string_nth:
  "loads p ss \<Longrightarrow> i < length ss \<Longrightarrow> unat offset = length (nul_terminated (take i ss)) \<Longrightarrow>
   get_string p offset = Some (ss ! i)"
  by (simp add: get_string_loaded pool_map_nth)

lemma get_string_first: "loads p (s # ss) \<Longrightarrow> get_string p 0 = Some s"
  using get_string_nth [of p "s # ss" 0 0] by simp

text \<open>With distinct strings, an offset is the name of at most one string and conversely.\<close>

lemma get_string_inj:
  assumes "loads p ss" and "distinct ss"
    and "get_string p a = Some s" and "get_string p b = Some s"
  shows "a = b"
proof -
  from assms(1,3,4) have "pool_map ss ss (unat a) = Some s" "pool_map ss ss (unat b) = Some s"
    by (simp_all add: get_string_loaded)
  then obtain i j where "i < length ss" "s = ss ! i" "unat a = length (nul_terminated (take i ss))"
    "j < length ss" "s = ss ! j" "unat b = length (nul_terminated (take j ss))"
    by (elim pool_map_Some)
  with assms(2) have "unat a = unat b" by (auto simp: nth_eq_iff_index_eq)
  then show ?thesis by (simp add: word_unat_eq_iff)
qed

lemma get_string_out_of_pool:
  assumes "loads p ss" and "length (nul_terminated ss) \<le> unat a"
  shows "get_string p a = None"
proof (rule ccontr)
  assume "get_string p a \<noteq> None"
  then obtain s where "pool_map ss ss (unat a) = Some s"
    using assms(1) by (auto simp: get_string_loaded)
  then have "unat a \<in> set (starts 0 ss)"
    by (auto simp: pool_map_def dest!: map_of_SomeD set_zip_leftD)
  from starts_lt [OF this] assms(2) show False by simp
qed

end

definition impl_loads :: "StringPoolImpl \<Rightarrow> rust_string list \<Rightarrow> bool" where
  "impl_loads p ss \<longleftrightarrow> p = StringPoolImpl (pool_map ss ss)"

definition fast_loads :: "StringPoolFast \<Rightarrow> rust_string list \<Rightarrow> bool" where
  "fast_loads p ss \<longleftrightarrow> p = StringPoolFast (pool_map ss ss)"

interpretation impl: string_pool StringPoolImpl_get_string impl_loads
  by unfold_locales (simp add: impl_loads_def)

interpretation fast: string_pool StringPoolFast_get_string fast_loads
  by unfold_locales (simp add: fast_loads_def)

text \<open>Both constructors load the pool they are pointed at.\<close>

lemma StringPoolFast_new_borrowed_loads:
  assumes "pool_strings_ok ss" and "th_encoding header = UTF8"
  shows "\<exists>p. StringPoolFast_new_borrowed sjis (nul_terminated ss) header = Inr p \<and> fast_loads p ss"
  using assms by (simp add: StringPoolFast_new_borrowed_def parse_utf8_pool fast_loads_def)

lemma read_pool_stored:
  assumes "contents handle = pre @ pool @ post"
    and "unat (th_string_pool_offset header) = length pre"
    and "unat (th_data_pool_offset header) = length pre + length pool"
  shows "\<exists>s. read_pool handle header = Inr (pool, s)"
proof -
  have le: "th_string_pool_offset header \<le> th_data_pool_offset header"
    using assms(2,3) by (simp add: word_le_nat_alt)
  then have "unat (th_data_pool_offset header - th_string_pool_offset header) = length pool"
    using assms(2,3) by (simp add: unat_sub_le)
  with le assms show ?thesis
    by (simp add: read_pool_def Let_def not_less read_exact_stored)
qed

lemma pools_agree:
  "StringPoolImpl_new sjis handle header = Inr (StringPoolImpl m) \<longleftrightarrow>
   StringPoolFast_new sjis handle header = Inr (StringPoolFast m)"
  by (auto simp: StringPoolImpl_new_def StringPoolFast_new_def StringPoolFast_new_borrowed_def
      result_iff split: prod.splits)

end
