(* ===== verification/Table_Rows.thy ===== *)
theory Table_Rows
  imports String_Pool
begin

text \<open>
  \<open>schema/columns.rs\<close> and \<open>schema/rows.rs\<close>: the column descriptors of an \<open>@UTF\<close> table (a flag
  byte, an optional name offset, an optional default value) and its rows, read field by field
  from a stream that is repositioned by \<open>RowSize\<close> before every row.  The 16 byte scratch arrays of
  the source (\<open>default_bytes\<close>, \<open>field\<close>) are threaded through the loops as they are there.

  \<open>cell_bytes\<close>, \<open>column_bytes\<close> and \<open>row_bytes\<close> are the encodings the parsers are shown to invert.
\<close>

section \<open>Column descriptors\<close>

definition NAME :: u8 where "NAME = 0x10"
definition DEFAULT_VALUE :: u8 where "DEFAULT_VALUE = 0x20"
definition ROW_STORAGE :: u8 where "ROW_STORAGE = 0x40"
definition TYPE_MASK :: u8 where "TYPE_MASK = 0xf"

datatype column_type =
    T_Byte | T_SByte | T_UInt16 | T_Int16 | T_UInt32 | T_Int32 | T_UInt64 | T_Int64
  | T_Single | T_Double | T_String | T_Data | T_Guid | T_Invalid

fun column_type_size :: "column_type \<Rightarrow> u32" where
  "column_type_size T_Byte = 1"
| "column_type_size T_SByte = 1"
| "column_type_size T_UInt16 = 2"
| "column_type_size T_Int16 = 2"
| "column_type_size T_UInt32 = 4"
| "column_type_size T_Int32 = 4"
| "column_type_size T_Single = 4"
| "column_type_size T_String = 4"
| "column_type_size T_UInt64 = 8"
| "column_type_size T_Int64 = 8"
| "column_type_size T_Double = 8"
| "column_type_size T_Data = 8"
| "column_type_size T_Guid = 16"
| "column_type_size T_Invalid = 0"

definition get_flags :: "u8 \<Rightarrow> u8" where
  "get_flags flag = flag AND NOT TYPE_MASK"

definition flags_contain :: "u8 \<Rightarrow> u8 \<Rightarrow> bool" where
  "flags_contain flags f \<longleftrightarrow> flags AND f = f"

definition get_type :: "u8 \<Rightarrow> column_type" where
  "get_type flag =
     (let t = flag AND TYPE_MASK in
      if t = 0 then T_Byte else if t = 1 then T_SByte else if t = 2 then T_UInt16
      else if t = 3 then T_Int16 else if t = 4 then T_UInt32 else if t = 5 then T_Int32
      else if t = 6 then T_UInt64 else if t = 7 then T_Int64 else if t = 8 then T_Single
      else if t = 9 then T_Double else if t = 10 then T_String else if t = 11 then T_Data
      else if t = 12 then T_Guid else T_Invalid)"

section \<open>Values\<close>

record data_value =
  dv_offset :: u32
  dv_length :: u32

definition data_value_is_none :: "data_value \<Rightarrow> bool" where
  "data_value_is_none v \<longleftrightarrow> dv_length v = 0"

datatype row_value =
    RV_None
  | RV_Byte u8
  | RV_SByte i8
  | RV_UInt16 u16
  | RV_Int16 i16
  | RV_UInt32 u32
  | RV_Int32 i32
  | RV_UInt64 u64
  | RV_Int64 i64
  | RV_Single f32
  | RV_Double f64
  | RV_String u32
  | RV_Data data_value
  | RV_Guid u32 u32 u32 u32

text \<open>\<open>from_slice!(&slice[a..b], ty)\<close>: a sub-buf, read big endian at its start.\<close>

definition field_u8 :: "bytes \<Rightarrow> nat \<Rightarrow> u8 result" where
  "field_u8 buf a = from_slice_u8 buf a"

definition field_u16 :: "bytes \<Rightarrow> nat \<Rightarrow> u16 result" where
  "field_u16 buf a =
     and_then (sub_slice buf a 2) (\<lambda>s. from_slice_u16 BigEndian_get_u16 s 0)"

definition field_u32 :: "bytes \<Rightarrow> nat \<Rightarrow> u32 result" where
  "field_u32 buf a =
     and_then (sub_slice buf a 4) (\<lambda>s. from_slice_u32 BigEndian_get_u32 s 0)"

definition field_u64 :: "bytes \<Rightarrow> nat \<Rightarrow> u64 result" where
  "field_u64 buf a =
     and_then (sub_slice buf a 8) (\<lambda>s. from_slice_u64 BigEndian_get_u64 s 0)"

fun parse_row_value :: "column_type \<Rightarrow> bytes \<Rightarrow> row_value result" where
  "parse_row_value T_Byte buf = result_map RV_Byte (field_u8 buf 0)"
| "parse_row_value T_SByte buf = result_map RV_SByte (field_u8 buf 0)"
| "parse_row_value T_UInt16 buf = result_map RV_UInt16 (field_u16 buf 0)"
| "parse_row_value T_Int16 buf = result_map RV_Int16 (field_u16 buf 0)"
| "parse_row_value T_UInt32 buf = result_map RV_UInt32 (field_u32 buf 0)"
| "parse_row_value T_Int32 buf = result_map RV_Int32 (field_u32 buf 0)"
| "parse_row_value T_Single buf = result_map RV_Single (field_u32 buf 0)"
| "parse_row_value T_String buf = result_map RV_String (field_u32 buf 0)"
| "parse_row_value T_UInt64 buf = result_map RV_UInt64 (field_u64 buf 0)"
| "parse_row_value T_Int64 buf = result_map RV_Int64 (field_u64 buf 0)"
| "parse_row_value T_Double buf = result_map RV_Double (field_u64 buf 0)"
| "parse_row_value T_Data buf =
     and_then (field_u32 buf 0) (\<lambda>offset. and_then (field_u32 buf 4) (\<lambda>len.
       Inr (RV_Data \<lparr>dv_offset = offset, dv_length = len\<rparr>)))"
| "parse_row_value T_Guid buf =
     and_then (field_u32 buf 0) (\<lambda>a. and_then (field_u32 buf 4) (\<lambda>b.
     and_then (field_u32 buf 8) (\<lambda>c. and_then (field_u32 buf 12) (\<lambda>d.
       Inr (RV_Guid a b c d)))))"
| "parse_row_value T_Invalid buf = Inr RV_None"

section \<open>Reading columns and rows\<close>

record column =
  col_flag :: u8
  col_string_offset :: u32
  col_default :: "row_value option"

text \<open>\<open>read_exact(&mut buf[..size])\<close> into a scratch array: the bytes after \<open>size\<close> stay.\<close>

definition read_into :: "nat \<Rightarrow> bytes \<Rightarrow> stream \<Rightarrow> (bytes \<times> stream) result" where
  "read_into n buf handle =
     and_then (read_exact n handle) (\<lambda>(bs, handle'). Inr (bs @ drop n buf, handle'))"

definition read_column_name :: "u8 \<Rightarrow> stream \<Rightarrow> (u32 \<times> stream) result" where
  "read_column_name flag handle =
     (if flags_contain (get_flags flag) NAME
      then and_then (read_exact 4 handle) (\<lambda>(name_bytes, handle).
             and_then (from_slice_u32 BigEndian_get_u32 name_bytes 0) (\<lambda>n. Inr (n, handle)))
      else Inr (- 1, handle))"

definition read_column_default ::
  "u8 \<Rightarrow> stream \<Rightarrow> bytes \<Rightarrow> (row_value option \<times> stream \<times> bytes) result" where
  "read_column_default flag handle default_bytes =
     (if flags_contain (get_flags flag) DEFAULT_VALUE
      then (let ctype = get_type flag; n = unat (column_type_size ctype) in
            if n = 0 then Inl (Io InvalidData)
            else and_then (read_into n default_bytes handle) (\<lambda>(default_bytes, handle).
                   and_then (parse_row_value ctype default_bytes) (\<lambda>v.
                     Inr (Some v, handle, default_bytes))))
      else Inr (None, handle, default_bytes))"

definition read_column :: "stream \<Rightarrow> bytes \<Rightarrow> (column \<times> stream \<times> bytes) result" where
  "read_column handle default_bytes =
     and_then (read_exact 1 handle) (\<lambda>(flag_byte, handle).
     and_then (read_column_name (flag_byte ! 0) handle) (\<lambda>(string_offset, handle).
     and_then (read_column_default (flag_byte ! 0) handle default_bytes)
       (\<lambda>(default, handle, default_bytes).
         Inr (\<lparr>col_flag = flag_byte ! 0, col_string_offset = string_offset, col_default = default\<rparr>,
              handle, default_bytes))))"

fun read_columns :: "nat \<Rightarrow> stream \<Rightarrow> bytes \<Rightarrow> (column list \<times> stream) result" where
  "read_columns 0 handle default_bytes = Inr ([], handle)"
| "read_columns (Suc n) handle default_bytes =
     and_then (read_column handle default_bytes) (\<lambda>(c, handle, default_bytes).
       and_then (read_columns n handle default_bytes) (\<lambda>(cs, handle). Inr (c # cs, handle)))"

definition column_new_list :: "stream \<Rightarrow> table_header \<Rightarrow> (column list \<times> stream) result" where
  "column_new_list handle header =
     read_columns (unat (th_column_count header)) (seek_start HEADER_SIZE handle) (replicate 16 0)"

fun create_row_loop ::
  "stream \<Rightarrow> bytes \<Rightarrow> column list \<Rightarrow> (row_value list \<times> stream) result" where
  "create_row_loop handle field [] = Inr ([], handle)"
| "create_row_loop handle field (c # cs) =
     (let ctype = get_type (col_flag c) in
      if ctype = T_Invalid then Inl (Io InvalidData)
      else if \<not> flags_contain (get_flags (col_flag c)) ROW_STORAGE then
        and_then (create_row_loop handle field cs) (\<lambda>(vs, handle). Inr (RV_None # vs, handle))
      else
        and_then (read_into (unat (column_type_size ctype)) field handle) (\<lambda>(field, handle).
        and_then (parse_row_value ctype field) (\<lambda>v.
        and_then (create_row_loop handle field cs) (\<lambda>(vs, handle). Inr (v # vs, handle)))))"

definition create_row :: "stream \<Rightarrow> column list \<Rightarrow> (row_value list \<times> stream) result" where
  "create_row handle column_def = create_row_loop handle (replicate 16 0) column_def"

fun read_rows ::
  "nat list \<Rightarrow> u64 \<Rightarrow> u64 \<Rightarrow> stream \<Rightarrow> column list \<Rightarrow> (row_value list list \<times> stream) result" where
  "read_rows [] rows_offset row_size handle column_def = Inr ([], handle)"
| "read_rows (row_index # is) rows_offset row_size handle column_def =
     (case Option.bind (checked_mul (of_nat row_index) row_size)
             (\<lambda>offset. checked_add rows_offset offset) of
        None \<Rightarrow> Inl (Io InvalidData)
      | Some row_position \<Rightarrow>
          and_then (create_row (seek_start (unat row_position) handle) column_def) (\<lambda>(row, handle).
          and_then (read_rows is rows_offset row_size handle column_def) (\<lambda>(rows, handle).
            Inr (row # rows, handle))))"

definition row_new_list ::
  "stream \<Rightarrow> table_header \<Rightarrow> column list \<Rightarrow> (row_value list list \<times> stream) result" where
  "row_new_list handle header column_def =
     read_rows [0..<unat (th_row_count header)] (ucast (th_rows_offset header))
       (ucast (th_row_size header)) handle column_def"

section \<open>Encodings, and that the parsers invert them\<close>

fun value_type :: "row_value \<Rightarrow> column_type" where
  "value_type RV_None = T_Invalid"
| "value_type (RV_Byte a) = T_Byte"
| "value_type (RV_SByte a) = T_SByte"
| "value_type (RV_UInt16 a) = T_UInt16"
| "value_type (RV_Int16 a) = T_Int16"
| "value_type (RV_UInt32 a) = T_UInt32"
| "value_type (RV_Int32 a) = T_Int32"
| "value_type (RV_UInt64 a) = T_UInt64"
| "value_type (RV_Int64 a) = T_Int64"
| "value_type (RV_Single a) = T_Single"
| "value_type (RV_Double a) = T_Double"
| "value_type (RV_String a) = T_String"
| "value_type (RV_Data a) = T_Data"
| "value_type (RV_Guid a b c d) = T_Guid"

fun cell_bytes :: "row_value \<Rightarrow> bytes" where
  "cell_bytes RV_None = []"
| "cell_bytes (RV_Byte a) = [a]"
| "cell_bytes (RV_SByte a) = [a]"
| "cell_bytes (RV_UInt16 a) = to_be_bytes 2 a"
| "cell_bytes (RV_Int16 a) = to_be_bytes 2 a"
| "cell_bytes (RV_UInt32 a) = to_be_bytes 4 a"
| "cell_bytes (RV_Int32 a) = to_be_bytes 4 a"
| "cell_bytes (RV_UInt64 a) = to_be_bytes 8 a"
| "cell_bytes (RV_Int64 a) = to_be_bytes 8 a"
| "cell_bytes (RV_Single a) = to_be_bytes 4 a"
| "cell_bytes (RV_Double a) = to_be_bytes 8 a"
| "cell_bytes (RV_String a) = to_be_bytes 4 a"
| "cell_bytes (RV_Data v) = to_be_bytes 4 (dv_offset v) @ to_be_bytes 4 (dv_length v)"
| "cell_bytes (RV_Guid a b c d) =
     to_be_bytes 4 a @ to_be_bytes 4 b @ to_be_bytes 4 c @ to_be_bytes 4 d"

lemma length_cell_bytes [simp]: "length (cell_bytes v) = unat (column_type_size (value_type v))"
  by (cases v) simp_all

lemma field_stored:
  "length xs = n \<Longrightarrow> field_u16 (xs @ to_be_bytes 2 a @ ys) n = Inr a"
  "length xs = n \<Longrightarrow> field_u32 (xs @ to_be_bytes 4 b @ ys) n = Inr b"
  "length xs = n \<Longrightarrow> field_u64 (xs @ to_be_bytes 8 c @ ys) n = Inr c"
  using big.from_slice_u16_stored [of "[]" a "[]"] big.from_slice_u32_stored [of "[]" b "[]"]
    big.from_slice_u64_stored [of "[]" c "[]"]
  by (simp_all add: field_u16_def field_u32_def field_u64_def sub_slice_append)

lemma field_first:
  "field_u16 (to_be_bytes 2 a @ ys) 0 = Inr a"
  "field_u32 (to_be_bytes 4 b @ ys) 0 = Inr b"
  "field_u64 (to_be_bytes 8 c @ ys) 0 = Inr c"
  using field_stored [of "[]" 0] by simp_all

lemma field_u8_first: "field_u8 (x # ys) 0 = Inr x"
  by (simp add: field_u8_def from_slice_u8_def)

lemma parse_data_value:
  "parse_row_value T_Data (to_be_bytes 4 a @ to_be_bytes 4 b @ ys) =
     Inr (RV_Data \<lparr>dv_offset = a, dv_length = b\<rparr>)"
  using field_stored(2) [of "to_be_bytes 4 a" 4 b ys] by (simp add: field_first)

lemma parse_guid:
  "parse_row_value T_Guid (to_be_bytes 4 a @ to_be_bytes 4 b @ to_be_bytes 4 c @ to_be_bytes 4 d @ ys) =
     Inr (RV_Guid a b c d)"
  using field_stored(2) [of "to_be_bytes 4 a" 4 b "to_be_bytes 4 c @ to_be_bytes 4 d @ ys"]
    field_stored(2) [of "to_be_bytes 4 a @ to_be_bytes 4 b" 8 c "to_be_bytes 4 d @ ys"]
    field_stored(2) [of "to_be_bytes 4 a @ to_be_bytes 4 b @ to_be_bytes 4 c" 12 d ys]
  by (simp add: field_first)

text \<open>Every type's encoding is decoded to the value it encodes, whatever follows it.\<close>

lemma parse_cell_bytes: "parse_row_value (value_type v) (cell_bytes v @ ys) = Inr v"
  by (cases v)
    (simp_all add: field_first field_u8_first parse_data_value parse_guid del: parse_row_value.simps(12,13))

text \<open>Reading a cell from the scratch array gives the value that is in the stream.\<close>

lemma read_cell:
  assumes "contents handle = pre @ cell_bytes v @ post" and "position handle = length pre"
    and "length field = 16"
  shows "\<exists>field'. length field' = 16 \<and>
    read_into (unat (column_type_size (value_type v))) field handle =
      Inr (field', handle\<lparr>position := position handle + length (cell_bytes v)\<rparr>) \<and>
    parse_row_value (value_type v) field' = Inr v"
proof -
  let ?n = "unat (column_type_size (value_type v))"
  let ?f = "cell_bytes v @ drop ?n field"
  have "?n \<le> 16" by (cases v) simp_all
  with assms(3) have "length ?f = 16" by simp
  moreover have "read_into ?n field handle =
      Inr (?f, handle\<lparr>position := position handle + length (cell_bytes v)\<rparr>)"
    using assms(1,2) by (simp add: read_into_def read_exact_stored)
  moreover have "parse_row_value (value_type v) ?f = Inr v" by (rule parse_cell_bytes)
  ultimately show ?thesis by blast
qed

text \<open>A row fits its columns: a stored column holds a value of its type, any other holds none.\<close>

definition cell_fits :: "column \<Rightarrow> row_value \<Rightarrow> bool" where
  "cell_fits c v \<longleftrightarrow>
     get_type (col_flag c) \<noteq> T_Invalid \<and>
     (if flags_contain (get_flags (col_flag c)) ROW_STORAGE
      then value_type v = get_type (col_flag c) else v = RV_None)"

definition row_bytes :: "row_value list \<Rightarrow> bytes" where
  "row_bytes vs = concat (map cell_bytes vs)"

lemma row_bytes_simps [simp]:
  "row_bytes [] = []"
  "row_bytes (v # vs) = cell_bytes v @ row_bytes vs"
  "row_bytes (vs @ ws) = row_bytes vs @ row_bytes ws"
  by (simp_all add: row_bytes_def)

lemma create_row_loop_stored:
  assumes "list_all2 cell_fits cs vs" and "contents handle = pre @ row_bytes vs @ post"
    and "position handle = length pre" and "length field = 16"
  shows "create_row_loop handle field cs =
    Inr (vs, handle\<lparr>position := position handle + length (row_bytes vs)\<rparr>)"
  using assms
proof (induction cs vs arbitrary: handle pre field rule: list_all2_induct)
  case Nil
  then show ?case by simp
next
  case (Cons c cs v vs)
  show ?case
  proof (cases "flags_contain (get_flags (col_flag c)) ROW_STORAGE")
    case False
    with Cons.hyps(1) have "v = RV_None" "get_type (col_flag c) \<noteq> T_Invalid"
      by (auto simp: cell_fits_def)
    with False Cons.IH [of handle pre field] Cons.prems show ?thesis by (simp add: Let_def)
  next
    case True
    with Cons.hyps(1) have ty: "get_type (col_flag c) = value_type v" "value_type v \<noteq> T_Invalid"
      by (auto simp: cell_fits_def)
    have at: "contents handle = pre @ cell_bytes v @ row_bytes vs @ post"
      using Cons.prems(1) by simp
    from read_cell [OF at Cons.prems(2,3)] obtain field' where f: "length field' = 16"
      "read_into (unat (column_type_size (value_type v))) field handle =
         Inr (field', handle\<lparr>position := position handle + length (cell_bytes v)\<rparr>)"
      "parse_row_value (value_type v) field' = Inr v" by blast
    let ?h = "handle\<lparr>position := position handle + length (cell_bytes v)\<rparr>"
    have "create_row_loop ?h field' cs =
        Inr (vs, ?h\<lparr>position := position ?h + length (row_bytes vs)\<rparr>)"
      by (rule Cons.IH [where pre = "pre @ cell_bytes v"]) (use at Cons.prems(2) f(1) in simp_all)
    with True ty f show ?thesis by (simp add: Let_def add.assoc)
  qed
qed

lemma create_row_stored:
  assumes "list_all2 cell_fits cs vs" and "contents handle = pre @ row_bytes vs @ post"
    and "position handle = length pre"
  shows "create_row handle cs =
    Inr (vs, handle\<lparr>position := position handle + length (row_bytes vs)\<rparr>)"
  unfolding create_row_def by (rule create_row_loop_stored [OF assms]) simp

text \<open>
  The rows of a table, each padded to \<open>RowSize\<close>: the \<open>k\<close>-th starts at \<open>rows_offset + k * row_size\<close>.
\<close>

lemma read_rows_stored:
  assumes "\<And>i. i \<in> set is \<Longrightarrow> list_all2 cell_fits cs (row i) \<and>
       slice (unat rows_offset + i * unat row_size) (length (row_bytes (row i))) (contents handle)
         = row_bytes (row i) \<and>
       unat rows_offset + i * unat row_size + length (row_bytes (row i)) \<le> length (contents handle) \<and>
       i < 2 ^ 64 \<and> unat rows_offset + i * unat row_size < 2 ^ 64"
  shows "\<exists>handle'. read_rows is rows_offset row_size handle cs = Inr (map row is, handle') \<and>
    contents handle' = contents handle"
  using assms
proof (induction "is" arbitrary: handle)
  case Nil
  then show ?case by simp
next
  case (Cons i "is")
  let ?at = "unat rows_offset + i * unat row_size"
  from Cons.prems [of i] have fits: "list_all2 cell_fits cs (row i)"
    and here: "slice ?at (length (row_bytes (row i))) (contents handle) = row_bytes (row i)"
    and inside: "?at + length (row_bytes (row i)) \<le> length (contents handle)"
    and small: "i < 2 ^ 64" "?at < 2 ^ 64" by auto
  have i: "unat (of_nat i :: u64) = i" using small by (simp add: unat_of_nat_fits)
  have mul: "unat (of_nat i * row_size) = i * unat row_size"
    using small i by (subst unat_mult_fits) simp_all
  have pos: "Option.bind (checked_mul (of_nat i) row_size) (\<lambda>offset. checked_add rows_offset offset)
      = Some (rows_offset + of_nat i * row_size)"
    using small i mul by (simp add: checked_mul_def checked_add_def)
  have at: "unat (rows_offset + of_nat i * row_size) = ?at"
    using small mul by (subst unat_add_fits) simp_all
  let ?h = "seek_start ?at handle"
  have cut: "contents ?h = take ?at (contents handle) @ row_bytes (row i) @
      drop (?at + length (row_bytes (row i))) (contents handle)"
    using slice_split [of "contents handle" ?at "length (row_bytes (row i))"]
    by (simp only: here seek_simps)
  have "create_row ?h cs = Inr (row i, ?h\<lparr>position := position ?h + length (row_bytes (row i))\<rparr>)"
    by (rule create_row_stored [OF fits cut]) (use inside in simp)
  moreover obtain handle' where
    "read_rows is rows_offset row_size (?h\<lparr>position := position ?h + length (row_bytes (row i))\<rparr>) cs
       = Inr (map row is, handle')" "contents handle' = contents handle"
    using Cons.IH [of "?h\<lparr>position := position ?h + length (row_bytes (row i))\<rparr>"] Cons.prems
    by auto
  ultimately show ?case by (simp add: pos at)
qed

text \<open>Column descriptors: encoding, well-formedness and the round trip.\<close>

definition column_bytes :: "column \<Rightarrow> bytes" where
  "column_bytes c =
     [col_flag c] @
     (if flags_contain (get_flags (col_flag c)) NAME then to_be_bytes 4 (col_string_offset c) else []) @
     (case col_default c of None \<Rightarrow> [] | Some v \<Rightarrow> cell_bytes v)"

definition column_wf :: "column \<Rightarrow> bool" where
  "column_wf c \<longleftrightarrow>
     (flags_contain (get_flags (col_flag c)) NAME \<or> col_string_offset c = - 1) \<and>
     (case col_default c of
        None \<Rightarrow> \<not> flags_contain (get_flags (col_flag c)) DEFAULT_VALUE
      | Some v \<Rightarrow> flags_contain (get_flags (col_flag c)) DEFAULT_VALUE \<and>
                 value_type v = get_type (col_flag c) \<and> v \<noteq> RV_None)"

lemma size_nonzero: "v \<noteq> RV_None \<Longrightarrow> unat (column_type_size (value_type v)) \<noteq> 0"
  by (cases v) simp_all

lemma read_column_stored:
  assumes "column_wf c" and "contents handle = pre @ column_bytes c @ post"
    and "position handle = length pre" and "length buf = 16"
  shows "\<exists>buf'. length buf' = 16 \<and> read_column handle buf =
    Inr (c, handle\<lparr>position := position handle + length (column_bytes c)\<rparr>, buf')"
proof -
  let ?named = "flags_contain (get_flags (col_flag c)) NAME"
  define nm where "nm = (if ?named then to_be_bytes 4 (col_string_offset c) else [])"
  define df where "df = (case col_default c of None \<Rightarrow> [] | Some v \<Rightarrow> cell_bytes v)"
  have bytes: "contents handle = pre @ [col_flag c] @ nm @ df @ post"
    using assms(2) by (simp add: column_bytes_def nm_def df_def)
  let ?h1 = "handle\<lparr>position := length pre + 1\<rparr>"
  let ?h2 = "handle\<lparr>position := length pre + 1 + length nm\<rparr>"
  let ?h3 = "handle\<lparr>position := length pre + 1 + length nm + length df\<rparr>"
  have flag: "read_exact 1 handle = Inr ([col_flag c], ?h1)"
    using read_exact_stored [of handle pre "[col_flag c]" "nm @ df @ post" 1] bytes assms(3) by simp
  have off: "\<not> ?named \<Longrightarrow> col_string_offset c = - 1"
    using assms(1) by (auto simp: column_wf_def)
  have name: "read_column_name (col_flag c) ?h1 = Inr (col_string_offset c, ?h2)"
  proof (cases ?named)
    case True
    have "read_exact 4 ?h1 = Inr (nm, ?h2)"
      by (subst read_exact_stored [where xs = "pre @ [col_flag c]" and ys = nm and zs = "df @ post"])
        (simp_all add: bytes, simp_all add: nm_def True)
    with True big.from_slice_u32_stored [of "[]" "col_string_offset c" "[]"] show ?thesis
      by (simp add: nm_def read_column_name_def)
  next
    case False
    with off show ?thesis by (simp add: nm_def read_column_name_def)
  qed
  obtain buf' where dflt: "read_column_default (col_flag c) ?h2 buf = Inr (col_default c, ?h3, buf')"
    and buf': "length buf' = 16"
  proof (cases "col_default c")
    case None
    with assms(1,4) that [of buf] show thesis
      by (auto simp: column_wf_def df_def read_column_default_def)
  next
    case (Some v)
    with assms(1) have v: "flags_contain (get_flags (col_flag c)) DEFAULT_VALUE"
      "get_type (col_flag c) = value_type v" "v \<noteq> RV_None" by (auto simp: column_wf_def)
    have "contents ?h2 = (pre @ [col_flag c] @ nm) @ cell_bytes v @ post"
      using bytes Some by (simp add: df_def)
    from read_cell [OF this _ assms(4)] obtain f where "length f = 16"
      "read_into (unat (column_type_size (value_type v))) buf ?h2 = Inr (f, ?h3)"
      "parse_row_value (value_type v) f = Inr v"
      using Some by (auto simp: df_def)
    with v Some size_nonzero [OF v(3)] that [of f] show thesis
      by (simp add: Let_def read_column_default_def)
  qed
  have "length (column_bytes c) = 1 + length nm + length df"
    by (simp add: column_bytes_def nm_def df_def)
  then have h3: "handle\<lparr>position := position handle + length (column_bytes c)\<rparr> = ?h3"
    using assms(3) by (simp add: add.assoc)
  have "read_column handle buf = Inr (c, ?h3, buf')"
    by (simp only: read_column_def flag and_then_simps prod.case nth_Cons_0 name dflt) simp
  with buf' h3 show ?thesis by auto
qed

lemma read_columns_stored:
  assumes "\<forall>c \<in> set cs. column_wf c" and "contents handle = pre @ concat (map column_bytes cs) @ post"
    and "position handle = length pre" and "length buf = 16"
  shows "read_columns (length cs) handle buf =
    Inr (cs, handle\<lparr>position := length pre + length (concat (map column_bytes cs))\<rparr>)"
  using assms
proof (induction cs arbitrary: handle pre buf)
  case Nil
  then show ?case by simp
next
  case (Cons c cs)
  have at: "contents handle = pre @ column_bytes c @ concat (map column_bytes cs) @ post"
    using Cons.prems(2) by simp
  from read_column_stored [OF _ at Cons.prems(3,4)] Cons.prems(1) obtain buf' where
    "length buf' = 16" "read_column handle buf =
      Inr (c, handle\<lparr>position := position handle + length (column_bytes c)\<rparr>, buf')" by auto
  with Cons.IH [of "handle\<lparr>position := position handle + length (column_bytes c)\<rparr>"
      "pre @ column_bytes c" buf'] at Cons.prems show ?case
    by (simp add: add.assoc)
qed

lemma column_new_list_stored:
  assumes "\<forall>c \<in> set cs. column_wf c" and "unat (th_column_count header) = length cs"
    and "contents handle = hdr @ concat (map column_bytes cs) @ post" and "length hdr = HEADER_SIZE"
  shows "column_new_list handle header =
    Inr (cs, handle\<lparr>position := HEADER_SIZE + length (concat (map column_bytes cs))\<rparr>)"
  unfolding column_new_list_def assms(2)
  by (subst read_columns_stored [where pre = hdr and post = post and cs = cs])
    (use assms in \<open>simp_all add: seek_start_def\<close>)

section \<open>No input makes the parsers panic\<close>

lemma no_panic_fields [no_panic_intros]:
  "a < length buf \<Longrightarrow> no_panic (field_u8 buf a)"
  "a + 2 \<le> length buf \<Longrightarrow> no_panic (field_u16 buf a)"
  "a + 4 \<le> length buf \<Longrightarrow> no_panic (field_u32 buf a)"
  "a + 8 \<le> length buf \<Longrightarrow> no_panic (field_u64 buf a)"
  by (simp_all add: field_u8_def field_u16_def field_u32_def field_u64_def from_slice_defs
      sub_slice_def)

lemma no_panic_parse_row_value [no_panic_intros]:
  "length buf = 16 \<Longrightarrow> no_panic (parse_row_value ctype buf)"
  by (cases ctype) (auto intro!: no_panic_intros)

lemma read_into_length: "read_into n buf handle = Inr (buf', handle') \<Longrightarrow> n \<le> length buf \<Longrightarrow> length buf' = length buf"
  by (auto simp: read_into_def result_iff split: prod.splits)

lemma no_panic_read_into [no_panic_intros]: "no_panic (read_into n buf handle)"
  unfolding read_into_def by (auto intro!: no_panic_intros)

lemma column_type_size_le: "unat (column_type_size ctype) \<le> 16"
  by (cases ctype) simp_all

lemma no_panic_read_column_name [no_panic_intros]: "no_panic (read_column_name flag handle)"
  unfolding read_column_name_def
  by (auto intro!: no_panic_intros simp: from_slice_defs sub_slice_def result_iff)

lemma read_column_default_safe:
  assumes "length buf = 16"
  shows "no_panic (read_column_default flag handle buf)"
    and "read_column_default flag handle buf = Inr (d, handle', buf') \<Longrightarrow> length buf' = 16"
  using assms column_type_size_le
  by (auto simp: read_column_default_def Let_def result_iff split: if_splits
      dest!: read_into_length intro!: no_panic_intros)

lemma read_column_safe:
  assumes "length buf = 16"
  shows "no_panic (read_column handle buf)"
    and "read_column handle buf = Inr (c, handle', buf') \<Longrightarrow> length buf' = 16"
  using read_column_default_safe [OF assms]
  by (auto simp: read_column_def result_iff intro!: no_panic_intros)

lemma no_panic_read_columns: "length buf = 16 \<Longrightarrow> no_panic (read_columns n handle buf)"
  by (induction n arbitrary: handle buf)
    (auto intro!: no_panic_intros dest: read_column_safe(2) simp: read_column_safe(1))

lemma no_panic_column_new_list [no_panic_intros]: "no_panic (column_new_list handle header)"
  by (simp add: column_new_list_def no_panic_read_columns)

lemma no_panic_create_row_loop: "length field = 16 \<Longrightarrow> no_panic (create_row_loop handle field cs)"
proof (induction cs arbitrary: handle field)
  case Nil
  then show ?case by simp
next
  case (Cons c cs)
  then show ?case
    using column_type_size_le [of "get_type (col_flag c)"]
    by (auto simp: Let_def intro!: no_panic_intros dest!: read_into_length)
qed

lemma no_panic_create_row [no_panic_intros]: "no_panic (create_row handle cs)"
  by (simp add: create_row_def no_panic_create_row_loop)

lemma no_panic_read_rows: "no_panic (read_rows is rows_offset row_size handle cs)"
  by (induction "is" arbitrary: handle) (auto split: option.split intro!: no_panic_intros)

lemma no_panic_row_new_list [no_panic_intros]: "no_panic (row_new_list handle header cs)"
  by (simp add: row_new_list_def no_panic_read_rows)

text \<open>Every row has one value per column, and there are as many rows as the header says.\<close>

lemma create_row_loop_length: "create_row_loop handle field cs = Inr (vs, handle') \<Longrightarrow> length vs = length cs"
  by (induction cs arbitrary: handle field vs handle') (auto simp: Let_def result_iff split: if_splits)

lemma read_rows_shape:
  "read_rows is rows_offset row_size handle cs = Inr (rows, handle') \<Longrightarrow>
   length rows = length is \<and> (\<forall>r \<in> set rows. length r = length cs)"
  by (induction "is" arbitrary: handle rows handle')
    (fastforce simp: result_iff create_row_def dest: create_row_loop_length split: option.splits)+

end
