(* ===== verification/Table_Cipher.thy ===== *)
theory Table_Cipher
  imports Table_Rows
begin

text \<open>
  \<open>cpk/encrypt/table.rs\<close> and \<open>decrypt_utf_scalar\<close> of \<open>cpk/header.rs\<close>: the XOR stream cipher of
  \<open>@UTF\<close> table chunks.  The key starts at \<open>0x5f\<close> and is multiplied by \<open>0x15\<close> after every byte.
\<close>

definition ENCRYPTED_PREFIX :: bytes where
  "ENCRYPTED_PREFIX = [0x1f, 0x9e, 0xf3, 0xf5]"

definition starts_with :: "bytes \<Rightarrow> bytes \<Rightarrow> bool" where
  "starts_with bs prefix \<longleftrightarrow> take (length prefix) bs = prefix"

definition UTF_MAGIC :: bytes where
  "UTF_MAGIC = ascii ''@UTF''"

definition is_encrypted :: "bytes \<Rightarrow> bool" where
  "is_encrypted bs \<longleftrightarrow> starts_with bs ENCRYPTED_PREFIX"

fun decrypt_loop :: "u8 \<Rightarrow> bytes \<Rightarrow> bytes" where
  "decrypt_loop key [] = []"
| "decrypt_loop key (byte # input) = (byte XOR key) # decrypt_loop (key * 0x15) input"

definition decrypt_utf_in_place :: "bytes \<Rightarrow> bytes" where
  "decrypt_utf_in_place input = decrypt_loop 0x5f input"

definition decrypt_utf :: "bytes \<Rightarrow> bytes" where
  "decrypt_utf input = decrypt_utf_in_place input"

text \<open>The second copy of the loop, private to \<open>cpk/header.rs\<close>.\<close>

fun decrypt_scalar_loop :: "u8 \<Rightarrow> bytes \<Rightarrow> bytes" where
  "decrypt_scalar_loop key [] = []"
| "decrypt_scalar_loop key (byte # input) = (byte XOR key) # decrypt_scalar_loop (key * 0x15) input"

definition decrypt_utf_scalar :: "bytes \<Rightarrow> bytes" where
  "decrypt_utf_scalar input = decrypt_scalar_loop 0x5f input"

section \<open>The key stream\<close>

definition key_at :: "nat \<Rightarrow> u8" where
  "key_at i = 0x5f * 0x15 ^ i"

lemma length_decrypt_loop [simp]: "length (decrypt_loop key input) = length input"
  by (induction input arbitrary: key) auto

lemma nth_decrypt_loop:
  "i < length input \<Longrightarrow> decrypt_loop key input ! i = input ! i XOR (key * 0x15 ^ i)"
  by (induction input arbitrary: key i) (auto simp: nth_Cons mult.assoc split: nat.splits)

lemma decrypt_loop_involution [simp]: "decrypt_loop key (decrypt_loop key input) = input"
  by (induction input arbitrary: key) (auto simp: xor.assoc)

lemma decrypt_loop_scalar: "decrypt_scalar_loop key input = decrypt_loop key input"
  by (induction input arbitrary: key) auto

lemma take_decrypt_loop: "take n (decrypt_loop key input) = decrypt_loop key (take n input)"
  by (induction input arbitrary: key n) (auto simp: take_Cons split: nat.splits)

lemma decrypt_utf_scalar_eq: "decrypt_utf_scalar input = decrypt_utf_in_place input"
  by (simp add: decrypt_utf_scalar_def decrypt_utf_in_place_def decrypt_loop_scalar)

lemma length_decrypt_utf [simp]: "length (decrypt_utf_in_place input) = length input"
  by (simp add: decrypt_utf_in_place_def)

lemma decrypt_utf_involution [simp]: "decrypt_utf_in_place (decrypt_utf_in_place input) = input"
  by (simp add: decrypt_utf_in_place_def)

lemma key_at_period: "key_at (i + 64) = key_at i"
proof -
  have one: "(0x15 :: u8) ^ 64 = 1" by simp
  show ?thesis unfolding key_at_def power_add one by simp
qed

lemma decrypt_magic: "decrypt_loop 0x5f ENCRYPTED_PREFIX = UTF_MAGIC"
  by (simp add: ENCRYPTED_PREFIX_def UTF_MAGIC_def ascii_def)

text \<open>
  The prefix test recognises exactly the ciphertexts of tables: bytes look encrypted if and only
  if decrypting them gives something that starts with the table magic.
\<close>

lemma is_encrypted_iff: "is_encrypted bs \<longleftrightarrow> starts_with (decrypt_utf_in_place bs) UTF_MAGIC"
proof -
  have len: "length ENCRYPTED_PREFIX = 4" "length UTF_MAGIC = 4"
    by (simp_all add: ENCRYPTED_PREFIX_def UTF_MAGIC_def)
  have "take 4 bs = ENCRYPTED_PREFIX \<longleftrightarrow> decrypt_loop 0x5f (take 4 bs) = UTF_MAGIC"
    by (metis decrypt_loop_involution decrypt_magic)
  then show ?thesis
    by (simp add: is_encrypted_def starts_with_def decrypt_utf_in_place_def len take_decrypt_loop)
qed

end
