(* ===== verification/Chunk_Container.thy ===== *)
theory Chunk_Container
  imports Table_Cipher
begin

text \<open>
  The first half of \<open>cpk/header.rs\<close>: the 16 byte chunk header (magic, encryption marker, little
  endian table length) and \<open>TableContainer::new\<close>, which checks the declared length against the
  platform, the engine's header area and the bytes left in the stream before it reads the table,
  decrypts it when byte 4 is zero and insists on the table magic.
\<close>

definition CPK_CHUNK_HEADER_SIZE :: nat where "CPK_CHUNK_HEADER_SIZE = 0x10"

datatype cpk_chunk_kind = Cpk | Toc | Itoc | Etoc | Gtoc | Unknown bytes

definition chunk_kind_from_magic :: "bytes \<Rightarrow> cpk_chunk_kind" where
  "chunk_kind_from_magic magic =
     (if magic = ascii ''CPK '' then Cpk
      else if magic = ascii ''TOC '' then Toc
      else if magic = ascii ''ITOC'' then Itoc
      else if magic = ascii ''ETOC'' then Etoc
      else if magic = ascii ''GTOC'' then Gtoc
      else Unknown magic)"

fun chunk_magic :: "cpk_chunk_kind \<Rightarrow> bytes" where
  "chunk_magic Cpk = ascii ''CPK ''"
| "chunk_magic Toc = ascii ''TOC ''"
| "chunk_magic Itoc = ascii ''ITOC''"
| "chunk_magic Etoc = ascii ''ETOC''"
| "chunk_magic Gtoc = ascii ''GTOC''"
| "chunk_magic (Unknown magic) = magic"

record table_container =
  tc_kind :: cpk_chunk_kind
  tc_table :: bytes

text \<open>\<open>usize::try_from(u64)\<close> on a 64-bit target.\<close>

definition usize_try_from_u64 :: "u64 \<Rightarrow> nat option" where
  "usize_try_from_u64 x = (if unat x < 2 ^ 64 then Some (unat x) else None)"

definition table_container_new :: "stream \<Rightarrow> (table_container \<times> stream) result" where
  "table_container_new stream =
     and_then (read_exact CPK_CHUNK_HEADER_SIZE stream) (\<lambda>(chunk_header, stream).
     let kind = chunk_kind_from_magic (slice 0 4 chunk_header);
         table_size_u64 = LittleEndian_get_u64 (slice 8 8 chunk_header)
     in
     and_then (ok_or (CpkTableError TableTooLarge) (usize_try_from_u64 table_size_u64)) (\<lambda>table_size.
     if table_size < HEADER_SIZE then Inl (CpkTableError InvalidTableSize)
     else if kind = Cpk \<and>
       (case checked_add table_size_u64 (of_nat CPK_CHUNK_HEADER_SIZE) of
          None \<Rightarrow> True | Some n \<Rightarrow> n > 0x800)
     then Inl (CpkTableError HeaderAreaExceeded)
     else
       let table_start = position stream;
           stream_end = position (seek_end stream);
           stream = seek_start table_start (seek_end stream);
           remaining = stream_end - table_start
       in
       if unat table_size_u64 > remaining then Inl (CpkTableError TruncatedChunk)
       else
         and_then (read_exact table_size stream) (\<lambda>(table, stream).
         let table = (if chunk_header ! 4 = 0 then decrypt_utf_scalar table else table) in
         if \<not> starts_with table UTF_MAGIC then Inl (CpkTableError NotAUtfTable)
         else Inr (\<lparr>tc_kind = kind, tc_table = table\<rparr>, stream))))"

section \<open>Chunk kinds\<close>

lemma length_chunk_magic: "(\<And>m. kind = Unknown m \<Longrightarrow> length m = 4) \<Longrightarrow> length (chunk_magic kind) = 4"
  by (cases kind) auto

lemma magic_of_kind: "chunk_magic (chunk_kind_from_magic m) = m"
  by (simp add: chunk_kind_from_magic_def)

lemma kind_of_magic: "(\<And>m. kind \<noteq> Unknown m) \<Longrightarrow> chunk_kind_from_magic (chunk_magic kind) = kind"
  by (cases kind) (simp_all add: chunk_kind_from_magic_def ascii_def)

section \<open>Reading a chunk\<close>

lemma usize_try_from_u64_eq [simp]: "usize_try_from_u64 x = Some (unat x)"
  using unsigned_less [of x] by (simp add: usize_try_from_u64_def)

text \<open>The layout of a chunk in memory, for either value of the encryption marker.\<close>

definition chunk_layout :: "cpk_chunk_kind \<Rightarrow> u8 \<Rightarrow> bytes \<Rightarrow> bytes \<Rightarrow> bytes" where
  "chunk_layout kind marker reserved body =
     chunk_magic kind @ [marker] @ reserved @ to_le_bytes 8 (of_nat (length body) :: u64) @ body"

definition header_area_ok :: "cpk_chunk_kind \<Rightarrow> bytes \<Rightarrow> bool" where
  "header_area_ok kind body \<longleftrightarrow> (kind = Cpk \<longrightarrow> length body + CPK_CHUNK_HEADER_SIZE \<le> 0x800)"

lemma table_container_new_stored:
  assumes kind: "\<And>m. kind \<noteq> Unknown m" and res: "length reserved = 3"
    and size: "HEADER_SIZE \<le> length body" "length body < 2 ^ 64" and area: "header_area_ok kind body"
    and plain: "table = (if marker = 0 then decrypt_utf_in_place body else body)"
    and magic: "starts_with table UTF_MAGIC"
    and at: "contents stream = pre @ chunk_layout kind marker reserved body @ post"
      "position stream = length pre"
  shows "table_container_new stream =
    Inr (\<lparr>tc_kind = kind, tc_table = table\<rparr>,
         stream\<lparr>position := length pre + CPK_CHUNK_HEADER_SIZE + length body\<rparr>)"
proof -
  let ?len = "of_nat (length body) :: u64"
  let ?hd = "chunk_magic kind @ [marker] @ reserved @ to_le_bytes 8 ?len"
  let ?s1 = "stream\<lparr>position := length pre + 16\<rparr>"
  have mlen: "length (chunk_magic kind) = 4" using kind by (intro length_chunk_magic) auto
  then have hlen: "length ?hd = 16" using res by simp
  have bytes: "contents stream = pre @ ?hd @ body @ post" using at by (simp add: chunk_layout_def)
  have hd: "read_exact CPK_CHUNK_HEADER_SIZE stream = Inr (?hd, ?s1)"
    using read_exact_stored [OF bytes at(2), of 16] hlen at(2) by (simp add: CPK_CHUNK_HEADER_SIZE_def)
  have k: "chunk_kind_from_magic (slice 0 4 ?hd) = kind"
    using mlen kind by (simp add: slice_prefix kind_of_magic)
  have sz: "LittleEndian_get_u64 (slice 8 8 ?hd) = ?len"
    using mlen res little.get_put_u64 [of ?len] by (simp add: slice_append_skip slice_def)
  have usz: "unat ?len = length body" using size(2) by (simp add: unat_of_nat_fits)
  have fits: "\<not> (kind = Cpk \<and> (case checked_add ?len (of_nat CPK_CHUNK_HEADER_SIZE) of
      None \<Rightarrow> True | Some n \<Rightarrow> n > 0x800))"
  proof
    assume A: "kind = Cpk \<and> (case checked_add ?len (of_nat CPK_CHUNK_HEADER_SIZE) of
      None \<Rightarrow> True | Some n \<Rightarrow> n > 0x800)"
    with area have "length body + 16 \<le> 0x800" by (simp add: header_area_ok_def CPK_CHUNK_HEADER_SIZE_def)
    moreover from this usz have "unat (?len + 0x10) = length body + 16"
      by (subst unat_add_fits) simp_all
    ultimately show False using A usz
      by (simp add: checked_add_def CPK_CHUNK_HEADER_SIZE_def word_less_nat_alt)
  qed
  have body: "read_exact (length body) (seek_start (position ?s1) (seek_end ?s1)) =
      Inr (body, stream\<lparr>position := length pre + 16 + length body\<rparr>)"
    using read_exact_stored [of "seek_start (position ?s1) (seek_end ?s1)" "pre @ ?hd" body post]
      bytes hlen by (simp add: seek_start_def seek_end_def)
  have m: "?hd ! 4 = marker" using mlen by (simp add: nth_append)
  have rem: "\<not> unat ?len > position (seek_end ?s1) - position ?s1"
    using bytes hlen usz by simp
  show ?thesis
    unfolding table_container_new_def hd
    using size(1) fits rem plain magic
    by (simp only: and_then_simps prod.case Let_def k sz usize_try_from_u64_eq ok_or_simps usz
        not_less [symmetric] if_False body m decrypt_utf_scalar_eq not_not if_True simp_thms
        CPK_CHUNK_HEADER_SIZE_def split: if_splits)
qed

lemma no_panic_table_container_new [no_panic_intros]: "no_panic (table_container_new stream)"
  unfolding table_container_new_def
  by (auto simp: Let_def simp del: usize_try_from_u64_eq intro!: no_panic_intros)

text \<open>What every accepted chunk satisfies, whatever the stream holds.\<close>

lemma table_container_new_sound:
  assumes "table_container_new stream = Inr (c, stream')"
  shows "starts_with (tc_table c) UTF_MAGIC \<and> HEADER_SIZE \<le> length (tc_table c) \<and>
    (tc_kind c = Cpk \<longrightarrow> length (tc_table c) + CPK_CHUNK_HEADER_SIZE \<le> 0x800) \<and>
    position stream' \<le> length (contents stream) \<and> contents stream' = contents stream"
proof -
  have big: "unat n \<le> 0x800" if "checked_add w (of_nat CPK_CHUNK_HEADER_SIZE) = Some n" "\<not> n > 0x800"
    for w n :: u64
    using that by (simp add: not_less word_le_nat_alt)
  show ?thesis
    using assms
    unfolding table_container_new_def
    by (auto simp: Let_def result_iff decrypt_utf_scalar_eq CPK_CHUNK_HEADER_SIZE_def word_le_nat_alt
        not_less unat_add_fits checked_add_def split: if_splits option.splits)
qed

end
