(* ===== verification/High_Table.thy ===== *)
theory High_Table
  imports Chunk_Container
begin

text \<open>
  The second half of \<open>cpk/header.rs\<close>: \<open>HighTable\<close>, a fully parsed \<open>@UTF\<close> table.  Its constructor
  validates the section offsets of the header against the buffer before anything is indexed, then
  reads columns, rows and strings.  The accessors look a value up by row and column, falling back
  to the column's default, and convert it to a number, a string or a byte range.
\<close>

record high_table =
  ht_alloc :: bytes
  ht_header :: table_header
  ht_columns :: "column list"
  ht_strings :: StringPoolFast
  ht_rows :: "row_value list list"

text \<open>\<open>try_fold(0usize, |total, column| total.checked_add(size))\<close> over the row-stored columns.\<close>

fun checked_sum :: "nat \<Rightarrow> nat list \<Rightarrow> nat option" where
  "checked_sum acc [] = Some acc"
| "checked_sum acc (n # ns) =
     (case usize_checked_add acc n of None \<Rightarrow> None | Some t \<Rightarrow> checked_sum t ns)"

definition row_stored :: "column \<Rightarrow> bool" where
  "row_stored c \<longleftrightarrow> flags_contain (get_flags (col_flag c)) ROW_STORAGE"

definition stored_sizes :: "column list \<Rightarrow> nat list" where
  "stored_sizes cs = map (\<lambda>c. unat (column_type_size (get_type (col_flag c)))) (filter row_stored cs)"

definition high_table_new :: "(bytes \<Rightarrow> rust_string) \<Rightarrow> bytes \<Rightarrow> high_table result" where
  "high_table_new sjis alloc =
     (if length alloc < HEADER_SIZE \<or> \<not> starts_with alloc UTF_MAGIC
      then Inl (CpkTableError InvalidUtfTable) else
      let header = table_header_new alloc in
      and_then (ok_or (CpkTableError UtfSizeOverflow) (usize_checked_add (unat (th_size header)) 8))
        (\<lambda>declared_size.
      if declared_size > length alloc then Inl (CpkTableError TruncatedUtfTable) else
      let rows_start = unat (th_rows_offset header);
          string_start = unat (th_string_pool_offset header);
          data_start = unat (th_data_pool_offset header)
      in
      if rows_start < HEADER_SIZE \<or> rows_start > string_start \<or> string_start > data_start \<or>
         data_start > declared_size
      then Inl (CpkTableError InvalidSectionOffsets) else
      and_then (ok_or (CpkTableError RowSizeOverflow)
          (usize_checked_mul (unat (th_row_size header)) (unat (th_row_count header)))) (\<lambda>rows_bytes.
      and_then (ok_or (CpkTableError RowOffsetOverflow)
          (usize_checked_add rows_start rows_bytes)) (\<lambda>rows_end.
      if rows_end > string_start then Inl (CpkTableError RowsOverlapStrings) else
      let alloc = (if declared_size < length alloc then take declared_size alloc else alloc);
          cursor = \<lparr>contents = alloc, position = 0\<rparr>
      in
      and_then (column_new_list cursor header) (\<lambda>(columns, cursor).
      if position cursor > rows_start then Inl (CpkTableError ColumnsOverlapRows) else
      and_then (ok_or (CpkTableError RowSchemaOverflow) (checked_sum 0 (stored_sizes columns)))
        (\<lambda>row_width.
      if row_width > unat (th_row_size header) then Inl (CpkTableError RowSchemaExceedsRowSize) else
      and_then (row_new_list cursor header columns) (\<lambda>(rows, cursor).
      and_then (sub_slice alloc string_start (data_start - string_start)) (\<lambda>pool.
      and_then (StringPoolFast_new_borrowed sjis pool header) (\<lambda>strings.
        Inr \<lparr>ht_alloc = alloc, ht_header = header, ht_columns = columns, ht_strings = strings,
             ht_rows = rows\<rparr>)))))))))"

section \<open>Accessors\<close>

fun find_position :: "('a \<Rightarrow> bool) \<Rightarrow> 'a list \<Rightarrow> nat option" where
  "find_position p [] = None"
| "find_position p (x # xs) = (if p x then Some 0 else map_option Suc (find_position p xs))"

definition nth_option :: "'a list \<Rightarrow> nat \<Rightarrow> 'a option" where
  "nth_option xs i = (if i < length xs then Some (xs ! i) else None)"

definition column_index :: "high_table \<Rightarrow> string \<Rightarrow> nat option" where
  "column_index t name =
     find_position
       (\<lambda>c. StringPoolFast_get_string (ht_strings t) (col_string_offset c) = Some (ascii name))
       (ht_columns t)"

definition ht_value :: "high_table \<Rightarrow> nat \<Rightarrow> nat \<Rightarrow> row_value option" where
  "ht_value t row_index column =
     Option.bind (nth_option (ht_rows t) row_index) (\<lambda>row.
     Option.bind (nth_option row column) (\<lambda>value.
       if value = RV_None
       then Option.bind (nth_option (ht_columns t) column) col_default
       else Some value))"

definition value_by_name :: "high_table \<Rightarrow> nat \<Rightarrow> string \<Rightarrow> row_value option" where
  "value_by_name t row_index name =
     Option.bind (column_index t name) (\<lambda>index. ht_value t row_index index)"

fun row_value_to_u64 :: "row_value \<Rightarrow> u64 option" where
  "row_value_to_u64 (RV_Byte v) = Some (ucast v)"
| "row_value_to_u64 (RV_SByte v) = (if 0 \<le> sint v then Some (ucast v) else None)"
| "row_value_to_u64 (RV_UInt16 v) = Some (ucast v)"
| "row_value_to_u64 (RV_Int16 v) = (if 0 \<le> sint v then Some (ucast v) else None)"
| "row_value_to_u64 (RV_UInt32 v) = Some (ucast v)"
| "row_value_to_u64 (RV_Int32 v) = (if 0 \<le> sint v then Some (ucast v) else None)"
| "row_value_to_u64 (RV_UInt64 v) = Some v"
| "row_value_to_u64 (RV_Int64 v) = (if 0 \<le> sint v then Some v else None)"
| "row_value_to_u64 _ = None"

definition u64_by_name :: "high_table \<Rightarrow> nat \<Rightarrow> string \<Rightarrow> u64 option" where
  "u64_by_name t row_index name = Option.bind (value_by_name t row_index name) row_value_to_u64"

definition ht_data :: "high_table \<Rightarrow> data_value \<Rightarrow> bytes option" where
  "ht_data t value =
     Option.bind (usize_checked_add (unat (th_data_pool_offset (ht_header t))) (unat (dv_offset value)))
       (\<lambda>start.
     Option.bind (usize_checked_add start (unat (dv_length value))) (\<lambda>end'.
       if end' \<le> length (ht_alloc t) then Some (slice start (end' - start) (ht_alloc t)) else None))"

definition data_by_name :: "high_table \<Rightarrow> nat \<Rightarrow> string \<Rightarrow> bytes option" where
  "data_by_name t row_index name =
     Option.bind (value_by_name t row_index name) (\<lambda>v.
       case v of RV_Data value \<Rightarrow> if data_value_is_none value then None else ht_data t value
       | _ \<Rightarrow> None)"

section \<open>What a parsed table guarantees\<close>

definition high_table_wf :: "high_table \<Rightarrow> bool" where
  "high_table_wf t \<longleftrightarrow>
     header_wf (ht_header t) \<and>
     HEADER_SIZE \<le> unat (th_rows_offset (ht_header t)) \<and>
     unat (th_rows_offset (ht_header t)) + unat (th_row_size (ht_header t)) * unat (th_row_count (ht_header t))
       \<le> unat (th_string_pool_offset (ht_header t)) \<and>
     unat (th_string_pool_offset (ht_header t)) \<le> unat (th_data_pool_offset (ht_header t)) \<and>
     unat (th_data_pool_offset (ht_header t)) \<le> length (ht_alloc t) \<and>
     length (ht_alloc t) = unat (th_size (ht_header t)) + 8 \<and>
     sum_list (stored_sizes (ht_columns t)) \<le> unat (th_row_size (ht_header t)) \<and>
     length (ht_rows t) = unat (th_row_count (ht_header t)) \<and>
     (\<forall>r \<in> set (ht_rows t). length r = length (ht_columns t))"

lemma checked_sum_Some: "checked_sum acc ns = Some t \<Longrightarrow> t = acc + sum_list ns"
  by (induction ns arbitrary: acc) (fastforce simp: result_iff split: option.splits)+

lemma checked_sum_small: "acc + sum_list ns < 2 ^ 64 \<Longrightarrow> checked_sum acc ns = Some (acc + sum_list ns)"
  by (induction ns arbitrary: acc) (auto simp: usize_checked_add_def)

lemma high_table_new_wf:
  assumes "high_table_new sjis alloc = Inr t"
  shows "high_table_wf t"
  using assms table_header_new_wf [of alloc]
  unfolding high_table_new_def high_table_wf_def row_new_list_def
  by (auto simp: Let_def result_iff not_less min_def
      dest!: checked_sum_Some read_rows_shape split: if_splits)

lemma no_panic_sub_slice [no_panic_intros]: "off + n \<le> length bs \<Longrightarrow> no_panic (sub_slice bs off n)"
  by (simp add: sub_slice_def)

lemma no_panic_pool_new_borrowed [no_panic_intros]:
  "no_panic (StringPoolFast_new_borrowed sjis pool header)"
  unfolding StringPoolFast_new_borrowed_def by (auto intro!: no_panic_intros)

lemma no_panic_high_table_new [no_panic_intros]: "no_panic (high_table_new sjis alloc)"
  unfolding high_table_new_def
  by (auto simp: Let_def result_iff not_less intro!: no_panic_intros)

text \<open>The byte range of a data value lies inside the table's own buffer.\<close>

lemma ht_data_range:
  "ht_data t v = Some bs \<Longrightarrow>
   length bs = unat (dv_length v) \<and>
   unat (th_data_pool_offset (ht_header t)) + unat (dv_offset v) + unat (dv_length v) \<le> length (ht_alloc t)"
  by (auto simp: ht_data_def result_iff bind_eq_Some_conv split: if_splits)

lemma find_position_Some:
  "find_position p xs = Some i \<longleftrightarrow> i < length xs \<and> p (xs ! i) \<and> (\<forall>j < i. \<not> p (xs ! j))"
proof (induction xs arbitrary: i)
  case Nil
  then show ?case by simp
next
  case (Cons x xs)
  show ?case
    by (cases i) (auto simp: Cons nth_Cons less_Suc_eq_0_disj split: nat.splits)
qed

lemma find_position_None: "find_position p xs = None \<longleftrightarrow> (\<forall>x \<in> set xs. \<not> p x)"
  by (induction xs) auto

lemma nth_option_simps [simp]: "i < length xs \<Longrightarrow> nth_option xs i = Some (xs ! i)"
  by (simp add: nth_option_def)

text \<open>A conversion keeps the number: negative values of the signed types have none.\<close>

lemma sint_nonneg: "0 \<le> sint w \<Longrightarrow> uint w = sint w" for w :: "'a::len word"
proof -
  assume nonneg: "0 \<le> sint w"
  have eq: "sint w = uint w - 2 ^ LENGTH('a) * of_bool (bit (uint w) (LENGTH('a) - 1))"
    by (simp add: sint_uint signed_take_bit_eq_take_bit_minus take_bit_int_eq_self)
  have "\<not> bit (uint w) (LENGTH('a) - 1)"
  proof
    assume "bit (uint w) (LENGTH('a) - 1)"
    with eq have "sint w = uint w - 2 ^ LENGTH('a)" by simp
    with nonneg uint_lt2p [of w] show False by linarith
  qed
  with eq show ?thesis by simp
qed

lemma uint_ucast_wide:
  "LENGTH('a) \<le> LENGTH('b) \<Longrightarrow> uint (ucast w :: 'b::len word) = uint w" for w :: "'a::len word"
  by (simp add: unsigned_ucast_eq take_bit_int_eq_self_iff order_less_le_trans [OF uint_lt2p])

fun numeric_value :: "row_value \<Rightarrow> int option" where
  "numeric_value (RV_Byte v) = Some (uint v)"
| "numeric_value (RV_SByte v) = Some (sint v)"
| "numeric_value (RV_UInt16 v) = Some (uint v)"
| "numeric_value (RV_Int16 v) = Some (sint v)"
| "numeric_value (RV_UInt32 v) = Some (uint v)"
| "numeric_value (RV_Int32 v) = Some (sint v)"
| "numeric_value (RV_UInt64 v) = Some (uint v)"
| "numeric_value (RV_Int64 v) = Some (sint v)"
| "numeric_value _ = None"

lemma row_value_to_u64_numeric:
  "row_value_to_u64 v = Some n \<longleftrightarrow> (\<exists>i. numeric_value v = Some i \<and> 0 \<le> i \<and> uint n = i)"
  by (cases v)
    (auto simp: uint_ucast_wide sint_nonneg word_uint_eq_iff split: if_splits)

section \<open>Reading a laid out table\<close>

text \<open>Rows of one size after each other are read back in turn, wherever the stream stands.\<close>

lemma read_rows_laid_out:
  fixes start width :: u64
  assumes at: "contents s = pre @ concat (map row_bytes rvs) @ post" "length pre = unat start"
    and rvs: "\<forall>r \<in> set rvs. list_all2 cell_fits cs r \<and> length (row_bytes r) = unat width"
    and small: "length (contents s) < 2 ^ 64" "length rvs < 2 ^ 64"
  shows "\<exists>s'. read_rows [0..<length rvs] start width s cs = Inr (rvs, s')"
proof -
  let ?n = "unat width" and ?rb = "concat (map row_bytes rvs)"
  have rb: "length ?rb = length rvs * ?n" using rvs by (subst length_concat_uniform [where n = ?n]) auto
  have "\<exists>s'. read_rows [0..<length rvs] start width s cs = Inr (map (\<lambda>i. rvs ! i) [0..<length rvs], s') \<and>
      contents s' = contents s"
  proof (rule read_rows_stored)
    fix i assume "i \<in> set [0..<length rvs]"
    then have i: "i < length rvs" by simp
    then have ri: "list_all2 cell_fits cs (rvs ! i)" "length (row_bytes (rvs ! i)) = ?n" using rvs by auto
    have "slice (i * ?n) ?n ?rb = map row_bytes rvs ! i"
      by (rule slice_concat_uniform) (use rvs i in auto)
    moreover have "(i + 1) * ?n \<le> length rvs * ?n" using i by (intro mult_right_mono) simp_all
    then have le: "i * ?n + ?n \<le> length ?rb" using rb by simp
    moreover have "slice (unat start + i * ?n) ?n (contents s) = slice (i * ?n) ?n ?rb"
      unfolding at(1) using at(2) le by (simp add: slice_append_skip) (simp add: slice_def)
    ultimately have "slice (unat start + i * ?n) ?n (contents s) = row_bytes (rvs ! i)" using i by simp
    moreover have "length (contents s) = unat start + length ?rb + length post" by (simp add: at)
    ultimately show "list_all2 cell_fits cs (rvs ! i) \<and>
        slice (unat start + i * ?n) (length (row_bytes (rvs ! i))) (contents s) = row_bytes (rvs ! i) \<and>
        unat start + i * ?n + length (row_bytes (rvs ! i)) \<le> length (contents s) \<and>
        i < 2 ^ 64 \<and> unat start + i * ?n < 2 ^ 64"
      using ri le small i by simp
  qed
  then show ?thesis by (auto simp: map_nth)
qed

text \<open>
  The bytes of a table, section by section.  \<open>high_table_new_layout\<close> is the converse of the
  constructor's checks: a buffer laid out like this, with the sections where the header says, is
  accepted, and every section is read back.
\<close>

lemma high_table_new_layout:
  assumes t: "t = header_layout UTF_MAGIC tsize marker 1 rowsf strsf dataf name ncols rsize nrows @
      concat (map column_bytes cs) @ concat (map row_bytes rvs) @ nul_terminated ss @ dat"
    and small: "length t < 2 ^ 32"
    and tsize: "unat tsize + 8 = length t"
    and rowsf: "unat rowsf + 8 = HEADER_SIZE + length (concat (map column_bytes cs))"
    and strsf: "unat strsf + 8 = unat rowsf + 8 + length (concat (map row_bytes rvs))"
    and dataf: "unat dataf + 8 = unat strsf + 8 + length (nul_terminated ss)"
    and ncols: "unat ncols = length cs" and nrows: "unat nrows = length rvs"
    and rsize: "unat rsize = sum_list (stored_sizes cs)"
    and rvs: "\<forall>r \<in> set rvs. list_all2 cell_fits cs r \<and> length (row_bytes r) = unat rsize"
    and cs: "\<forall>c \<in> set cs. column_wf c" and ss: "pool_strings_ok ss"
  shows "high_table_new sjis t =
    Inr \<lparr>ht_alloc = t, ht_header = table_header_new t, ht_columns = cs,
         ht_strings = StringPoolFast (pool_map ss ss), ht_rows = rvs\<rparr>"
    and "unat (th_data_pool_offset (table_header_new t)) = length t - length dat"
proof -
  let ?h = "table_header_new t"
  let ?hd = "header_layout UTF_MAGIC tsize marker 1 rowsf strsf dataf name ncols rsize nrows"
  let ?cb = "concat (map column_bytes cs)" let ?rb = "concat (map row_bytes rvs)"
  have m4: "length UTF_MAGIC = 4" by (simp add: UTF_MAGIC_def)
  have hlen: "length ?hd = HEADER_SIZE" by (simp add: m4 HEADER_SIZE_def)
  have tlen: "length t = HEADER_SIZE + length ?cb + length ?rb + length (nul_terminated ss) + length dat"
    unfolding t by (simp add: m4 HEADER_SIZE_def)
  note fields = read_header_layout [OF m4 t [THEN arg_cong [where f = table_header_new]]]
  have rb: "length ?rb = length rvs * unat rsize"
    using rvs by (subst length_concat_uniform [where n = "unat rsize"]) auto
  have rows_start: "unat (th_rows_offset ?h) = HEADER_SIZE + length ?cb"
    using fields(3) rowsf by simp
  have strings: "unat (th_string_pool_offset ?h) = HEADER_SIZE + length ?cb + length ?rb"
    using fields(4) strsf rowsf tlen small by (simp add: unat_saturating_offset)
  have data: "unat (th_data_pool_offset ?h) = length t - length dat"
    using fields(5) dataf strsf rowsf tlen small by (simp add: unat_saturating_offset)
  then show "unat (th_data_pool_offset (table_header_new t)) = length t - length dat" .
  define D where "D = length t - length dat"
  have dataD: "unat (th_data_pool_offset ?h) = D" using data by (simp add: D_def)
  have magic: "starts_with t UTF_MAGIC"
    unfolding t by (simp add: starts_with_def header_layout_def)
  let ?cur = "\<lparr>contents = t, position = 0\<rparr>"
  have cols: "column_new_list ?cur ?h = Inr (cs, ?cur\<lparr>position := HEADER_SIZE + length ?cb\<rparr>)"
    by (rule column_new_list_stored [OF cs _ _ hlen]) (use fields(6) ncols t in simp_all)
  have rows: "\<exists>hd'. row_new_list (?cur\<lparr>position := p\<rparr>) ?h cs = Inr (rvs, hd')" for p
  proof -
    have "contents (?cur\<lparr>position := p\<rparr>) = (?hd @ ?cb) @ ?rb @ nul_terminated ss @ dat" by (simp add: t)
    moreover have "length (?hd @ ?cb) = unat (ucast (th_rows_offset ?h) :: u64)"
      using rows_start hlen by (simp add: unat_ucast_wide)
    moreover have "unat (ucast (th_row_size ?h) :: u64) = unat rsize" using fields(7) by (simp add: unat_ucast_wide)
    moreover have "length rvs < 2 ^ 64" using nrows unat_lt2p [of nrows] by simp
    ultimately show ?thesis
      using read_rows_laid_out [of "?cur\<lparr>position := p\<rparr>" "?hd @ ?cb" rvs "nul_terminated ss @ dat"
          "ucast (th_rows_offset ?h)" cs "ucast (th_row_size ?h)"] rvs small fields(8) nrows
      by (simp add: row_new_list_def)
  qed
  have pool: "sub_slice t (HEADER_SIZE + length ?cb + length ?rb)
      (D - (HEADER_SIZE + length ?cb + length ?rb)) = Inr (nul_terminated ss)"
    using tlen unfolding t D_def
    by (subst sub_slice_append [where xs = "?hd @ ?cb @ ?rb" and ys = "nul_terminated ss" and zs = dat,
          simplified append_assoc]) (simp_all add: hlen)
  have strs: "StringPoolFast_new_borrowed sjis (nul_terminated ss) ?h =
      Inr (StringPoolFast (pool_map ss ss))"
    using fields(2) ss
    by (simp add: StringPoolFast_new_borrowed_def string_encoding_from_def parse_utf8_pool)
  have tot: "usize_checked_add (unat (th_size ?h)) 8 = Some (length t)"
    using fields(1) tsize small by (simp add: usize_checked_add_def)
  have mul: "usize_checked_mul (unat (th_row_size ?h)) (unat (th_row_count ?h)) = Some (length ?rb)"
    using fields(7,8) nrows rb tlen small by (simp add: usize_checked_mul_def mult.commute)
  have rend: "usize_checked_add (HEADER_SIZE + length ?cb) (length ?rb) =
      Some (HEADER_SIZE + length ?cb + length ?rb)"
    using tlen small by (simp add: usize_checked_add_def)
  have width: "checked_sum 0 (stored_sizes cs) = Some (unat (th_row_size ?h))"
    using fields(7) rsize unat_lt2p [of rsize] by (subst checked_sum_small) simp_all
  obtain hd' where rows': "row_new_list (?cur\<lparr>position := HEADER_SIZE + length ?cb\<rparr>) ?h cs = Inr (rvs, hd')"
    using rows by blast
  have le: "HEADER_SIZE \<le> length t"
    "HEADER_SIZE + length ?cb + length ?rb \<le> D" "D \<le> length t"
    using tlen by (simp_all add: D_def)
  show "high_table_new sjis t =
    Inr \<lparr>ht_alloc = t, ht_header = ?h, ht_columns = cs,
         ht_strings = StringPoolFast (pool_map ss ss), ht_rows = rvs\<rparr>"
    unfolding high_table_new_def
    using magic rows' le
    by (simp add: Let_def tot rows_start strings dataD mul rend cols width pool strs)
qed

end
