(* ===== verification/Cpk_File.thy ===== *)
theory Cpk_File
  imports Errors Raw_Memory
begin

text \<open>
  \<open>cpk/file.rs\<close>, \<open>cpk/encrypt/data.rs\<close> and \<open>cpk/encrypt/p5r.rs\<close>: the description of an archived
  file, and the per-file decryptors.  The trait \<open>FileDecryptor\<close> is the locale \<open>file_decryptor\<close>
  (decrypting is memory safe, keeps the length and undoes itself); both of its implementations are
  interpreted, the Persona 5 Royal one for every compilation target.

  The Persona 5 Royal transform is written four times in the source, once per vector width; all of
  them are the loop \<open>xor_blocks\<close>, shown equal to one formula in \<open>xor_blocks_eq\<close>.
\<close>

section \<open>Archived files\<close>

record cpk_file =
  directory :: rust_string
  file_name :: rust_string
  file_offset :: u64
  absolute_offset :: u64
  file_size :: u32
  extract_size :: u32
  id_opt :: "u32 option"
  user_string :: rust_string
  file_crc :: "u32 option"

definition cpk_file_new ::
  "rust_string \<Rightarrow> rust_string \<Rightarrow> u64 \<Rightarrow> u64 \<Rightarrow> u32 \<Rightarrow> u32 \<Rightarrow> u32 option \<Rightarrow> rust_string \<Rightarrow>
   u32 option \<Rightarrow> cpk_file" where
  "cpk_file_new dir name offset absolute fsize esize i user crc =
     \<lparr>directory = dir, file_name = name, file_offset = offset, absolute_offset = absolute,
      file_size = fsize, extract_size = (if esize = 0 then fsize else esize),
      id_opt = i, user_string = user, file_crc = crc\<rparr>"

section \<open>Decryptors\<close>

definition Dummy_is_encrypted :: "cpk_file \<Rightarrow> bytes \<Rightarrow> bool" where
  "Dummy_is_encrypted file stream = False"

definition Dummy_decrypt_in_place :: "bytes \<Rightarrow> bytes memory_result" where
  "Dummy_decrypt_in_place input = Inr input"

text \<open>What the \<open>cfg!\<close> tests of the source can see of the compilation target.\<close>

datatype target_arch = X86_64 | Aarch64 | Other_Arch

record target =
  arch :: target_arch
  has_avx2 :: bool
  has_sse3 :: bool
  has_neon :: bool

definition ENCRYPTED_DATA_OFFSET :: nat where "ENCRYPTED_DATA_OFFSET = 0x20"
definition NUM_BYTES_TO_DECRYPT :: nat where "NUM_BYTES_TO_DECRYPT = 0x400"

definition CRI_CFATTR_ENCRYPT :: rust_string where
  "CRI_CFATTR_ENCRYPT = ascii ''CRI_CFATTR:ENCRYPT''"

definition P5R_is_encrypted :: "cpk_file \<Rightarrow> bytes \<Rightarrow> bool" where
  "P5R_is_encrypted file stream \<longleftrightarrow> user_string file = CRI_CFATTR_ENCRYPT"

text \<open>One iteration: load block \<open>i\<close> and block \<open>i + NEXT_BLOCK\<close>, store their combination at \<open>i\<close>.\<close>

definition xor_block :: "(bytes \<Rightarrow> bytes \<Rightarrow> bytes) \<Rightarrow> nat \<Rightarrow> nat \<Rightarrow> bytes \<Rightarrow> nat \<Rightarrow> bytes memory_result" where
  "xor_block xr width next_block bs i =
     and_then (load width (i * width) bs) (\<lambda>v.
     and_then (load width ((i + next_block) * width) bs) (\<lambda>n.
       store (i * width) (xr v n) bs))"

definition xor_blocks :: "(bytes \<Rightarrow> bytes \<Rightarrow> bytes) \<Rightarrow> nat \<Rightarrow> bytes \<Rightarrow> bytes memory_result" where
  "xor_blocks xr width input =
     (let next_block = NUM_BYTES_TO_DECRYPT div width
      in fold_result (xor_block xr width next_block) input [0..<next_block])"

definition vector_xor :: "bytes \<Rightarrow> bytes \<Rightarrow> bytes" where
  "vector_xor v n = map2 (XOR) v n"

definition u64_xor :: "bytes \<Rightarrow> bytes \<Rightarrow> bytes" where
  "u64_xor v n = to_le_bytes 8 ((from_le_bytes v :: u64) XOR from_le_bytes n)"

definition decrypt_in_place_avx2 :: "target \<Rightarrow> bytes \<Rightarrow> bytes memory_result" where
  "decrypt_in_place_avx2 t input = (if arch t = X86_64 then xor_blocks vector_xor 32 input else Inr input)"

definition decrypt_in_place_sse3 :: "target \<Rightarrow> bytes \<Rightarrow> bytes memory_result" where
  "decrypt_in_place_sse3 t input = (if arch t = X86_64 then xor_blocks vector_xor 16 input else Inr input)"

definition decrypt_in_place_neon :: "target \<Rightarrow> bytes \<Rightarrow> bytes memory_result" where
  "decrypt_in_place_neon t input = (if arch t = Aarch64 then xor_blocks vector_xor 16 input else Inr input)"

definition decrypt_in_place_u64 :: "target \<Rightarrow> bytes \<Rightarrow> bytes memory_result" where
  "decrypt_in_place_u64 t input = (if arch t = X86_64 then xor_blocks u64_xor 8 input else Inr input)"

definition P5R_decrypt_in_place :: "target \<Rightarrow> bytes \<Rightarrow> bytes memory_result" where
  "P5R_decrypt_in_place t input =
     (if length input < 0x820 then Inr input
      else
        result_map (\<lambda>tail. take ENCRYPTED_DATA_OFFSET input @ tail)
          (let tail = drop ENCRYPTED_DATA_OFFSET input in
           if arch t = X86_64 then
             if has_avx2 t then decrypt_in_place_avx2 t tail
             else if has_sse3 t then decrypt_in_place_sse3 t tail
             else decrypt_in_place_u64 t tail
           else if arch t = Aarch64 \<and> has_neon t then decrypt_in_place_neon t tail
           else decrypt_in_place_u64 t tail))"

section \<open>The loop in closed form\<close>

lemma length_vector_xor [simp]: "length (vector_xor v n) = min (length v) (length n)"
  by (simp add: vector_xor_def)

lemma length_u64_xor [simp]: "length (u64_xor v n) = 8"
  by (simp add: u64_xor_def)

lemma ucast_xor: "ucast (a XOR b) = ucast a XOR ucast b"
  by (rule bit_word_eqI) (auto simp: bit_ucast_iff bit_xor_iff)

lemma to_le_bytes_xor: "to_le_bytes n (a XOR b) = map2 (XOR) (to_le_bytes n a) (to_le_bytes n b)"
  by (induction n arbitrary: a b) (simp_all add: ucast_xor)

lemma u64_xor_vector:
  assumes "length v = 8" and "length n = 8"
  shows "u64_xor v n = vector_xor v n"
proof -
  have "to_le_bytes 8 (from_le_bytes v :: u64) = v" "to_le_bytes 8 (from_le_bytes n :: u64) = n"
    using assms by (simp_all add: to_from_le_bytes)
  then show ?thesis by (simp only: u64_xor_def to_le_bytes_xor vector_xor_def)
qed

text \<open>The state of the loop after the first \<open>m\<close> bytes, with \<open>d\<close> the distance of the two halves.\<close>

definition half_xored :: "nat \<Rightarrow> nat \<Rightarrow> bytes \<Rightarrow> bytes" where
  "half_xored d m input =
     map (\<lambda>j. if j < m then input ! j XOR input ! (j + d) else input ! j) [0..<length input]"

lemma length_half_xored [simp]: "length (half_xored d m input) = length input"
  by (simp add: half_xored_def)

lemma nth_half_xored:
  "j < length input \<Longrightarrow>
   half_xored d m input ! j = (if j < m then input ! j XOR input ! (j + d) else input ! j)"
  by (simp add: half_xored_def)

lemma xor_block_step:
  assumes xr: "\<And>v n. length v = w \<Longrightarrow> length n = w \<Longrightarrow> xr v n = vector_xor v n"
    and len: "2 * (k * w) \<le> length input" and i: "i < k"
  shows "xor_block xr w k (half_xored (k * w) (i * w) input) i =
    Inr (half_xored (k * w) (Suc i * w) input)"
proof -
  let ?s = "half_xored (k * w) (i * w) input"
  have "Suc i * w \<le> k * w" using i by (intro mult_right_mono) simp_all
  then have iw: "i * w + w \<le> k * w" by simp
  then have a: "i * w + w \<le> length ?s" and b: "(i + k) * w + w \<le> length ?s"
    using len by (simp_all add: algebra_simps)
  let ?v = "slice (i * w) w ?s" and ?n = "slice ((i + k) * w) w ?s"
  have lens: "length ?v = w" "length ?n = w" using a b by simp_all
  have vn: "vector_xor ?v ?n ! j = input ! (i * w + j) XOR input ! (i * w + j + k * w)" if "j < w" for j
    using that a b iw len lens
    by (simp add: vector_xor_def nth_slice nth_half_xored algebra_simps)
  have "take (i * w) ?s @ vector_xor ?v ?n @ drop (i * w + length (vector_xor ?v ?n)) ?s =
      half_xored (k * w) (Suc i * w) input"
  proof (rule nth_equalityI)
    fix j assume "j < length (take (i * w) ?s @ vector_xor ?v ?n @ drop (i * w + length (vector_xor ?v ?n)) ?s)"
    then have j: "j < length input" using a lens by simp
    show "(take (i * w) ?s @ vector_xor ?v ?n @ drop (i * w + length (vector_xor ?v ?n)) ?s) ! j =
        half_xored (k * w) (Suc i * w) input ! j"
      using a j lens vn [of "j - i * w"]
      by (subst nth_stored) (auto simp: nth_half_xored)
  qed (use a lens in simp)
  with a b lens show ?thesis by (simp add: xor_block_def xr store_def)
qed

lemma xor_blocks_eq:
  assumes "\<And>v n. length v = w \<Longrightarrow> length n = w \<Longrightarrow> xr v n = vector_xor v n"
    and "w dvd NUM_BYTES_TO_DECRYPT" and "2 * NUM_BYTES_TO_DECRYPT \<le> length input"
  shows "xor_blocks xr w input = Inr (half_xored NUM_BYTES_TO_DECRYPT NUM_BYTES_TO_DECRYPT input)"
proof -
  let ?k = "NUM_BYTES_TO_DECRYPT div w"
  have kw: "?k * w = NUM_BYTES_TO_DECRYPT" using assms(2) by simp
  have "m \<le> ?k \<Longrightarrow> fold_result (xor_block xr w ?k) input [0..<m] = Inr (half_xored (?k * w) (m * w) input)" for m
  proof (induction m)
    case 0
    show ?case by (simp add: half_xored_def map_nth)
  next
    case (Suc m)
    with xor_block_step [of w xr ?k input m] assms kw show ?case by (simp add: fold_result_append)
  qed
  from this [of ?k] show ?thesis by (simp only: xor_blocks_def Let_def kw order_refl)
qed

lemma half_xored_involution:
  "2 * d \<le> length input \<Longrightarrow> half_xored d d (half_xored d d input) = input"
  by (rule nth_equalityI) (simp_all add: nth_half_xored xor.assoc)

section \<open>What the transform computes\<close>

text \<open>Bytes 0x20 to 0x420 are combined with bytes 0x420 to 0x820; nothing else changes.\<close>

definition p5r_transform :: "bytes \<Rightarrow> bytes" where
  "p5r_transform input =
     map (\<lambda>j. if 0x20 \<le> j \<and> j < 0x420 then input ! j XOR input ! (j + 0x400) else input ! j)
       [0..<length input]"

definition scalar_only :: "target \<Rightarrow> bool" where
  "scalar_only t \<longleftrightarrow> arch t = Other_Arch \<or> arch t = Aarch64 \<and> \<not> has_neon t"

lemma p5r_transform_tail:
  assumes "0x820 \<le> length input"
  shows "take 0x20 input @ half_xored 0x400 0x400 (drop 0x20 input) = p5r_transform input"
  using assms
  by (intro nth_equalityI) (auto simp: p5r_transform_def nth_append nth_half_xored not_less add.commute)

lemma variants_agree:
  assumes "0x800 \<le> length input"
  shows "xor_blocks vector_xor 32 input = Inr (half_xored 0x400 0x400 input)"
    and "xor_blocks vector_xor 16 input = Inr (half_xored 0x400 0x400 input)"
    and "xor_blocks u64_xor 8 input = Inr (half_xored 0x400 0x400 input)"
  using assms
  by (simp_all add: xor_blocks_eq u64_xor_vector NUM_BYTES_TO_DECRYPT_def
      xor_blocks_eq [unfolded NUM_BYTES_TO_DECRYPT_def])

lemma P5R_decrypt_eq:
  "P5R_decrypt_in_place t input =
     Inr (if length input < 0x820 \<or> scalar_only t then input else p5r_transform input)"
proof (cases "length input < 0x820")
  case False
  then have "0x800 \<le> length (drop 0x20 input)" by simp
  from variants_agree [OF this] p5r_transform_tail [of input] False show ?thesis
    by (cases "arch t")
      (simp_all add: P5R_decrypt_in_place_def Let_def decrypt_in_place_avx2_def
        decrypt_in_place_sse3_def decrypt_in_place_neon_def decrypt_in_place_u64_def
        ENCRYPTED_DATA_OFFSET_def scalar_only_def)
qed (simp add: P5R_decrypt_in_place_def)

lemma length_p5r_transform [simp]: "length (p5r_transform input) = length input"
  by (simp add: p5r_transform_def)

lemma p5r_transform_involution:
  "0x820 \<le> length input \<Longrightarrow> p5r_transform (p5r_transform input) = input"
  by (rule nth_equalityI) (auto simp: p5r_transform_def xor.assoc)

section \<open>The trait as an interface\<close>

locale file_decryptor =
  fixes is_encrypted_file :: "cpk_file \<Rightarrow> bytes \<Rightarrow> bool"
    and decrypt_in_place :: "bytes \<Rightarrow> bytes memory_result"
  assumes decrypt_defined: "\<exists>output. decrypt_in_place input = Inr output \<and> length output = length input"
    and decrypt_twice: "decrypt_in_place input = Inr output \<Longrightarrow> decrypt_in_place output = Inr input"
begin

lemma decrypt_safe: "decrypt_in_place input \<noteq> Inl OutOfBounds"
  using decrypt_defined [of input] by auto

lemma decrypt_inj:
  "decrypt_in_place a = Inr c \<Longrightarrow> decrypt_in_place b = Inr c \<Longrightarrow> a = b"
  using decrypt_twice [of a c] decrypt_twice [of b c] by simp

lemma decrypt_length: "decrypt_in_place input = Inr output \<Longrightarrow> length output = length input"
  using decrypt_defined [of input] by auto

lemma decrypt_surj: "\<exists>x. decrypt_in_place x = Inr y"
  using decrypt_defined [of y] decrypt_twice by blast

end

interpretation dummy: file_decryptor Dummy_is_encrypted Dummy_decrypt_in_place
  by unfold_locales (simp_all add: Dummy_decrypt_in_place_def)

interpretation p5r: file_decryptor P5R_is_encrypted "P5R_decrypt_in_place t" for t
  by unfold_locales (auto simp: P5R_decrypt_eq p5r_transform_involution split: if_splits)

end
