(* ===== verification/Cpk_Reader.thy ===== *)
theory Cpk_Reader
  imports High_Table Cpk_File Free_List
begin

text \<open>
  \<open>cpk/reader.rs\<close>: opening an archive, reading its header table into \<open>CpkMetadata\<close>, and listing its
  files from the TOC or the ITOC.  TOC rows carry names and offsets; ITOC rows carry an ID and two
  sizes only, and the offsets are recomputed by laying the payloads out in the order of the IDs,
  each padded to the alignment (\<open>materialize_itoc_rows\<close>).

  The reader's methods take and return the reader: \<open>get_files\<close> records the metadata before it reads
  an index, so a failing call still changes the state.  The stream position after a failed call is
  not tracked; every method seeks before it reads.
\<close>

definition ENGINE_TOC_FILE_BASE :: u64 where "ENGINE_TOC_FILE_BASE = 0x800"

section \<open>Metadata\<close>

record cpk_metadata =
  md_file_size :: u64
  md_content_offset :: u64
  md_content_size :: u64
  md_toc_offset :: u64
  md_toc_size :: u64
  md_itoc_offset :: u64
  md_itoc_size :: u64
  md_etoc_offset :: u64
  md_etoc_size :: u64
  md_gtoc_offset :: u64
  md_gtoc_size :: u64
  md_version :: u16
  md_revision :: u16
  md_align :: u16
  md_sorted :: bool
  md_eid :: u16
  md_files :: u32
  md_cpk_mode :: u32
  md_enable_file_name :: bool
  md_update_date_time :: u64
  md_codec :: u32
  md_dpk_itoc :: u32
  md_enable_toc_crc :: bool
  md_enable_file_crc :: bool

definition unwrap_or :: "'a \<Rightarrow> 'a option \<Rightarrow> 'a" where
  "unwrap_or d m = (case m of None \<Rightarrow> d | Some x \<Rightarrow> x)"

lemma unwrap_or_simps [simp]: "unwrap_or d None = d" "unwrap_or d (Some x) = x"
  by (simp_all add: unwrap_or_def)

definition get_or_zero :: "high_table \<Rightarrow> string \<Rightarrow> u64" where
  "get_or_zero t name = unwrap_or 0 (u64_by_name t 0 name)"

definition parse_metadata :: "high_table \<Rightarrow> cpk_metadata" where
  "parse_metadata t =
     \<lparr>md_file_size = get_or_zero t ''FileSize'',
      md_content_offset = get_or_zero t ''ContentOffset'',
      md_content_size = get_or_zero t ''ContentSize'',
      md_toc_offset = get_or_zero t ''TocOffset'',
      md_toc_size = get_or_zero t ''TocSize'',
      md_itoc_offset = get_or_zero t ''ItocOffset'',
      md_itoc_size = get_or_zero t ''ItocSize'',
      md_etoc_offset = get_or_zero t ''EtocOffset'',
      md_etoc_size = get_or_zero t ''EtocSize'',
      md_gtoc_offset = get_or_zero t ''GtocOffset'',
      md_gtoc_size = get_or_zero t ''GtocSize'',
      md_version = unwrap_or 0 (try_from_word (get_or_zero t ''Version'')),
      md_revision = unwrap_or 0 (try_from_word (get_or_zero t ''Revision'')),
      md_align = unwrap_or 0 (try_from_word (get_or_zero t ''Align'')),
      md_sorted = (get_or_zero t ''Sorted'' \<noteq> 0),
      md_eid = unwrap_or 0 (try_from_word (get_or_zero t ''EID'')),
      md_files = unwrap_or 0 (try_from_word (get_or_zero t ''Files'')),
      md_cpk_mode = unwrap_or 0 (try_from_word (get_or_zero t ''CpkMode'')),
      md_enable_file_name = (get_or_zero t ''EnableFileName'' \<noteq> 0),
      md_update_date_time = get_or_zero t ''UpdateDateTime'',
      md_codec = unwrap_or 0 (try_from_word (get_or_zero t ''Codec'')),
      md_dpk_itoc = unwrap_or 0 (try_from_word (get_or_zero t ''DpkItoc'')),
      md_enable_toc_crc = (get_or_zero t ''EnableTocCrc'' \<noteq> 0),
      md_enable_file_crc = (get_or_zero t ''EnableFileCrc'' \<noteq> 0)\<rparr>"

section \<open>Cells of an index table\<close>

definition string_at :: "high_table \<Rightarrow> nat \<Rightarrow> nat \<Rightarrow> rust_string option" where
  "string_at t row column =
     Option.bind (ht_value t row column) (\<lambda>v.
       case v of
         RV_String offset \<Rightarrow>
           if offset = 0 then None else StringPoolFast_get_string (ht_strings t) offset
       | _ \<Rightarrow> None)"

definition numeric_at :: "high_table \<Rightarrow> nat \<Rightarrow> nat \<Rightarrow> u64 option" where
  "numeric_at t row column = Option.bind (ht_value t row column) row_value_to_u64"

abbreviation reader_error :: "cpk_reader_error \<Rightarrow> cri_error" where
  "reader_error \<equiv> CpkReaderError"

section \<open>The table of contents\<close>

record toc_columns =
  tcol_file_name :: nat
  tcol_file_size :: nat
  tcol_file_offset :: nat
  tcol_dir_name :: "nat option"
  tcol_extract_size :: "nat option"
  tcol_id :: "nat option"
  tcol_user_string :: "nat option"
  tcol_file_crc :: "nat option"

definition toc_columns_of :: "high_table \<Rightarrow> toc_columns result" where
  "toc_columns_of toc =
     and_then (ok_or (reader_error (InvalidTocColumn ''FileName'')) (column_index toc ''FileName''))
       (\<lambda>file_name_col.
     and_then (ok_or (reader_error (InvalidTocColumn ''FileSize'')) (column_index toc ''FileSize''))
       (\<lambda>file_size_col.
     and_then (ok_or (reader_error (InvalidTocColumn ''FileOffset'')) (column_index toc ''FileOffset''))
       (\<lambda>file_offset_col.
       Inr \<lparr>tcol_file_name = file_name_col, tcol_file_size = file_size_col,
            tcol_file_offset = file_offset_col,
            tcol_dir_name = column_index toc ''DirName'',
            tcol_extract_size = column_index toc ''ExtractSize'',
            tcol_id = column_index toc ''ID'',
            tcol_user_string = column_index toc ''UserString'',
            tcol_file_crc = column_index toc ''FileCrc''\<rparr>)))"

definition toc_row :: "high_table \<Rightarrow> toc_columns \<Rightarrow> nat \<Rightarrow> cpk_file result" where
  "toc_row toc cols row_index =
     and_then (ok_or (reader_error MissingFileName) (string_at toc row_index (tcol_file_name cols)))
       (\<lambda>name.
     let dir = unwrap_or [] (Option.bind (tcol_dir_name cols) (string_at toc row_index));
         user = unwrap_or [] (Option.bind (tcol_user_string cols) (string_at toc row_index))
     in
     and_then (ok_or (reader_error MissingFileSize) (numeric_at toc row_index (tcol_file_size cols)))
       (\<lambda>file_size_u64.
     and_then (ok_or (reader_error (FileTooLarge file_size_u64)) (try_from_word file_size_u64))
       (\<lambda>file_size :: u32.
     let extract_size_u64 = unwrap_or file_size_u64
           (Option.bind (tcol_extract_size cols) (numeric_at toc row_index)) in
     and_then (ok_or (reader_error (FileTooLarge extract_size_u64)) (try_from_word extract_size_u64))
       (\<lambda>extract_size :: u32.
     and_then (ok_or (reader_error MissingFileOffset) (numeric_at toc row_index (tcol_file_offset cols)))
       (\<lambda>file_offset.
     let i = Option.bind (Option.bind (tcol_id cols) (numeric_at toc row_index)) try_from_word;
         crc = Option.bind (Option.bind (tcol_file_crc cols) (numeric_at toc row_index)) try_from_word
     in
     and_then (ok_or (reader_error MissingFileOffset) (checked_add ENGINE_TOC_FILE_BASE file_offset))
       (\<lambda>absolute_offset.
       Inr (cpk_file_new dir name file_offset absolute_offset file_size extract_size i user crc)))))))"

definition toc_files :: "high_table \<Rightarrow> cpk_file list result" where
  "toc_files toc =
     and_then (toc_columns_of toc) (\<lambda>cols.
       map_result (toc_row toc cols) [0..<length (ht_rows toc)])"

section \<open>The ID table\<close>

record itoc_row =
  ir_id :: u32
  ir_file_size :: u32
  ir_extract_size :: u32
  ir_file_crc :: "u32 option"

definition itoc_row_at :: "high_table \<Rightarrow> nat \<Rightarrow> itoc_row result" where
  "itoc_row_at t row =
     (let id_col = unwrap_or 0 (column_index t ''ID'');
          file_size_col = unwrap_or 1 (column_index t ''FileSize'');
          extract_size_col = unwrap_or 2 (column_index t ''ExtractSize'');
          crc_col = column_index t ''FileCrc''
      in
      and_then (ok_or (reader_error InvalidItoc) (numeric_at t row id_col)) (\<lambda>id_u64.
      and_then (ok_or (reader_error InvalidItoc) (try_from_word id_u64)) (\<lambda>i.
      and_then (ok_or (reader_error MissingFileSize) (numeric_at t row file_size_col)) (\<lambda>file_size_u64.
      and_then (ok_or (reader_error (FileTooLarge file_size_u64)) (try_from_word file_size_u64)) (\<lambda>fsize.
      let extract_size_u64 = unwrap_or file_size_u64 (numeric_at t row extract_size_col) in
      and_then (ok_or (reader_error (FileTooLarge extract_size_u64)) (try_from_word extract_size_u64))
        (\<lambda>esize.
        Inr \<lparr>ir_id = i, ir_file_size = fsize, ir_extract_size = esize,
             ir_file_crc = Option.bind (Option.bind crc_col (numeric_at t row)) try_from_word\<rparr>))))))"

definition collect_itoc_rows :: "high_table \<Rightarrow> itoc_row list \<Rightarrow> itoc_row list result" where
  "collect_itoc_rows t rows =
     result_map (\<lambda>new. rows @ new) (map_result (itoc_row_at t) [0..<length (ht_rows t)])"

definition reader_align_up :: "u64 \<Rightarrow> u64 \<Rightarrow> u64 option" where
  "reader_align_up v alignment =
     (if alignment \<le> 1 then Some v
      else let remainder = v mod alignment in
           if remainder = 0 then Some v else checked_add v (alignment - remainder))"

text \<open>\<open>format!("{:05}.bin", row.id)\<close>\<close>

fun decimal :: "nat \<Rightarrow> rust_string" where
  "decimal n = (if n < 10 then [of_nat (48 + n)] else decimal (n div 10) @ [of_nat (48 + n mod 10)])"

declare decimal.simps [simp del]

definition itoc_file_name :: "u32 \<Rightarrow> rust_string" where
  "itoc_file_name i =
     (let digits = decimal (unat i) in replicate (5 - length digits) 48 @ digits @ ascii ''.bin'')"

fun materialize_loop :: "u64 \<Rightarrow> u64 \<Rightarrow> u64 \<Rightarrow> itoc_row list \<Rightarrow> cpk_file list result" where
  "materialize_loop content_offset alignment relative_offset [] = Inr []"
| "materialize_loop content_offset alignment relative_offset (row # rows) =
     and_then (ok_or (reader_error MissingFileOffset) (checked_add content_offset relative_offset))
       (\<lambda>absolute.
     and_then (ok_or (reader_error MissingFileOffset) (reader_align_up (ucast (ir_file_size row)) alignment))
       (\<lambda>padded_size.
     and_then (ok_or (reader_error MissingFileOffset) (checked_add relative_offset padded_size))
       (\<lambda>next_offset.
     and_then (materialize_loop content_offset alignment next_offset rows) (\<lambda>files.
       Inr (cpk_file_new [] (itoc_file_name (ir_id row)) relative_offset absolute (ir_file_size row)
              (ir_extract_size row) (Some (ir_id row)) [] (ir_file_crc row) # files)))))"

definition materialize_itoc_rows :: "itoc_row list \<Rightarrow> u64 \<Rightarrow> u64 \<Rightarrow> cpk_file list result" where
  "materialize_itoc_rows rows content_offset alignment =
     materialize_loop content_offset alignment 0 rows"

fun adjacent_ids_equal :: "itoc_row list \<Rightarrow> bool" where
  "adjacent_ids_equal (a # b # rows) \<longleftrightarrow> ir_id a = ir_id b \<or> adjacent_ids_equal (b # rows)"
| "adjacent_ids_equal _ \<longleftrightarrow> False"

definition itoc_rows ::
  "(bytes \<Rightarrow> rust_string) \<Rightarrow> cpk_metadata \<Rightarrow> high_table \<Rightarrow> itoc_row list result" where
  "itoc_rows sjis metadata itoc =
     (if md_eid metadata \<noteq> 0 then collect_itoc_rows itoc []
      else
        and_then (ok_or (reader_error InvalidItoc) (data_by_name itoc 0 ''DataL'')) (\<lambda>data_l.
        and_then (ok_or (reader_error InvalidItoc) (data_by_name itoc 0 ''DataH'')) (\<lambda>data_h.
        and_then (high_table_new sjis data_l) (\<lambda>low.
        and_then (high_table_new sjis data_h) (\<lambda>high.
        and_then (collect_itoc_rows low []) (\<lambda>rows.
          collect_itoc_rows high rows))))))"

definition itoc_files ::
  "(bytes \<Rightarrow> rust_string) \<Rightarrow> cpk_metadata \<Rightarrow> high_table \<Rightarrow> cpk_file list result" where
  "itoc_files sjis metadata itoc =
     and_then (itoc_rows sjis metadata itoc) (\<lambda>rows.
     let rows = sort_key ir_id rows in
     if adjacent_ids_equal rows then Inl (reader_error InvalidItoc)
     else materialize_itoc_rows rows (md_content_offset metadata) (ucast (max (md_align metadata) 1)))"

section \<open>The reader\<close>

record cpk_reader =
  rd_stream :: stream
  rd_start_pos :: u64
  rd_metadata :: "cpk_metadata option"
  rd_free_list :: free_list

definition cpk_reader_new :: "nat \<Rightarrow> stream \<Rightarrow> cpk_reader" where
  "cpk_reader_new slab_address stream =
     \<lparr>rd_stream = stream, rd_start_pos = of_nat (position stream), rd_metadata = None,
      rd_free_list = free_list_new slab_address\<rparr>"

definition read_toc ::
  "(bytes \<Rightarrow> rust_string) \<Rightarrow> cpk_metadata \<Rightarrow> cpk_reader \<Rightarrow> (cpk_file list \<times> stream) result" where
  "read_toc sjis metadata rd =
     and_then (ok_or (reader_error MissingFileOffset)
         (checked_add (rd_start_pos rd) (md_toc_offset metadata))) (\<lambda>toc_position.
     and_then (table_container_new (seek_start (unat toc_position) (rd_stream rd)))
       (\<lambda>(container, stream).
     if tc_kind container \<noteq> Toc then Inl (reader_error InvalidHeaderChunk)
     else
       and_then (high_table_new sjis (tc_table container)) (\<lambda>toc.
       and_then (toc_files toc) (\<lambda>files. Inr (files, stream)))))"

definition read_itoc ::
  "(bytes \<Rightarrow> rust_string) \<Rightarrow> cpk_metadata \<Rightarrow> cpk_reader \<Rightarrow> (cpk_file list \<times> stream) result" where
  "read_itoc sjis metadata rd =
     (if md_content_offset metadata = 0 then Inl (reader_error MissingContentOffset)
      else if md_content_offset metadata > ucast (- 1 :: u32)
      then Inl (reader_error (ItocContentOffsetTooLarge (md_content_offset metadata)))
      else
        and_then (ok_or (reader_error MissingFileOffset)
            (checked_add (rd_start_pos rd) (md_itoc_offset metadata))) (\<lambda>itoc_position.
        and_then (table_container_new (seek_start (unat itoc_position) (rd_stream rd)))
          (\<lambda>(container, stream).
        if tc_kind container \<noteq> Itoc then Inl (reader_error InvalidHeaderChunk)
        else
          and_then (high_table_new sjis (tc_table container)) (\<lambda>itoc.
          and_then (itoc_files sjis metadata itoc) (\<lambda>files. Inr (files, stream))))))"

definition read_header ::
  "(bytes \<Rightarrow> rust_string) \<Rightarrow> cpk_reader \<Rightarrow> (cpk_metadata \<times> stream) result" where
  "read_header sjis rd =
     and_then (table_container_new (seek_start (unat (rd_start_pos rd)) (rd_stream rd)))
       (\<lambda>(container, stream).
     if tc_kind container \<noteq> Cpk then Inl (reader_error InvalidHeaderChunk)
     else
       and_then (high_table_new sjis (tc_table container)) (\<lambda>cpk_table.
       if ht_rows cpk_table = [] then Inl (reader_error InvalidHeaderChunk)
       else Inr (parse_metadata cpk_table, stream)))"

definition get_files ::
  "(bytes \<Rightarrow> rust_string) \<Rightarrow> cpk_reader \<Rightarrow> cpk_file list result \<times> cpk_reader" where
  "get_files sjis rd =
     (case read_header sjis rd of
        Inl e \<Rightarrow> (Inl e, rd)
      | Inr (metadata, stream) \<Rightarrow>
          let rd = rd\<lparr>rd_stream := stream, rd_metadata := Some metadata\<rparr>;
              listed = (if md_toc_offset metadata \<noteq> 0 then read_toc sjis metadata rd
                        else if md_itoc_offset metadata \<noteq> 0 then read_itoc sjis metadata rd
                        else Inl (reader_error MissingTocAndItoc))
          in case listed of
               Inl e \<Rightarrow> (Inl e, rd)
             | Inr (files, stream) \<Rightarrow> (Inr files, rd\<lparr>rd_stream := stream\<rparr>))"

definition read_packed_file :: "cpk_reader \<Rightarrow> cpk_file \<Rightarrow> (bytes \<times> cpk_reader) result" where
  "read_packed_file rd file =
     (if rd_metadata rd = None then Inl (reader_error GetFilesNotCalled)
      else
        and_then (ok_or (reader_error MissingFileOffset)
            (checked_add (rd_start_pos rd) (absolute_offset file))) (\<lambda>pos.
        let packed_size = unat (file_size file) in
        and_then (read_exact packed_size (seek_start (unat pos) (rd_stream rd))) (\<lambda>(bs, stream).
          Inr (bs, rd\<lparr>rd_stream := stream\<rparr>))))"

section \<open>No archive makes the reader panic\<close>

lemma no_panic_toc_columns_of [no_panic_intros]: "no_panic (toc_columns_of toc)"
  unfolding toc_columns_of_def by (auto intro!: no_panic_intros)

lemma no_panic_toc_row: "no_panic (toc_row toc cols i)"
  unfolding toc_row_def Let_def by (auto intro!: no_panic_intros)

lemma no_panic_toc_files [no_panic_intros]: "no_panic (toc_files toc)"
  unfolding toc_files_def by (auto intro!: no_panic_intros no_panic_map_result no_panic_toc_row)

lemma no_panic_itoc_row_at: "no_panic (itoc_row_at t i)"
  unfolding itoc_row_at_def Let_def by (auto intro!: no_panic_intros)

lemma no_panic_collect_itoc_rows [no_panic_intros]: "no_panic (collect_itoc_rows t rows)"
  unfolding collect_itoc_rows_def
  by (auto intro!: no_panic_intros no_panic_map_result no_panic_itoc_row_at)

lemma no_panic_materialize_loop: "no_panic (materialize_loop content_offset alignment off rows)"
  by (induction rows arbitrary: off) (auto intro!: no_panic_intros)

lemma no_panic_itoc_files [no_panic_intros]: "no_panic (itoc_files sjis metadata itoc)"
  unfolding itoc_files_def itoc_rows_def Let_def materialize_itoc_rows_def
  by (auto intro!: no_panic_intros no_panic_materialize_loop)

lemma no_panic_read_header [no_panic_intros]: "no_panic (read_header sjis rd)"
  unfolding read_header_def by (auto intro!: no_panic_intros)

lemma no_panic_read_toc [no_panic_intros]: "no_panic (read_toc sjis metadata rd)"
  unfolding read_toc_def by (auto intro!: no_panic_intros)

lemma no_panic_read_itoc [no_panic_intros]: "no_panic (read_itoc sjis metadata rd)"
  unfolding read_itoc_def by (auto intro!: no_panic_intros)

lemma no_panic_get_files: "no_panic (fst (get_files sjis rd))"
  using no_panic_read_header [of sjis rd] no_panic_read_toc [of sjis] no_panic_read_itoc [of sjis]
  by (auto simp: get_files_def Let_def no_panic_def split: sum.splits prod.splits if_splits)

lemma no_panic_read_packed_file [no_panic_intros]: "no_panic (read_packed_file rd file)"
  unfolding read_packed_file_def Let_def by (auto intro!: no_panic_intros)

section \<open>What a listing says\<close>

lemma toc_row_sound:
  assumes "toc_row toc cols i = Inr f"
  shows "unat (absolute_offset f) = 0x800 + unat (file_offset f)"
    and "string_at toc i (tcol_file_name cols) = Some (file_name f)"
    and "numeric_at toc i (tcol_file_offset cols) = Some (file_offset f)"
    and "map_option unat (numeric_at toc i (tcol_file_size cols)) = Some (unat (file_size f))"
  using assms
  by (auto simp: toc_row_def Let_def result_iff cpk_file_new_def unat_add_fits unat_ucast_le
      ENGINE_TOC_FILE_BASE_def)

lemma toc_files_length: "toc_files toc = Inr fs \<Longrightarrow> length fs = length (ht_rows toc)"
  by (auto simp: toc_files_def result_iff dest: map_result_length)

lemma reader_align_up_eq:
  "reader_align_up v a =
     (if round_up (unat a) (unat v) < 2 ^ 64 then Some (of_nat (round_up (unat a) (unat v))) else None)"
proof (cases "a \<le> 1")
  case True
  then have "unat a \<le> 1" by (simp add: word_le_nat_alt)
  then show ?thesis using True unat_lt2p [of v] by (simp add: reader_align_up_def round_up_def)
next
  case False
  then have a: "\<not> unat a \<le> 1" by (simp add: word_le_nat_alt)
  have m: "unat (v mod a) = unat v mod unat a" by (rule unat_mod_distrib)
  have zero: "v mod a = 0 \<longleftrightarrow> unat v mod unat a = 0" using m by (metis unat_eq_zero)
  have le: "v mod a \<le> a" using m a by (simp add: word_le_nat_alt)
  have d: "unat (a - v mod a) = unat a - unat v mod unat a" using unat_sub_le [OF le] m by simp
  have "of_nat (unat v + (unat a - unat v mod unat a)) = v + (a - v mod a)"
    unfolding d [symmetric] by simp
  then show ?thesis
    using False a zero unat_lt2p [of v] d
    by (auto simp: reader_align_up_def Let_def round_up_def checked_add_def)
qed

text \<open>Where the payloads of ID-ordered rows lie: each starts where the padded ones before it end.\<close>

definition packed_before :: "nat \<Rightarrow> itoc_row list \<Rightarrow> nat" where
  "packed_before a rows = sum_list (map (\<lambda>r. round_up a (unat (ir_file_size r))) rows)"

lemma packed_before_simps [simp]:
  "packed_before a [] = 0"
  "packed_before a (r # rows) = round_up a (unat (ir_file_size r)) + packed_before a rows"
  by (simp_all add: packed_before_def)

definition file_at :: "u64 \<Rightarrow> nat \<Rightarrow> itoc_row \<Rightarrow> cpk_file" where
  "file_at content_offset off row =
     cpk_file_new [] (itoc_file_name (ir_id row)) (of_nat off) (content_offset + of_nat off)
       (ir_file_size row) (ir_extract_size row) (Some (ir_id row)) [] (ir_file_crc row)"

lemma materialize_loop_eq:
  assumes "materialize_loop content_offset a off rows = Inr fs"
  shows "unat off + packed_before (unat a) rows < 2 ^ 64 \<and> length fs = length rows \<and>
    (\<forall>k < length rows.
       fs ! k = file_at content_offset (unat off + packed_before (unat a) (take k rows)) (rows ! k) \<and>
       unat content_offset + unat off + packed_before (unat a) (take k rows) < 2 ^ 64)"
  using assms
proof (induction rows arbitrary: off fs)
  case Nil
  then show ?case using unat_lt2p [of off] by simp
next
  case (Cons r rows)
  let ?n = "round_up (unat a) (unat (ir_file_size r))"
  have sz: "unat (ucast (ir_file_size r) :: u64) = unat (ir_file_size r)"
    by (simp add: unat_ucast_wide)
  from Cons.prems obtain rest where
    abs: "unat content_offset + unat off < 2 ^ 64" and n: "?n < 2 ^ 64"
    and off: "unat off + ?n < 2 ^ 64"
    and rest: "materialize_loop content_offset a (off + of_nat ?n) rows = Inr rest"
    and fs: "fs = cpk_file_new [] (itoc_file_name (ir_id r)) off (content_offset + off)
        (ir_file_size r) (ir_extract_size r) (Some (ir_id r)) [] (ir_file_crc r) # rest"
    by (auto simp: result_iff reader_align_up_eq sz unat_of_nat_fits split: if_splits)
  have u: "unat (off + of_nat ?n) = unat off + ?n"
    using off n by (subst unat_add_fits) (simp_all add: unat_of_nat_fits)
  note IH = Cons.IH [OF rest, unfolded u]
  have "fs ! k = file_at content_offset (unat off + packed_before (unat a) (take k (r # rows))) ((r # rows) ! k) \<and>
      unat content_offset + unat off + packed_before (unat a) (take k (r # rows)) < 2 ^ 64"
    if "k < length (r # rows)" for k
    using that IH abs by (cases k) (simp_all add: fs file_at_def add.assoc)
  with IH show ?case by (simp add: fs add.assoc)
qed

lemma packed_before_append [simp]:
  "packed_before a (rows @ others) = packed_before a rows + packed_before a others"
  by (simp add: packed_before_def)

lemma packed_before_take:
  "k < length rows \<Longrightarrow>
   packed_before a (take (Suc k) rows) =
   packed_before a (take k rows) + round_up a (unat (ir_file_size (rows ! k)))"
  by (simp add: take_Suc_conv_app_nth)

lemma packed_before_mono: "k \<le> l \<Longrightarrow> packed_before a (take k rows) \<le> packed_before a (take l rows)"
proof -
  assume "k \<le> l"
  then have "take l rows = take k rows @ drop k (take l rows)"
    by (metis append_take_drop_id min.absorb1 take_take)
  then show ?thesis by (metis le_add1 packed_before_append)
qed

lemma packed_before_dvd: "0 < a \<Longrightarrow> a dvd packed_before a rows"
  by (induction rows) (simp_all add: round_up_dvd)

text \<open>The duplicate test on neighbours finds every duplicate of a sorted list.\<close>

lemma adjacent_ids_equal_iff:
  "sorted (map ir_id rows) \<Longrightarrow> adjacent_ids_equal rows \<longleftrightarrow> \<not> distinct (map ir_id rows)"
proof (induction rows rule: adjacent_ids_equal.induct)
  case (1 a b rows)
  from "1.prems" have le: "ir_id a \<le> ir_id b" and s: "sorted (map ir_id (b # rows))"
    and b: "\<forall>r \<in> set rows. ir_id b \<le> ir_id r" by auto
  have "ir_id a \<in> ir_id ` set rows \<Longrightarrow> ir_id a = ir_id b" using le b by force
  then show ?case
  proof (cases "ir_id a = ir_id b")
    case False
    with \<open>ir_id a \<in> ir_id ` set rows \<Longrightarrow> ir_id a = ir_id b\<close> "1.IH" s show ?thesis by auto
  qed simp
qed simp_all

text \<open>
  The ITOC listing as a whole: the collected rows in ID order without duplicates, one file per row,
  placed by the padded sizes before it.
\<close>

definition itoc_alignment :: "cpk_metadata \<Rightarrow> nat" where
  "itoc_alignment metadata = max (unat (md_align metadata)) 1"

lemma unat_itoc_alignment: "unat (ucast (max (md_align metadata) 1) :: u64) = itoc_alignment metadata"
proof -
  have "unat (max (md_align metadata) 1) = max (unat (md_align metadata)) 1"
    by (auto simp: max_def word_le_nat_alt)
  then show ?thesis by (simp add: itoc_alignment_def unat_ucast_wide)
qed

lemma itoc_files_layout:
  assumes "itoc_files sjis metadata itoc = Inr fs"
  obtains rows where
    "itoc_rows sjis metadata itoc = Inr rows" "distinct (map ir_id rows)"
    "length fs = length rows"
    "\<And>k. k < length rows \<Longrightarrow>
       fs ! k = file_at (md_content_offset metadata)
         (packed_before (itoc_alignment metadata) (take k (sort_key ir_id rows))) (sort_key ir_id rows ! k) \<and>
       unat (md_content_offset metadata) +
         packed_before (itoc_alignment metadata) (take k (sort_key ir_id rows)) < 2 ^ 64"
proof -
  from assms obtain rows where rows: "itoc_rows sjis metadata itoc = Inr rows"
    and adj: "\<not> adjacent_ids_equal (sort_key ir_id rows)"
    and m: "materialize_loop (md_content_offset metadata) (ucast (max (md_align metadata) 1)) 0
      (sort_key ir_id rows) = Inr fs"
    by (auto simp: itoc_files_def Let_def result_iff materialize_itoc_rows_def split: if_splits)
  have "distinct (map ir_id (sort_key ir_id rows))"
    using adj adjacent_ids_equal_iff [of "sort_key ir_id rows"] by simp
  then have "distinct (map ir_id rows)"
    by (simp add: distinct_map)
  with rows materialize_loop_eq [OF m] show thesis
    by (intro that [of rows]) (simp_all add: unat_itoc_alignment)
qed

lemma file_at_fields:
  assumes "unat content_offset + off < 2 ^ 64"
  shows "unat (file_offset (file_at content_offset off row)) = off"
    and "unat (absolute_offset (file_at content_offset off row)) = unat content_offset + off"
    and "file_size (file_at content_offset off row) = ir_file_size row"
    and "id_opt (file_at content_offset off row) = Some (ir_id row)"
proof -
  have o: "unat (of_nat off :: u64) = off" using assms by (simp add: unat_of_nat_fits)
  show "unat (file_offset (file_at content_offset off row)) = off"
    using o by (simp add: file_at_def cpk_file_new_def)
  show "unat (absolute_offset (file_at content_offset off row)) = unat content_offset + off"
    using assms o unat_add_fits [of content_offset "of_nat off"] by (simp add: file_at_def cpk_file_new_def)
  show "file_size (file_at content_offset off row) = ir_file_size row"
    "id_opt (file_at content_offset off row) = Some (ir_id row)"
    by (simp_all add: file_at_def cpk_file_new_def)
qed

lemma itoc_files_disjoint:
  assumes files: "itoc_files sjis metadata itoc = Inr fs" and kl: "k < l" "l < length fs"
  shows "the (id_opt (fs ! k)) < the (id_opt (fs ! l))"
    and "unat (absolute_offset (fs ! k)) + unat (file_size (fs ! k)) \<le> unat (absolute_offset (fs ! l))"
    and "itoc_alignment metadata dvd unat (file_offset (fs ! l))"
    and "unat (absolute_offset (fs ! l)) = unat (md_content_offset metadata) + unat (file_offset (fs ! l))"
proof -
  let ?a = "itoc_alignment metadata"
  from files obtain rows where "distinct (map ir_id rows)" and len: "length fs = length rows"
    and at: "\<And>k. k < length rows \<Longrightarrow>
       fs ! k = file_at (md_content_offset metadata) (packed_before ?a (take k (sort_key ir_id rows)))
         (sort_key ir_id rows ! k) \<and>
       unat (md_content_offset metadata) + packed_before ?a (take k (sort_key ir_id rows)) < 2 ^ 64"
    by (rule itoc_files_layout) blast
  let ?rs = "sort_key ir_id rows"
  have l: "l < length rows" and k: "k < length rows" using kl len by simp_all
  note fk = file_at_fields [OF conjunct2 [OF at [OF k]], of "?rs ! k"]
  note fl = file_at_fields [OF conjunct2 [OF at [OF l]], of "?rs ! l"]
  have K: "fs ! k = file_at (md_content_offset metadata) (packed_before ?a (take k ?rs)) (?rs ! k)"
    and L: "fs ! l = file_at (md_content_offset metadata) (packed_before ?a (take l ?rs)) (?rs ! l)"
    using at k l by blast+
  have "distinct (map ir_id ?rs)"
    using \<open>distinct (map ir_id rows)\<close> by (simp add: distinct_map)
  then have "map ir_id ?rs ! k \<noteq> map ir_id ?rs ! l"
    using kl k l by (simp only: nth_eq_iff_index_eq length_map length_sort)
  moreover have "map ir_id ?rs ! k \<le> map ir_id ?rs ! l"
    using kl l by (intro sorted_nth_mono) simp_all
  ultimately show "the (id_opt (fs ! k)) < the (id_opt (fs ! l))"
    using k l by (simp add: K L fk fl)
  have "packed_before ?a (take k ?rs) + round_up ?a (unat (ir_file_size (?rs ! k))) \<le> packed_before ?a (take l ?rs)"
    using packed_before_take [of k ?rs ?a] packed_before_mono [of "Suc k" l ?a ?rs] kl k by simp
  with round_up_ge [of "unat (ir_file_size (?rs ! k))" ?a]
  show "unat (absolute_offset (fs ! k)) + unat (file_size (fs ! k)) \<le> unat (absolute_offset (fs ! l))"
    by (simp add: K L fk fl)
  show "?a dvd unat (file_offset (fs ! l))"
  proof -
    have "0 < ?a" by (simp add: itoc_alignment_def)
    from packed_before_dvd [OF this] show ?thesis by (simp add: L fl)
  qed
  show "unat (absolute_offset (fs ! l)) = unat (md_content_offset metadata) + unat (file_offset (fs ! l))"
    by (simp add: L fl)
qed

end
