(* ===== verification/Text_Fields.thy ===== *)
theory Text_Fields
  imports Cpk_Reader
begin

text \<open>
  The text helpers of \<open>cri-cpk-cli/src/manifest.rs\<close> and what they use of the standard library:
  \<open>str::lines\<close>, \<open>split\<close>, \<open>from_str_radix\<close> and the formatting of numbers.  The printers and parsers
  are shown inverse to each other: decimal and hexadecimal numbers, hexadecimal fields, and the
  fields of a line, the lines of a text.

  The errors of the command line are \<open>cli_error\<close>; a library error is wrapped in \<open>Lib\<close>.
\<close>

section \<open>Errors\<close>

datatype manifest_message =
    UnsupportedVersion
  | Missing string
  | Expected string
  | NoValue string
  | InvalidField string
  | AlignmentTooLarge
  | VersionTooLarge
  | RevisionTooLarge
  | UnknownRecord
  | TooManyFields
  | EntryIdTooLarge
  | PackedSizeTooLarge
  | NeitherTocNorItoc
  | DirectWithoutItoc
  | InvalidHexString
  | StringNotUtf8
  | OriginalRequired
  | TooLargeForCpk
  | ExtractedSizeTooLarge
  | NoFreeIds
  | NoFreeItocIds
  | NonUtf8InputPath
  | UnsafeManifestPath
  | EmptyManifestPath
  | UnsafeInputPath

datatype cli_message =
    UnknownOption rust_string
  | Usage
  | AlignNeedsValue
  | InvalidInteger
  | ReuseOverwritesSource
  | NoPackableFiles
  | ReuseNeedsManifest
  | UnsafeArchivePath
  | ReservedManifestName
  | TooManyCpkFiles
  | MetadataUnavailable
  | ExpectedCommand

datatype cli_error =
    Lib cri_error
  | Manifest_invalid manifest_message
  | Cli cli_message
  | Memory memory_fault

type_synonym 'a cli_result = "cli_error + 'a"

section \<open>Numbers\<close>

text \<open>\<open>from_str_radix\<close> for an unsigned type of \<open>w\<close> bits: an optional plus sign, then digits.\<close>

definition digit_value :: "nat \<Rightarrow> u8 \<Rightarrow> nat option" where
  "digit_value radix b =
     (let d = (if 48 \<le> b \<and> b \<le> 57 then unat b - 48
               else if 97 \<le> b \<and> b \<le> 122 then unat b - 87
               else if 65 \<le> b \<and> b \<le> 90 then unat b - 55 else 36)
      in if d < radix then Some d else None)"

fun digits_value :: "nat \<Rightarrow> nat \<Rightarrow> bytes \<Rightarrow> nat option" where
  "digits_value radix n [] = Some n"
| "digits_value radix n (b # bs) =
     Option.bind (digit_value radix b) (\<lambda>d. digits_value radix (n * radix + d) bs)"

definition from_str_radix :: "nat \<Rightarrow> nat \<Rightarrow> rust_string \<Rightarrow> nat option" where
  "from_str_radix w radix s =
     (let digits = (if s \<noteq> [] \<and> hd s = 43 then tl s else s) in
      if digits = [] then None
      else Option.bind (digits_value radix 0 digits) (\<lambda>n. if n < 2 ^ w then Some n else None))"

text \<open>\<open>{:0nx}\<close>: at least \<open>n\<close> lower case hexadecimal digits; here the numbers have no more.\<close>

definition hex_digit :: "nat \<Rightarrow> u8" where
  "hex_digit d = (if d < 10 then of_nat (48 + d) else of_nat (87 + d))"

fun hex :: "nat \<Rightarrow> nat \<Rightarrow> rust_string" where
  "hex 0 n = []"
| "hex (Suc k) n = hex k (n div 16) @ [hex_digit (n mod 16)]"

lemma length_hex [simp]: "length (hex k n) = k"
  by (induction k arbitrary: n) simp_all

lemma unat_digit: "n < 256 \<Longrightarrow> unat (of_nat n :: u8) = n"
  by (simp add: unat_of_nat_fits)

lemma digit_value_decimal: "d < 10 \<Longrightarrow> digit_value 10 (of_nat (48 + d)) = Some d"
  using unat_digit [of "48 + d"]
  by (simp add: digit_value_def word_le_nat_alt Let_def del: of_nat_add)

lemma digit_value_hex: "d < 16 \<Longrightarrow> digit_value 16 (hex_digit d) = Some d"
  using unat_digit [of "48 + d"] unat_digit [of "87 + d"]
  by (simp add: digit_value_def hex_digit_def word_le_nat_alt Let_def del: of_nat_add)

lemma digits_value_append:
  "digits_value radix n (xs @ ys) = Option.bind (digits_value radix n xs) (\<lambda>m. digits_value radix m ys)"
  by (induction xs arbitrary: n) (simp_all add: Option.bind_assoc)

lemma digits_value_shown: "digits_value 10 0 (decimal n) = Some n"
proof (induction n rule: decimal.induct)
  case (1 n)
  show ?case
  proof (cases "n < 10")
    case True
    then show ?thesis by (subst decimal.simps) (simp add: digit_value_decimal del: of_nat_add)
  next
    case False
    from "1" [OF False] digit_value_decimal [of "n mod 10"] False show ?thesis
      by (subst decimal.simps) (simp add: digits_value_append del: of_nat_add)
  qed
qed

lemma digits_value_hex: "n < 16 ^ k \<Longrightarrow> digits_value 16 0 (hex k n) = Some n"
proof (induction k arbitrary: n)
  case (Suc k)
  then have "n div 16 < 16 ^ k" by (simp add: less_mult_imp_div_less mult.commute)
  from Suc.IH [OF this] digit_value_hex [of "n mod 16"] show ?case
    by (simp add: digits_value_append)
qed simp

text \<open>Printed numbers have no sign.\<close>

lemma decimal_nonempty: "decimal n \<noteq> [] \<and> hd (decimal n) \<noteq> 43"
proof (induction n rule: decimal.induct)
  case (1 n)
  have "(of_nat (48 + n) :: u8) \<noteq> 43" if "n < 10"
    using unat_digit [of "48 + n"] that by (auto simp del: of_nat_add)
  with 1 show ?case by (subst (1 2) decimal.simps) (auto simp: hd_append simp del: of_nat_add)
qed

lemma hex_no_sign: "set (hex k n) \<subseteq> hex_digit ` {..<16}"
  by (induction k arbitrary: n) auto

lemma hex_digit_code: "d < 16 \<Longrightarrow> unat (hex_digit d) = (if d < 10 then 48 + d else 87 + d)"
  using unat_digit [of "48 + d"] unat_digit [of "87 + d"] by (simp add: hex_digit_def del: of_nat_add)

lemma hex_code: "b \<in> set (hex k n) \<Longrightarrow> 48 \<le> unat b \<and> unat b \<le> 102"
  using hex_no_sign [of k n] hex_digit_code by (auto split: if_splits)

lemma parse_decimal: "n < 2 ^ w \<Longrightarrow> from_str_radix w 10 (decimal n) = Some n"
  using decimal_nonempty [of n] by (simp add: from_str_radix_def digits_value_shown)

lemma parse_hex:
  assumes "0 < k" and "n < 16 ^ k" and "n < 2 ^ w"
  shows "from_str_radix w 16 (hex k n) = Some n"
proof -
  have "hex k n \<noteq> []" using assms(1) by (metis length_0_conv length_hex less_irrefl)
  then have "hd (hex k n) \<in> set (hex k n)" by (rule hd_in_set)
  then have "48 \<le> unat (hd (hex k n))" using hex_code by blast
  then have "hd (hex k n) \<noteq> 43" by auto
  with \<open>hex k n \<noteq> []\<close> assms show ?thesis by (simp add: from_str_radix_def digits_value_hex)
qed

section \<open>Lines and fields\<close>

fun split_on :: "u8 \<Rightarrow> bytes \<Rightarrow> bytes list" where
  "split_on c [] = [[]]"
| "split_on c (b # bs) =
     (if b = c then [] # split_on c bs
      else case split_on c bs of [] \<Rightarrow> [[b]] | f # fs \<Rightarrow> (b # f) # fs)"

definition strip_cr :: "bytes \<Rightarrow> bytes" where
  "strip_cr s = (if s \<noteq> [] \<and> last s = 13 then butlast s else s)"

definition str_lines :: "rust_string \<Rightarrow> rust_string list" where
  "str_lines s =
     (let ls = split_on 10 s in
      map strip_cr (butlast ls) @ (if last ls = [] then [] else [last ls]))"

definition splitn2 :: "u8 \<Rightarrow> bytes \<Rightarrow> bytes \<times> bytes option" where
  "splitn2 c s =
     (let f = takeWhile (\<lambda>b. b \<noteq> c) s in
      (f, if length f < length s then Some (drop (Suc (length f)) s) else None))"

definition terminated :: "bytes list \<Rightarrow> bytes" where
  "terminated ls = concat (map (\<lambda>l. l @ [10]) ls)"

fun joined :: "u8 \<Rightarrow> bytes list \<Rightarrow> bytes" where
  "joined c [] = []"
| "joined c [f] = f"
| "joined c (f # g # fs) = f @ c # joined c (g # fs)"

lemma split_on_nonempty [simp]: "split_on c s \<noteq> []"
  by (induction s) (auto split: list.split)

lemma split_on_append: "c \<notin> set f \<Longrightarrow> split_on c (f @ c # s) = f # split_on c s"
  by (induction f) auto

lemma split_on_none: "c \<notin> set f \<Longrightarrow> split_on c f = [f]"
  by (induction f) auto

lemma split_joined: "fs \<noteq> [] \<Longrightarrow> \<forall>f \<in> set fs. c \<notin> set f \<Longrightarrow> split_on c (joined c fs) = fs"
  by (induction c fs rule: joined.induct) (simp_all add: split_on_none split_on_append)

lemma split_terminated: "\<forall>l \<in> set ls. 10 \<notin> set l \<Longrightarrow> split_on 10 (terminated ls) = ls @ [[]]"
  by (induction ls) (simp_all add: terminated_def split_on_append)

lemma lines_terminated:
  assumes "\<forall>l \<in> set ls. 10 \<notin> set l \<and> 13 \<notin> set l"
  shows "str_lines (terminated ls) = ls"
proof -
  have "strip_cr l = l" if "l \<in> set ls" for l
    using assms that by (auto simp: strip_cr_def dest: last_in_set)
  then show ?thesis using assms by (simp add: str_lines_def Let_def split_terminated map_idI)
qed

lemma splitn2_append: "c \<notin> set f \<Longrightarrow> splitn2 c (f @ c # s) = (f, Some s)"
proof -
  assume c: "c \<notin> set f"
  then have "takeWhile (\<lambda>b. b \<noteq> c) (f @ c # s) = f" by (subst takeWhile_append2) auto
  then show ?thesis by (simp add: splitn2_def)
qed

section \<open>Reading fields\<close>

definition invalid_data :: "manifest_message \<Rightarrow> cli_error" where
  "invalid_data m = Manifest_invalid m"

definition required_value :: "rust_string list \<Rightarrow> string \<Rightarrow> (rust_string \<times> rust_string list) cli_result" where
  "required_value lines key =
     (case lines of
        [] \<Rightarrow> Inl (invalid_data (Missing key))
      | line # rest \<Rightarrow>
          let (first, second) = splitn2 9 line in
          if first \<noteq> ascii key then Inl (invalid_data (Expected key))
          else and_then (ok_or (invalid_data (NoValue key)) second) (\<lambda>v. Inr (v, rest)))"

definition next_field :: "rust_string list \<Rightarrow> string \<Rightarrow> (rust_string \<times> rust_string list) cli_result" where
  "next_field fs name =
     (case fs of [] \<Rightarrow> Inl (invalid_data (Missing name)) | f # rest \<Rightarrow> Inr (f, rest))"

definition parse_u64 :: "rust_string \<Rightarrow> string \<Rightarrow> u64 cli_result" where
  "parse_u64 v name =
     ok_or (invalid_data (InvalidField name)) (map_option of_nat (from_str_radix 64 10 v))"

definition parse_hex_u64 :: "rust_string \<Rightarrow> string \<Rightarrow> u64 cli_result" where
  "parse_hex_u64 v name =
     ok_or (invalid_data (InvalidField name)) (map_option of_nat (from_str_radix 64 16 v))"

definition parse_bool :: "rust_string \<Rightarrow> string \<Rightarrow> bool cli_result" where
  "parse_bool v name =
     (if v = ascii ''0'' then Inr False
      else if v = ascii ''1'' then Inr True
      else Inl (invalid_data (InvalidField name)))"

definition encode_field :: "rust_string \<Rightarrow> rust_string" where
  "encode_field v = concat (map (\<lambda>byte. hex 2 (unat byte)) v)"

text \<open>Slicing a \<open>str\<close> inside a character panics.\<close>

definition is_char_boundary :: "rust_string \<Rightarrow> nat \<Rightarrow> bool" where
  "is_char_boundary s i \<longleftrightarrow>
     i = 0 \<or> i = length s \<or> i < length s \<and> \<not> (0x80 \<le> s ! i \<and> s ! i \<le> 0xBF)"

definition str_slice :: "rust_string \<Rightarrow> nat \<Rightarrow> nat \<Rightarrow> rust_string cli_result" where
  "str_slice s i j =
     (if i \<le> j \<and> is_char_boundary s i \<and> is_char_boundary s j then Inr (slice i (j - i) s)
      else Inl (Lib Panic))"

definition decode_byte :: "rust_string \<Rightarrow> nat \<Rightarrow> u8 cli_result" where
  "decode_byte v i =
     and_then (str_slice v i (i + 2)) (\<lambda>pair.
       ok_or (invalid_data InvalidHexString) (map_option of_nat (from_str_radix 8 16 pair)))"

definition decode_field :: "rust_string \<Rightarrow> rust_string cli_result" where
  "decode_field v =
     (if length v mod 2 \<noteq> 0 then Inl (invalid_data InvalidHexString)
      else
        and_then (map_result (decode_byte v) (map ((*) 2) [0..<length v div 2])) (\<lambda>bs.
          if utf8_valid bs then Inr bs else Inl (invalid_data StringNotUtf8)))"

section \<open>What was printed is read back\<close>

lemma parse_u64_decimal [simp]: "parse_u64 (decimal (unat w)) name = Inr w"
  using parse_decimal [of "unat w" 64] unat_lt2p [of w] by (simp add: parse_u64_def)

lemma parse_hex_u64_hex [simp]: "parse_hex_u64 (hex 16 (unat w)) name = Inr w"
  using parse_hex [of 16 "unat w" 64] unat_lt2p [of w] by (simp add: parse_hex_u64_def)

lemma hex_code_ascii: "b \<in> set (hex k n) \<Longrightarrow> b < 0x80"
  using hex_code [of b k n] by (auto simp: word_less_nat_alt)

lemma length_encode_field [simp]: "length (encode_field v) = 2 * length v"
  by (induction v) (simp_all add: encode_field_def)

lemma encode_field_code: "b \<in> set (encode_field v) \<Longrightarrow> 48 \<le> unat b \<and> unat b \<le> 102"
  by (auto simp: encode_field_def dest!: hex_code)

lemma slice_encode_field:
  assumes "i < length v"
  shows "slice (2 * i) 2 (encode_field v) = hex 2 (unat (v ! i))"
proof -
  have "slice (i * 2) 2 (concat (map (\<lambda>byte. hex 2 (unat byte)) v)) = map (\<lambda>byte. hex 2 (unat byte)) v ! i"
    by (rule slice_concat_uniform) (use assms in auto)
  then show ?thesis using assms by (simp add: encode_field_def mult.commute)
qed

lemma decode_byte_encode: "i < length v \<Longrightarrow> decode_byte (encode_field v) (2 * i) = Inr (v ! i)"
proof -
  assume i: "i < length v"
  have boundary: "is_char_boundary (encode_field v) k" if "k \<le> 2 * length v" for k
  proof (cases "k < length (encode_field v)")
    case True
    then have "unat (encode_field v ! k) \<le> 102" using encode_field_code nth_mem by blast
    with True show ?thesis by (simp add: is_char_boundary_def word_le_nat_alt)
  next
    case False
    with that show ?thesis by (simp add: is_char_boundary_def)
  qed
  have "str_slice (encode_field v) (2 * i) (2 * i + 2) = Inr (hex 2 (unat (v ! i)))"
    using boundary [of "2 * i"] boundary [of "2 * i + 2"] i slice_encode_field [OF i]
    by (simp add: str_slice_def)
  moreover have "from_str_radix 8 16 (hex 2 (unat (v ! i))) = Some (unat (v ! i))"
    using unat_lt2p [of "v ! i"] by (intro parse_hex) simp_all
  ultimately show ?thesis by (simp add: decode_byte_def)
qed

lemma decode_encode_field: "utf8_valid v \<Longrightarrow> decode_field (encode_field v) = Inr v"
proof -
  assume v: "utf8_valid v"
  have "map_result (decode_byte (encode_field v)) (map ((*) 2) [0..<length v]) = Inr v"
    by (simp add: map_result_Inr_iff list_all2_conv_all_nth decode_byte_encode)
  with v show ?thesis by (simp add: decode_field_def)
qed

lemma required_value_line:
  "9 \<notin> set (ascii key) \<Longrightarrow> required_value ((ascii key @ 9 # v) # rest) key = Inr (v, rest)"
  by (simp add: required_value_def splitn2_append)

text \<open>A field of ASCII characters never cuts a character.\<close>

lemma decode_field_panics:
  assumes "decode_field v = Inl (Lib Panic)"
  shows "\<exists>b \<in> set v. 0x80 \<le> b"
proof (rule ccontr)
  assume "\<not> (\<exists>b \<in> set v. 0x80 \<le> b)"
  then have boundary: "is_char_boundary v i" if "i \<le> length v" for i
    using that by (auto simp: is_char_boundary_def)
  have "decode_byte v i \<noteq> Inl (Lib Panic)" if "i + 2 \<le> length v" for i
    using that boundary by (auto simp: decode_byte_def str_slice_def invalid_data_def and_then_def ok_or_def split: option.split)
  then have none: "map_result (decode_byte v) is \<noteq> Inl (Lib Panic)" if "\<And>i. i \<in> set is \<Longrightarrow> i + 2 \<le> length v" for "is"
    using that by (induction "is") (auto simp: and_then_def split: sum.splits)
  have "i + 2 \<le> length v" if "i \<in> set (map ((*) 2) [0..<length v div 2])" for i
    using that by auto
  then have "map_result (decode_byte v) (map ((*) 2) [0..<length v div 2]) \<noteq> Inl (Lib Panic)" by (rule none)
  with assms show False
    by (auto simp: decode_field_def invalid_data_def and_then_def split: if_splits sum.splits)
qed

end
