(* ===== verification/Utf_Builder.thy ===== *)
theory Utf_Builder
  imports High_Table
begin

text \<open>
  The table serialiser at the end of \<open>cpk/writer.rs\<close>: typed columns and values, the interning of
  strings into one NUL terminated pool, the concatenated data pool with its locations, and
  \<open>UtfTableBuilder::build\<close> with every size check it makes.

  The pool a build ends with is \<open>nul_terminated\<close> of the list of distinct strings in order of
  first use (\<open>interned\<close>), the data pool is the concatenation of the data values
  (\<open>place_data_placed\<close>), and the bytes of the table are laid out so that \<open>HighTable::new\<close> reads the
  builder's own rows back: the round trip \<open>build_read_back\<close> at the end.
\<close>

section \<open>Columns and values\<close>

datatype utf_type = U_UInt16 | U_UInt32 | U_UInt64 | U_String | U_Data

fun utf_type_code :: "utf_type \<Rightarrow> u8" where
  "utf_type_code U_UInt16 = 2"
| "utf_type_code U_UInt32 = 4"
| "utf_type_code U_UInt64 = 6"
| "utf_type_code U_String = 10"
| "utf_type_code U_Data = 11"

fun utf_type_size :: "utf_type \<Rightarrow> nat" where
  "utf_type_size U_UInt16 = 2"
| "utf_type_size U_UInt32 = 4"
| "utf_type_size U_String = 4"
| "utf_type_size U_UInt64 = 8"
| "utf_type_size U_Data = 8"

record utf_column =
  uc_name :: rust_string
  uc_type :: utf_type

definition utf_column_new :: "string \<Rightarrow> utf_type \<Rightarrow> utf_column" where
  "utf_column_new name ty = \<lparr>uc_name = ascii name, uc_type = ty\<rparr>"

datatype utf_value =
    UV_UInt16 u16
  | UV_UInt32 u32
  | UV_UInt64 u64
  | UV_String rust_string
  | UV_Data bytes

fun utf_value_type :: "utf_value \<Rightarrow> utf_type" where
  "utf_value_type (UV_UInt16 w) = U_UInt16"
| "utf_value_type (UV_UInt32 w) = U_UInt32"
| "utf_value_type (UV_UInt64 w) = U_UInt64"
| "utf_value_type (UV_String s) = U_String"
| "utf_value_type (UV_Data d) = U_Data"

record utf_table_builder =
  tb_name :: rust_string
  tb_columns :: "utf_column list"
  tb_rows :: "utf_value list list"

definition utf_table_builder_new ::
  "string \<Rightarrow> utf_column list \<Rightarrow> utf_value list list \<Rightarrow> utf_table_builder" where
  "utf_table_builder_new name columns rows =
     \<lparr>tb_name = ascii name, tb_columns = columns, tb_rows = rows\<rparr>"

abbreviation overflow :: "cri_error" where
  "overflow \<equiv> CpkWriterError ArithmeticOverflow"

section \<open>Interning strings\<close>

type_synonym string_offsets = "rust_string \<rightharpoonup> u32"

definition intern_string ::
  "rust_string \<Rightarrow> bytes \<Rightarrow> string_offsets \<Rightarrow> (u32 \<times> bytes \<times> string_offsets) result" where
  "intern_string value pool offsets =
     (case offsets value of
        Some offset \<Rightarrow> Inr (offset, pool, offsets)
      | None \<Rightarrow>
          and_then (ok_or overflow (try_from_nat (length pool))) (\<lambda>offset.
            Inr (offset, pool @ value @ [0], offsets(value \<mapsto> offset))))"

fun intern_columns ::
  "utf_column list \<Rightarrow> bytes \<Rightarrow> string_offsets \<Rightarrow> (u32 list \<times> bytes \<times> string_offsets) result" where
  "intern_columns [] pool offsets = Inr ([], pool, offsets)"
| "intern_columns (c # cs) pool offsets =
     and_then (intern_string (uc_name c) pool offsets) (\<lambda>(o', pool, offsets).
     and_then (intern_columns cs pool offsets) (\<lambda>(os, pool, offsets).
       Inr (o' # os, pool, offsets)))"

definition intern_value ::
  "bytes \<times> string_offsets \<Rightarrow> utf_value \<Rightarrow> (bytes \<times> string_offsets) result" where
  "intern_value st v =
     (case v of
        UV_String s \<Rightarrow>
          and_then (intern_string s (fst st) (snd st)) (\<lambda>(_, pool, offsets). Inr (pool, offsets))
      | _ \<Rightarrow> Inr st)"

section \<open>The data pool\<close>

type_synonym data_locations = "nat \<times> nat \<rightharpoonup> u32 \<times> u32"

text \<open>The cells of a table with their row and column indices, in the order of the nested loops.\<close>

definition row_cells :: "nat \<times> 'a list \<Rightarrow> ((nat \<times> nat) \<times> 'a) list" where
  "row_cells r = map (\<lambda>(c, v). ((fst r, c), v)) (enumerate 0 (snd r))"

definition cells :: "'a list list \<Rightarrow> ((nat \<times> nat) \<times> 'a) list" where
  "cells rows = concat (map row_cells (enumerate 0 rows))"

definition place_data ::
  "bytes \<times> data_locations \<Rightarrow> (nat \<times> nat) \<times> utf_value \<Rightarrow> (bytes \<times> data_locations) result" where
  "place_data st cell =
     (case snd cell of
        UV_Data value \<Rightarrow>
          and_then (ok_or overflow (try_from_nat (length (fst st)))) (\<lambda>offset.
          and_then (ok_or overflow (try_from_nat (length value))) (\<lambda>len.
            Inr (fst st @ value, (snd st)(fst cell \<mapsto> (offset, len)))))
      | _ \<Rightarrow> Inr st)"

section \<open>Building\<close>

definition check_row :: "utf_column list \<Rightarrow> unit \<Rightarrow> utf_value list \<Rightarrow> unit result" where
  "check_row columns u row =
     (if length row \<noteq> length columns then Inl overflow
      else if list_all (\<lambda>(v, c). utf_value_type v = uc_type c) (zip row columns) then Inr ()
      else Inl overflow)"

definition emit_value ::
  "string_offsets \<Rightarrow> data_locations \<Rightarrow> (nat \<times> nat) \<times> utf_value \<Rightarrow> bytes result" where
  "emit_value offsets locations cell =
     (case snd cell of
        UV_UInt16 w \<Rightarrow> Inr (to_be_bytes 2 w)
      | UV_UInt32 w \<Rightarrow> Inr (to_be_bytes 4 w)
      | UV_UInt64 w \<Rightarrow> Inr (to_be_bytes 8 w)
      | UV_String s \<Rightarrow> result_map (to_be_bytes 4) (ok_or overflow (offsets s))
      | UV_Data d \<Rightarrow>
          result_map (\<lambda>(offset, len). to_be_bytes 4 offset @ to_be_bytes 4 len)
            (ok_or overflow (locations (fst cell))))"

definition emit_column :: "utf_column \<times> u32 \<Rightarrow> bytes" where
  "emit_column c = (0x50 OR utf_type_code (uc_type (fst c))) # to_be_bytes 4 (snd c)"

definition build :: "utf_table_builder \<Rightarrow> bytes result" where
  "build b =
     and_then (ok_or overflow (try_from_nat (length (tb_columns b)))) (\<lambda>column_count :: u16.
     and_then (ok_or overflow (try_from_nat (length (tb_rows b)))) (\<lambda>row_count :: u32.
     let row_size_usize = sum_list (map (\<lambda>c. utf_type_size (uc_type c)) (tb_columns b)) in
     and_then (ok_or overflow (try_from_nat row_size_usize)) (\<lambda>row_size :: u16.
     and_then (fold_result (check_row (tb_columns b)) () (tb_rows b)) (\<lambda>_.
     and_then (intern_string (tb_name b) [0] [[] \<mapsto> 0]) (\<lambda>(table_name_offset, strings, offsets).
     and_then (intern_columns (tb_columns b) strings offsets)
       (\<lambda>(column_name_offsets, strings, offsets).
     and_then (fold_result intern_value (strings, offsets) (concat (tb_rows b))) (\<lambda>(strings, offsets).
     and_then (fold_result place_data ([], Map.empty) (cells (tb_rows b))) (\<lambda>(data_pool, locations).
     and_then (ok_or overflow (usize_checked_mul (length (tb_columns b)) 5)) (\<lambda>cols_bytes.
     and_then (ok_or overflow (usize_checked_add 0x20 cols_bytes)) (\<lambda>rows_start.
     and_then (ok_or overflow (usize_checked_mul row_size_usize (length (tb_rows b)))) (\<lambda>rows_bytes.
     and_then (ok_or overflow (usize_checked_add rows_start rows_bytes)) (\<lambda>string_pool_start.
     and_then (ok_or overflow (usize_checked_add string_pool_start (length strings)))
       (\<lambda>data_pool_start.
     and_then (ok_or overflow (usize_checked_add data_pool_start (length data_pool))) (\<lambda>total_size.
     and_then (ok_or overflow (try_from_nat (total_size - 8))) (\<lambda>table_size_field :: u32.
     and_then (ok_or overflow (try_from_nat (rows_start - 8))) (\<lambda>rows_field :: u16.
     and_then (ok_or overflow (try_from_nat (string_pool_start - 8))) (\<lambda>strings_field :: u32.
     and_then (ok_or overflow (try_from_nat (data_pool_start - 8))) (\<lambda>data_field :: u32.
     and_then (map_result (emit_value offsets locations) (cells (tb_rows b))) (\<lambda>row_data.
       Inr (header_layout UTF_MAGIC table_size_field 0 1 rows_field strings_field data_field
              table_name_offset column_count row_size row_count @
            concat (map emit_column (zip (tb_columns b) column_name_offsets)) @
            concat row_data @ strings @ data_pool))))))))))))))))))))"

text \<open>The equations that evaluate a build on concrete columns and rows.\<close>

lemmas build_eval = build_def utf_table_builder_new_def utf_column_new_def ascii_def Let_def
  try_from_nat_def check_row_def intern_string_def intern_value_def cells_def row_cells_def
  place_data_def usize_checked_add_def usize_checked_mul_def emit_value_def

section \<open>The string pool of a build\<close>

definition string_start :: "rust_string list \<Rightarrow> rust_string \<Rightarrow> nat" where
  "string_start ss s = length (nul_terminated (takeWhile (\<lambda>x. x \<noteq> s) ss))"

definition interned :: "bytes \<Rightarrow> string_offsets \<Rightarrow> rust_string list \<Rightarrow> bool" where
  "interned pool offsets ss \<longleftrightarrow>
     pool = nul_terminated ss \<and> distinct ss \<and>
     (\<forall>s. offsets s = (if s \<in> set ss then Some (of_nat (string_start ss s)) else None)) \<and>
     (\<forall>s \<in> set ss. string_start ss s < 2 ^ 32)"

definition add_string :: "rust_string list \<Rightarrow> rust_string \<Rightarrow> rust_string list" where
  "add_string ss s = (if s \<in> set ss then ss else ss @ [s])"

lemma string_start_append [simp]: "s \<in> set ss \<Longrightarrow> string_start (ss @ ts) s = string_start ss s"
  by (simp add: string_start_def)

lemma string_start_new: "s \<notin> set ss \<Longrightarrow> string_start (ss @ [s]) s = length (nul_terminated ss)"
proof -
  assume "s \<notin> set ss"
  then have "takeWhile (\<lambda>x. x \<noteq> s) (ss @ [s]) = ss" by (subst takeWhile_append2) auto
  then show ?thesis by (simp add: string_start_def)
qed

lemma string_start_zero: "string_start ss s = 0 \<Longrightarrow> s \<in> set ss \<Longrightarrow> s = hd ss"
  by (cases ss) (auto simp: string_start_def split: if_splits)

lemma add_string_extends: "\<exists>ts. foldl add_string ss xs = ss @ ts"
proof (induction xs arbitrary: ss)
  case Nil
  then show ?case by simp
next
  case (Cons x xs)
  from Cons.IH [of "add_string ss x"] show ?case by (auto simp: add_string_def split: if_splits)
qed

lemma string_start_foldl [simp]:
  "s \<in> set ss \<Longrightarrow> string_start (foldl add_string ss xs) s = string_start ss s"
  using add_string_extends [of ss xs] by auto

lemma set_foldl_add_string: "set (foldl add_string ss xs) = set ss \<union> set xs"
  by (induction xs arbitrary: ss) (auto simp: add_string_def)

lemma hd_foldl_add_string: "ss \<noteq> [] \<Longrightarrow> hd (foldl add_string ss xs) = hd ss"
  using add_string_extends [of ss xs] by auto

lemma interned_start: "interned [0] [[] \<mapsto> 0] [[]]"
  by (auto simp: interned_def string_start_def)

lemma intern_string_interned:
  assumes "interned pool offsets ss" and "intern_string s pool offsets = Inr (o', pool', offsets')"
  shows "interned pool' offsets' (add_string ss s) \<and> unat o' = string_start (add_string ss s) s"
proof (cases "s \<in> set ss")
  case True
  with assms have "offsets s = Some (of_nat (string_start ss s))" "string_start ss s < 2 ^ 32"
    by (auto simp: interned_def)
  with True assms show ?thesis
    by (auto simp: intern_string_def add_string_def unat_of_nat_fits)
next
  case False
  with assms have new: "offsets s = None" "pool = nul_terminated ss" by (auto simp: interned_def)
  with assms(2) have fits: "length pool < 2 ^ 32" and o': "o' = of_nat (length pool)"
    and p': "pool' = pool @ s @ [0]" "offsets' = offsets(s \<mapsto> o')"
    by (auto simp: intern_string_def result_iff)
  have ss': "add_string ss s = ss @ [s]" using False by (simp add: add_string_def)
  have "interned pool' offsets' (ss @ [s])"
    using assms(1) False fits string_start_new [OF False]
    unfolding interned_def by (auto simp: p' o' new(2))
  then show ?thesis
    using fits string_start_new [OF False] by (simp add: ss' o' new(2) unat_of_nat_fits)
qed

lemma intern_columns_interned:
  assumes "interned pool offsets ss" and "intern_columns cs pool offsets = Inr (os, pool', offsets')"
  shows "interned pool' offsets' (foldl add_string ss (map uc_name cs)) \<and> length os = length cs \<and>
    (\<forall>i < length cs. unat (os ! i) =
       string_start (foldl add_string ss (map uc_name cs)) (uc_name (cs ! i)))"
  using assms
proof (induction cs arbitrary: pool offsets ss os)
  case Nil
  then show ?case by auto
next
  case (Cons c cs)
  from Cons.prems(2) obtain o1 pool1 offsets1 os1 where
    o1: "intern_string (uc_name c) pool offsets = Inr (o1, pool1, offsets1)" and
    os1: "intern_columns cs pool1 offsets1 = Inr (os1, pool', offsets')" and os: "os = o1 # os1"
    by (auto simp: result_iff)
  let ?ss1 = "add_string ss (uc_name c)"
  from intern_string_interned [OF Cons.prems(1) o1] have
    one: "interned pool1 offsets1 ?ss1" "unat o1 = string_start ?ss1 (uc_name c)" by simp_all
  have mem: "uc_name c \<in> set ?ss1" by (simp add: add_string_def)
  from Cons.IH [OF one(1) os1] show ?case
    unfolding os by (auto simp: nth_Cons one(2) mem split: nat.splits)
qed

definition strings_of :: "utf_value list \<Rightarrow> rust_string list" where
  "strings_of vs = concat (map (\<lambda>v. case v of UV_String s \<Rightarrow> [s] | _ \<Rightarrow> []) vs)"

lemma intern_value_simps [simp]:
  "intern_value st (UV_UInt16 a) = Inr st"
  "intern_value st (UV_UInt32 b) = Inr st"
  "intern_value st (UV_UInt64 c) = Inr st"
  "intern_value st (UV_Data d) = Inr st"
  by (simp_all add: intern_value_def)

lemma intern_values_interned:
  assumes "interned pool offsets ss"
    and "fold_result intern_value (pool, offsets) vs = Inr (pool', offsets')"
  shows "interned pool' offsets' (foldl add_string ss (strings_of vs))"
  using assms
proof (induction vs arbitrary: pool offsets ss)
  case Nil
  then show ?case by (simp add: strings_of_def)
next
  case (Cons v vs)
  show ?case
  proof (cases v)
    case (UV_String s)
    from Cons.prems(2) obtain st1 where
      st1: "intern_value (pool, offsets) v = Inr st1" and
      st2: "fold_result intern_value st1 vs = Inr (pool', offsets')"
      by (auto simp: result_iff)
    from st1 obtain o1 pool1 offsets1 where
      o1: "intern_string s pool offsets = Inr (o1, pool1, offsets1)" and st1': "st1 = (pool1, offsets1)"
      by (auto simp: intern_value_def UV_String result_iff)
    note rest = st2 [unfolded st1']
    from intern_string_interned [OF Cons.prems(1) o1] have "interned pool1 offsets1 (add_string ss s)"
      by simp
    from Cons.IH [OF this rest] show ?thesis by (simp add: strings_of_def UV_String)
  qed (use Cons in \<open>simp_all add: strings_of_def\<close>)
qed

text \<open>Reading an interned string back through the pool the reader builds.\<close>

lemma pool_map_string_start:
  assumes "s \<in> set ss"
  shows "pool_map ss ss (string_start ss s) = Some s"
proof -
  let ?i = "length (takeWhile (\<lambda>x. x \<noteq> s) ss)"
  have i: "?i < length ss" using assms by (induction ss) auto
  have "ss ! ?i = s" using nth_length_takeWhile [OF i] by simp
  with pool_map_nth [OF i] show ?thesis
    by (simp add: string_start_def flip: takeWhile_eq_take)
qed

section \<open>The data pool of a build\<close>

definition data_at :: "bytes \<Rightarrow> (u32 \<times> u32) option \<Rightarrow> bytes \<Rightarrow> bool" where
  "data_at pool loc d \<longleftrightarrow>
     (\<exists>offset len. loc = Some (offset, len) \<and> unat len = length d \<and>
        unat offset + length d \<le> length pool \<and> slice (unat offset) (length d) pool = d)"

lemma data_at_append: "data_at pool loc d \<Longrightarrow> data_at (pool @ extra) loc d"
  by (auto simp: data_at_def slice_def)

lemma place_data_placed:
  assumes "fold_result place_data ([], Map.empty) cs = Inr st" and "distinct (map fst cs)"
  shows "\<forall>k d. (k, UV_Data d) \<in> set cs \<longrightarrow> data_at (fst st) (snd st k) d"
  using assms(1)
proof (rule fold_result_invariant)
  show "\<forall>k d. (k, UV_Data d) \<in> set [] \<longrightarrow> data_at (fst ([], Map.empty)) (snd ([], Map.empty) k) d"
    by simp
next
  fix ys y zs u v
  assume cs: "cs = ys @ y # zs" and step: "place_data u y = Inr v"
    and IH: "\<forall>k d. (k, UV_Data d) \<in> set ys \<longrightarrow> data_at (fst u) (snd u k) d"
  have new: "fst y \<notin> fst ` set ys" using assms(2) by (auto simp: cs)
  show "\<forall>k d. (k, UV_Data d) \<in> set (ys @ [y]) \<longrightarrow> data_at (fst v) (snd v k) d"
  proof (cases "snd y")
    case (UV_Data x)
    with step obtain offset len where v: "v = (fst u @ x, (snd u)(fst y \<mapsto> (offset, len)))"
      and fits: "unat offset = length (fst u)" "unat len = length x"
      by (auto simp: place_data_def result_iff unat_of_nat_fits)
    have here: "data_at (fst v) (snd v (fst y)) x"
      by (simp add: v data_at_def fits slice_def)
    have "data_at (fst v) (snd v k) d" if "(k, UV_Data d) \<in> set ys" for k d
    proof -
      from that have "k \<in> fst ` set ys" by force
      with new have "k \<noteq> fst y" by metis
      from IH that have "data_at (fst u) (snd u k) d" by blast
      with \<open>k \<noteq> fst y\<close> show ?thesis by (simp add: v data_at_append)
    qed
    with here UV_Data show ?thesis by auto
  qed (use step IH in \<open>auto simp: place_data_def\<close>)
qed

lemma in_cells:
  "((r, c), v) \<in> set (cells rows) \<longleftrightarrow> r < length rows \<and> c < length (rows ! r) \<and> v = rows ! r ! c"
proof -
  have "((r, c), v) \<in> set (cells rows) \<longleftrightarrow>
      (\<exists>row. (r, row) \<in> set (enumerate 0 rows) \<and> (c, v) \<in> set (enumerate 0 row))"
    by (force simp: cells_def row_cells_def)
  then show ?thesis by (auto simp: in_set_enumerate_eq)
qed

lemma row_cells_nth: "row_cells (r, row) = map (\<lambda>c. ((r, c), row ! c)) [0..<length row]"
  by (rule nth_equalityI) (simp_all add: row_cells_def nth_enumerate_eq)

lemma distinct_row_cells: "distinct (map fst (row_cells r))"
  by (cases r) (simp add: row_cells_nth comp_def distinct_map inj_on_def)

lemma distinct_cells_from: "distinct (map fst (concat (map row_cells (enumerate n rows))))"
proof (induction rows arbitrary: n)
  case Nil
  then show ?case by simp
next
  case (Cons r rows)
  have "fst ` set (row_cells (n, r)) \<inter> fst ` set (concat (map row_cells (enumerate (Suc n) rows))) = {}"
    by (auto simp: row_cells_def in_set_enumerate_eq)
  with Cons [of "Suc n"] distinct_row_cells [of "(n, r)"] show ?case by simp
qed

lemma distinct_cells: "distinct (map fst (cells rows))"
  unfolding cells_def by (rule distinct_cells_from)

section \<open>The rows and columns of a build\<close>

definition encode_cell ::
  "string_offsets \<Rightarrow> data_locations \<Rightarrow> (nat \<times> nat) \<times> utf_value \<Rightarrow> row_value" where
  "encode_cell offsets locations cell =
     (case snd cell of
        UV_UInt16 w \<Rightarrow> RV_UInt16 w
      | UV_UInt32 w \<Rightarrow> RV_UInt32 w
      | UV_UInt64 w \<Rightarrow> RV_UInt64 w
      | UV_String s \<Rightarrow> RV_String (the (offsets s))
      | UV_Data d \<Rightarrow> RV_Data \<lparr>dv_offset = fst (the (locations (fst cell))),
                              dv_length = snd (the (locations (fst cell)))\<rparr>)"

definition encode_rows ::
  "string_offsets \<Rightarrow> data_locations \<Rightarrow> utf_value list list \<Rightarrow> row_value list list" where
  "encode_rows offsets locations rows =
     map (\<lambda>r. map (encode_cell offsets locations) (row_cells r)) (enumerate 0 rows)"

definition encode_column :: "utf_column \<times> u32 \<Rightarrow> column" where
  "encode_column c =
     \<lparr>col_flag = 0x50 OR utf_type_code (uc_type (fst c)), col_string_offset = snd c,
      col_default = None\<rparr>"

fun column_type_of :: "utf_type \<Rightarrow> column_type" where
  "column_type_of U_UInt16 = T_UInt16"
| "column_type_of U_UInt32 = T_UInt32"
| "column_type_of U_UInt64 = T_UInt64"
| "column_type_of U_String = T_String"
| "column_type_of U_Data = T_Data"

lemma column_type_of_size [simp]: "unat (column_type_size (column_type_of ty)) = utf_type_size ty"
  by (cases ty) simp_all

lemma encoded_flag:
  "get_type (0x50 OR utf_type_code ty) = column_type_of ty"
  "flags_contain (get_flags (0x50 OR utf_type_code ty)) NAME"
  "flags_contain (get_flags (0x50 OR utf_type_code ty)) ROW_STORAGE"
  "\<not> flags_contain (get_flags (0x50 OR utf_type_code ty)) DEFAULT_VALUE"
  by (cases ty; simp add: get_type_def flags_contain_def get_flags_def TYPE_MASK_def NAME_def
      ROW_STORAGE_def DEFAULT_VALUE_def Let_def)+

lemma encode_column_wf: "column_wf (encode_column c)"
  by (simp add: encode_column_def column_wf_def encoded_flag)

lemma emit_column_encode: "emit_column c = column_bytes (encode_column c)"
  by (simp add: emit_column_def column_bytes_def encode_column_def encoded_flag)

lemma encode_cell_type: "value_type (encode_cell offsets locations (k, v)) = column_type_of (utf_value_type v)"
  by (cases v) (simp_all add: encode_cell_def)

lemma emit_value_encode:
  "emit_value offsets locations cell = Inr bs \<Longrightarrow> bs = cell_bytes (encode_cell offsets locations cell)"
  by (cases "snd cell") (auto simp: emit_value_def encode_cell_def result_iff)

lemma encode_rows_shape [simp]: "length (encode_rows offsets locations rows) = length rows"
  by (simp add: encode_rows_def)

lemma encode_rows_nth:
  assumes "r < length rows"
  shows "encode_rows offsets locations rows ! r =
    map (\<lambda>c. encode_cell offsets locations ((r, c), rows ! r ! c)) [0..<length (rows ! r)]"
  using assms by (simp add: encode_rows_def nth_enumerate_eq row_cells_nth)

lemma emitted_rows:
  assumes "map_result (emit_value offsets locations) (cells rows) = Inr row_data"
  shows "concat row_data = concat (map row_bytes (encode_rows offsets locations rows))"
proof -
  have "row_data = map (\<lambda>cell. cell_bytes (encode_cell offsets locations cell)) (cells rows)"
    using map_result_length [OF assms]
    by (intro nth_equalityI) (auto dest!: map_result_nth [OF assms] emit_value_encode)
  moreover have "concat (map f (concat xss)) = concat (map (\<lambda>xs. concat (map f xs)) xss)"
    for f :: "(nat \<times> nat) \<times> utf_value \<Rightarrow> bytes" and xss
    by (induction xss) simp_all
  ultimately show ?thesis
    by (simp add: encode_rows_def cells_def row_bytes_def comp_def)
qed

section \<open>The reader inverts the builder\<close>

text \<open>
  \<open>cell_shows ht v rv\<close>: the parsed value \<open>rv\<close> of table \<open>ht\<close> stands for the value \<open>v\<close> given to the
  builder.  Offset 0 of the string pool is the null reference of the format; exactly the empty
  string is stored there.
\<close>

fun cell_shows :: "high_table \<Rightarrow> utf_value \<Rightarrow> row_value \<Rightarrow> bool" where
  "cell_shows ht (UV_UInt16 w) rv \<longleftrightarrow> rv = RV_UInt16 w"
| "cell_shows ht (UV_UInt32 w) rv \<longleftrightarrow> rv = RV_UInt32 w"
| "cell_shows ht (UV_UInt64 w) rv \<longleftrightarrow> rv = RV_UInt64 w"
| "cell_shows ht (UV_String s) rv \<longleftrightarrow>
     (\<exists>offset. rv = RV_String offset \<and> StringPoolFast_get_string (ht_strings ht) offset = Some s \<and>
        (offset = 0 \<longleftrightarrow> s = []))"
| "cell_shows ht (UV_Data d) rv \<longleftrightarrow>
     (\<exists>value. rv = RV_Data value \<and> unat (dv_length value) = length d \<and> ht_data ht value = Some d)"

definition table_shows :: "high_table \<Rightarrow> utf_table_builder \<Rightarrow> bool" where
  "table_shows ht b \<longleftrightarrow>
     length (ht_rows ht) = length (tb_rows b) \<and>
     length (ht_columns ht) = length (tb_columns b) \<and>
     (\<forall>c \<in> set (ht_columns ht). row_stored c) \<and>
     (\<forall>name. column_index ht name = find_position (\<lambda>c. uc_name c = ascii name) (tb_columns b)) \<and>
     (\<forall>r < length (tb_rows b). length (tb_rows b ! r) = length (tb_columns b) \<and>
        (\<forall>c < length (tb_columns b). \<exists>rv. ht_value ht r c = Some rv \<and>
           utf_value_type (tb_rows b ! r ! c) = uc_type (tb_columns b ! c) \<and>
           cell_shows ht (tb_rows b ! r ! c) rv))"

text \<open>The strings a table stores: its name, its column names and its string cells.\<close>

definition builder_strings :: "utf_table_builder \<Rightarrow> rust_string list" where
  "builder_strings b =
     tb_name b # map uc_name (tb_columns b) @ strings_of (concat (tb_rows b))"

lemma check_rows_ok:
  "fold_result (check_row cs) u rows = Inr v \<Longrightarrow>
   \<forall>row \<in> set rows. length row = length cs \<and> (\<forall>c < length cs. utf_value_type (row ! c) = uc_type (cs ! c))"
  by (induction rows arbitrary: u)
    (auto simp: result_iff check_row_def list_all_length split: if_splits)

lemma try_from_nat_unat: "try_from_nat n = Some w \<Longrightarrow> unat w = n"
  by (auto simp: result_iff unat_of_nat_fits)

text \<open>What a successful build has computed, section by section.\<close>

lemma build_sections:
  assumes "build b = Inr t"
  obtains tsize rowsf strsf dataf name ncols rsize nrows os ss offsets locations dat where
    "t = header_layout UTF_MAGIC tsize 0 1 rowsf strsf dataf name ncols rsize nrows @
       concat (map emit_column (zip (tb_columns b) os)) @
       concat (map row_bytes (encode_rows offsets locations (tb_rows b))) @ nul_terminated ss @ dat"
    "unat ncols = length (tb_columns b)" "unat nrows = length (tb_rows b)"
    "unat rsize = sum_list (map (\<lambda>c. utf_type_size (uc_type c)) (tb_columns b))"
    "unat rowsf + 8 = 0x20 + length (tb_columns b) * 5"
    "unat strsf + 8 = unat rowsf + 8 + unat rsize * length (tb_rows b)"
    "unat dataf + 8 = unat strsf + 8 + length (nul_terminated ss)"
    "unat tsize + 8 = unat dataf + 8 + length dat"
    "\<forall>row \<in> set (tb_rows b). length row = length (tb_columns b) \<and>
       (\<forall>c < length (tb_columns b). utf_value_type (row ! c) = uc_type (tb_columns b ! c))"
    "interned (nul_terminated ss) offsets ss" "ss = foldl add_string [[]] (builder_strings b)"
    "length os = length (tb_columns b)"
    "\<forall>i < length (tb_columns b). unat (os ! i) = string_start ss (uc_name (tb_columns b ! i))"
    "\<forall>k d. (k, UV_Data d) \<in> set (cells (tb_rows b)) \<longrightarrow> data_at dat (locations k) d"
proof -
  let ?rs = "sum_list (map (\<lambda>c. utf_type_size (uc_type c)) (tb_columns b))"
  let ?rows = "tb_rows b" let ?cs = "tb_columns b"
  from assms obtain u ncols nrows rsize tsize rowsf strsf dataf name p1 f1 os p2 f2 p3 f3 dat
    locations row_data where
    counts: "try_from_nat (length ?cs) = Some ncols" "try_from_nat (length ?rows) = Some nrows"
      "try_from_nat ?rs = Some rsize"
    and check: "fold_result (check_row ?cs) () ?rows = Inr u"
    and i1: "intern_string (tb_name b) [0] [[] \<mapsto> 0] = Inr (name, p1, f1)"
    and i2: "intern_columns ?cs p1 f1 = Inr (os, p2, f2)"
    and i3: "fold_result intern_value (p2, f2) (concat ?rows) = Inr (p3, f3)"
    and d: "fold_result place_data ([], Map.empty) (cells ?rows) = Inr (dat, locations)"
    and r: "map_result (emit_value f3 locations) (cells ?rows) = Inr row_data"
    and fields:
      "try_from_nat (0x20 + length ?cs * 5 + ?rs * length ?rows + length p3 + length dat - 8) = Some tsize"
      "try_from_nat (0x20 + length ?cs * 5 - 8) = Some rowsf"
      "try_from_nat (0x20 + length ?cs * 5 + ?rs * length ?rows - 8) = Some strsf"
      "try_from_nat (0x20 + length ?cs * 5 + ?rs * length ?rows + length p3 - 8) = Some dataf"
    and t: "t = header_layout UTF_MAGIC tsize 0 1 rowsf strsf dataf name ncols rsize nrows @
      concat (map emit_column (zip ?cs os)) @ concat row_data @ p3 @ dat"
    unfolding build_def Let_def
    by (simp add: and_then_Inr ok_or_Inr usize_checked_add_Some usize_checked_mul_Some)
      (elim exE conjE, blast)
  let ?ss = "foldl add_string [[]] (builder_strings b)"
  from intern_string_interned [OF interned_start i1] have s1: "interned p1 f1 (foldl add_string [[]] [tb_name b])"
    by simp
  note s2 = intern_columns_interned [OF s1 i2]
  from intern_values_interned [OF _ i3] s2
  have s3: "interned p3 f3 ?ss" by (simp add: builder_strings_def)
  then have p3: "p3 = nul_terminated ?ss" by (simp add: interned_def)
  let ?mid = "foldl add_string (foldl add_string [[]] [tb_name b]) (map uc_name ?cs)"
  have ss: "?ss = foldl add_string ?mid (strings_of (concat ?rows))"
    by (simp add: builder_strings_def)
  have os: "\<forall>i < length ?cs. unat (os ! i) = string_start ?ss (uc_name (?cs ! i))"
  proof (intro allI impI)
    fix i assume i: "i < length ?cs"
    then have "uc_name (?cs ! i) \<in> set ?mid" by (auto simp: set_foldl_add_string)
    with s2 i show "unat (os ! i) = string_start ?ss (uc_name (?cs ! i))"
      unfolding ss by simp
  qed
  note unats = counts [THEN try_from_nat_unat] fields [THEN try_from_nat_unat]
  show thesis
    by (rule that [OF t [unfolded emitted_rows [OF r] p3] unats(1,2,3) _ _ _ _ check_rows_ok [OF check]
          s3 [unfolded p3] refl _ os])
      (use s2 p3 unats place_data_placed [OF d distinct_cells] in simp_all)
qed

lemma length_emit_columns: "length os = length cs \<Longrightarrow> length (concat (map emit_column (zip cs os))) = length cs * 5"
  by (induction cs os rule: list_induct2') (simp_all add: emit_column_def)

lemma encoded_row_fits:
  assumes "length row = length cs" and "length os = length cs"
    and "\<forall>c < length cs. utf_value_type (row ! c) = uc_type (cs ! c)"
  shows "list_all2 cell_fits (map encode_column (zip cs os))
    (map (\<lambda>c. encode_cell offsets locations ((r, c), row ! c)) [0..<length row])"
  using assms
  by (auto simp: list_all2_conv_all_nth cell_fits_def encode_column_def encoded_flag encode_cell_type
      intro: column_type_of.elims)

lemma encoded_row_length:
  assumes "length row = length cs" and "\<forall>c < length cs. utf_value_type (row ! c) = uc_type (cs ! c)"
  shows "length (row_bytes (map (\<lambda>c. encode_cell offsets locations ((r, c), row ! c)) [0..<length row])) =
    sum_list (map (\<lambda>c. utf_type_size (uc_type c)) cs)"
proof -
  have "map (\<lambda>c. utf_type_size (utf_value_type (row ! c))) [0..<length row] =
      map (\<lambda>c. utf_type_size (uc_type c)) cs"
    using assms by (intro nth_equalityI) simp_all
  then show ?thesis
    by (simp add: row_bytes_def length_concat comp_def encode_cell_type)
qed

lemma encoded_sizes:
  "length os = length cs \<Longrightarrow>
   stored_sizes (map encode_column (zip cs os)) = map (\<lambda>c. utf_type_size (uc_type c)) cs"
  by (induction cs os rule: list_induct2')
    (simp_all add: stored_sizes_def row_stored_def encode_column_def encoded_flag)

lemma builder_pool_ok:
  "pool_strings_ok ss \<Longrightarrow> pool_strings_ok (foldl add_string [[]] ss)"
  by (simp add: pool_strings_ok_def set_foldl_add_string)

lemma find_position_cong:
  "length xs = length ys \<Longrightarrow> (\<And>i. i < length xs \<Longrightarrow> p (xs ! i) = q (ys ! i)) \<Longrightarrow>
   find_position p xs = find_position q ys"
proof (induction xs ys rule: list_induct2')
  case (4 x xs y ys)
  have "p x = q y" using 4(3) [of 0] by simp
  moreover have "find_position p xs = find_position q ys"
    using 4(2) 4(3) [of "Suc _"] by (intro 4(1)) simp_all
  ultimately show ?case by simp
qed simp_all

lemma ht_data_of_pool:
  assumes "ht_alloc ht = pre @ dat" and "unat (th_data_pool_offset (ht_header ht)) = length pre"
    and "length (pre @ dat) < 2 ^ 64"
    and "unat (dv_offset v) + n \<le> length dat" and "unat (dv_length v) = n"
  shows "ht_data ht v = Some (slice (unat (dv_offset v)) n dat)"
  using assms by (simp add: ht_data_def usize_checked_add_def slice_append_skip)

lemma interned_string:
  assumes "interned pool offsets ss" and "s \<in> set ss" and "hd ss = []"
  shows "\<exists>offset. offsets s = Some offset \<and> pool_map ss ss (unat offset) = Some s \<and> (offset = 0 \<longleftrightarrow> s = [])"
proof -
  let ?o = "of_nat (string_start ss s) :: u32"
  have o: "offsets s = Some ?o" "unat ?o = string_start ss s"
    using assms(1,2) by (auto simp: interned_def unat_of_nat_fits)
  have "string_start ss s = 0 \<longleftrightarrow> s = []"
    using assms(2,3) string_start_zero [of ss s] by (cases ss) (auto simp: string_start_def)
  then have "?o = 0 \<longleftrightarrow> s = []" using o(2) by (metis unsigned_0 unat_eq_zero)
  with o pool_map_string_start [OF assms(2)] show ?thesis by simp
qed

lemma encoded_cell_shows:
  assumes "ht_strings ht = StringPoolFast (pool_map ss ss)" and "interned pool offsets ss"
    and "hd ss = []" and "\<And>s. v = UV_String s \<Longrightarrow> s \<in> set ss"
    and "\<And>d. v = UV_Data d \<Longrightarrow> data_at dat (locations k) d"
    and "ht_alloc ht = pre @ dat" and "unat (th_data_pool_offset (ht_header ht)) = length pre"
    and "length (pre @ dat) < 2 ^ 64"
  shows "cell_shows ht v (encode_cell offsets locations (k, v))"
proof (cases v)
  case (UV_String s)
  with interned_string [OF assms(2) assms(4) [OF UV_String] assms(3)] assms(1) show ?thesis
    by (auto simp: encode_cell_def)
next
  case (UV_Data d)
  from assms(5) [OF this] obtain offset len where loc: "locations k = Some (offset, len)"
    "unat len = length d" "unat offset + length d \<le> length dat" "slice (unat offset) (length d) dat = d"
    by (auto simp: data_at_def)
  with ht_data_of_pool [OF assms(6,7,8), of "\<lparr>dv_offset = offset, dv_length = len\<rparr>" "length d"] UV_Data
  show ?thesis by (simp add: encode_cell_def)
qed (simp_all add: encode_cell_def)

text \<open>The columns and the cells of a table that holds what the builder encoded.\<close>

lemma built_column_index:
  assumes ht: "ht_columns ht = map encode_column (zip cols os)" "ht_strings ht = StringPoolFast (pool_map ss ss)"
    and os: "length os = length cols" "\<forall>i < length cols. unat (os ! i) = string_start ss (uc_name (cols ! i))"
    and names: "\<forall>c \<in> set cols. uc_name c \<in> set ss"
  shows "column_index ht nm = find_position (\<lambda>c. uc_name c = ascii nm) cols"
  unfolding column_index_def
proof (rule find_position_cong)
  fix i assume "i < length (ht_columns ht)"
  with ht(1) os(1) have i: "i < length cols" by simp
  with names have "uc_name (cols ! i) \<in> set ss" by simp
  from pool_map_string_start [OF this] i os ht
  show "(StringPoolFast_get_string (ht_strings ht) (col_string_offset (ht_columns ht ! i)) = Some (ascii nm)) =
      (uc_name (cols ! i) = ascii nm)"
    by (simp add: encode_column_def)
qed (use ht(1) os(1) in simp)

lemma built_cell:
  assumes ht: "ht_rows ht = encode_rows offsets locations rows" "ht_strings ht = StringPoolFast (pool_map ss ss)"
    and interned: "interned (nul_terminated ss) offsets ss" and head: "hd ss = []"
    and strings: "set (strings_of (concat rows)) \<subseteq> set ss"
    and data: "\<forall>k d. (k, UV_Data d) \<in> set (cells rows) \<longrightarrow> data_at dat (locations k) d"
    and alloc: "ht_alloc ht = pre @ dat" "unat (th_data_pool_offset (ht_header ht)) = length pre"
      "length (pre @ dat) < 2 ^ 64"
    and r: "r < length rows" and c: "c < length (rows ! r)"
  shows "\<exists>rv. ht_value ht r c = Some rv \<and> cell_shows ht (rows ! r ! c) rv"
proof -
  let ?v = "rows ! r ! c" let ?rv = "encode_cell offsets locations ((r, c), ?v)"
  have "?rv \<noteq> RV_None" by (cases ?v) (simp_all add: encode_cell_def)
  then have val: "ht_value ht r c = Some ?rv" using r c by (simp add: ht_value_def ht(1) encode_rows_nth)
  have mem: "((r, c), ?v) \<in> set (cells rows)" using r c by (simp add: in_cells)
  have "?v \<in> set (concat rows)" using r c by (auto intro!: bexI [of _ "rows ! r"])
  then have "s \<in> set ss" if "?v = UV_String s" for s
    using that strings by (force simp: strings_of_def)
  then have "cell_shows ht ?v ?rv"
  proof (rule encoded_cell_shows [OF ht(2) interned head])
    show "data_at dat (locations (r, c)) d" if "?v = UV_Data d" for d using data mem that by simp
  qed (assumption | rule alloc)+
  with val show ?thesis by blast
qed

text \<open>
  The strings a build may store are the valid ones without a NUL; \<open>length t < 2 ^ 32\<close> excludes the
  last eight sizes the writer accepts, whose pool offsets the reader saturates.
\<close>

theorem build_read_back_shows:
  assumes "build b = Inr t" and "pool_strings_ok (builder_strings b)" and small: "length t < 2 ^ 32"
  shows "\<exists>ht. high_table_new sjis t = Inr ht \<and> ht_alloc ht = t \<and> table_shows ht b"
  using assms(1)
proof (rule build_sections)
  fix tsize rowsf strsf dataf name ncols rsize nrows os ss offsets locations dat
  let ?cols = "tb_columns b" let ?rows = "tb_rows b"
  let ?rvs = "encode_rows offsets locations ?rows"
  let ?cs = "map encode_column (zip ?cols os)"
  assume t: "t = header_layout UTF_MAGIC tsize 0 1 rowsf strsf dataf name ncols rsize nrows @
       concat (map emit_column (zip ?cols os)) @ concat (map row_bytes ?rvs) @ nul_terminated ss @ dat"
    and counts: "unat ncols = length ?cols" "unat nrows = length ?rows"
      "unat rsize = sum_list (map (\<lambda>c. utf_type_size (uc_type c)) ?cols)"
    and fields: "unat rowsf + 8 = 0x20 + length ?cols * 5"
      "unat strsf + 8 = unat rowsf + 8 + unat rsize * length ?rows"
      "unat dataf + 8 = unat strsf + 8 + length (nul_terminated ss)"
      "unat tsize + 8 = unat dataf + 8 + length dat"
    and rows: "\<forall>row \<in> set ?rows. length row = length ?cols \<and>
       (\<forall>c < length ?cols. utf_value_type (row ! c) = uc_type (?cols ! c))"
    and interned: "interned (nul_terminated ss) offsets ss"
    and ss: "ss = foldl add_string [[]] (builder_strings b)"
    and os: "length os = length ?cols" "\<forall>i < length ?cols. unat (os ! i) = string_start ss (uc_name (?cols ! i))"
    and dat: "\<forall>k d. (k, UV_Data d) \<in> set (cells ?rows) \<longrightarrow> data_at dat (locations k) d"
  have cb: "map emit_column (zip ?cols os) = map column_bytes ?cs"
    by (simp add: emit_column_encode)
  note clen = length_emit_columns [OF os(1)]
  have row: "list_all2 cell_fits ?cs r \<and> length (row_bytes r) = unat rsize" if "r \<in> set ?rvs" for r
  proof -
    from that obtain i where i: "i < length ?rows" "r = ?rvs ! i" by (auto simp: in_set_conv_nth)
    with rows have len: "length (?rows ! i) = length ?cols"
      and types: "\<forall>c < length ?cols. utf_value_type (?rows ! i ! c) = uc_type (?cols ! c)" by simp_all
    from encoded_row_fits [OF len os(1) types, of offsets locations i]
      encoded_row_length [OF len types, of offsets locations i] i counts(3)
    show ?thesis by (simp add: encode_rows_nth)
  qed
  have rlen: "length (concat (map row_bytes ?rvs)) = length ?rows * unat rsize"
    using row by (subst length_concat_uniform [where n = "unat rsize"]) auto
  have ok: "pool_strings_ok ss" using assms(2) by (simp add: ss builder_pool_ok)
  have m4: "length UTF_MAGIC = 4" by (simp add: UTF_MAGIC_def)
  let ?ht = "\<lparr>ht_alloc = t, ht_header = table_header_new t, ht_columns = ?cs,
         ht_strings = StringPoolFast (pool_map ss ss), ht_rows = ?rvs\<rparr>"
  note t' = t [unfolded cb]
  have facts: "unat tsize + 8 = length t"
    "unat rowsf + 8 = HEADER_SIZE + length (concat (map column_bytes ?cs))"
    "unat strsf + 8 = unat rowsf + 8 + length (concat (map row_bytes ?rvs))"
    "unat ncols = length ?cs" "unat nrows = length ?rvs" "unat rsize = sum_list (stored_sizes ?cs)"
    using clen rlen fields counts os(1) encoded_sizes [OF os(1)]
    by (simp_all only: cb, simp_all add: t m4 HEADER_SIZE_def mult.commute)
  have row': "\<forall>r \<in> set ?rvs. list_all2 cell_fits ?cs r \<and> length (row_bytes r) = unat rsize"
    using row by blast
  have wf: "\<forall>c \<in> set ?cs. column_wf c" by (auto simp: encode_column_wf)
  have new: "high_table_new sjis t = Inr ?ht"
    by (rule high_table_new_layout(1) [OF t' small facts(1,2,3) fields(3) facts(4,5,6) row' wf ok])
  have dp: "unat (th_data_pool_offset (table_header_new t)) = length t - length dat"
    by (rule high_table_new_layout(2) [OF t' small facts(1,2,3) fields(3) facts(4,5,6) row' wf ok])
  have head: "hd ss = []" by (simp add: ss hd_foldl_add_string)
  have members: "set (builder_strings b) \<subseteq> set ss" by (auto simp: ss set_foldl_add_string)
  let ?pre = "take (length t - length dat) t"
  have pre: "t = ?pre @ dat" unfolding t by simp
  have index: "column_index ?ht nm = find_position (\<lambda>c. uc_name c = ascii nm) ?cols" for nm
    using members by (intro built_column_index [OF _ _ os]) (auto simp: builder_strings_def)
  have cell: "\<exists>rv. ht_value ?ht r c = Some rv \<and> cell_shows ?ht (?rows ! r ! c) rv"
    if r: "r < length ?rows" and c: "c < length ?cols" for r c
  proof (rule built_cell [OF _ _ interned head _ dat _ _ _ r])
    show "set (strings_of (concat ?rows)) \<subseteq> set ss" using members by (auto simp: builder_strings_def)
    show "ht_alloc ?ht = ?pre @ dat" using pre by simp
    show "unat (th_data_pool_offset (ht_header ?ht)) = length ?pre" using dp by simp
    show "length (?pre @ dat) < 2 ^ 64" using small by (simp flip: pre)
    show "c < length (?rows ! r)" using rows r c by simp
  qed simp_all
  have "table_shows ?ht b"
    unfolding table_shows_def
    using index cell rows os(1) by (auto simp: row_stored_def encode_column_def encoded_flag)
  with new show ?thesis by auto
qed

end
