(* ===== verification/Cpk_Writer.thy ===== *)
theory Cpk_Writer
  imports Utf_Builder Cpk_File
begin

text \<open>
  \<open>cpk/writer.rs\<close> without its table serialiser (theory \<open>Utf_Builder\<close>): the three index tables, the
  chunk header, the physical order of the payloads, and \<open>write_with_profile\<close>, which lays the whole
  archive out and writes it.

  The file system the payloads are read from is the argument \<open>fs\<close>, a map from paths to contents.
  The output is a \<open>stream\<close>.  \<open>p5r\<close> is the compilation target when the crate is built with the
  feature \<open>cpk_encryption_p5r\<close>, and \<open>None\<close> without it.
\<close>

definition ENGINE_INDEX_BASE :: u64 where "ENGINE_INDEX_BASE = 0x800"
definition COPYRIGHT_MARKER_OFFSET :: u64 where "COPYRIGHT_MARKER_OFFSET = ENGINE_INDEX_BASE - 6"

abbreviation writer_error :: "cpk_writer_error \<Rightarrow> cri_error" where
  "writer_error \<equiv> CpkWriterError"

section \<open>Options and inputs\<close>

datatype cpk_index_mode = Mode_Toc | Mode_Itoc | Mode_TocAndItoc

definition has_toc :: "cpk_index_mode \<Rightarrow> bool" where
  "has_toc m \<longleftrightarrow> m = Mode_Toc \<or> m = Mode_TocAndItoc"

definition has_itoc :: "cpk_index_mode \<Rightarrow> bool" where
  "has_itoc m \<longleftrightarrow> m = Mode_Itoc \<or> m = Mode_TocAndItoc"

fun cpk_mode :: "cpk_index_mode \<Rightarrow> u32" where
  "cpk_mode Mode_Itoc = 0"
| "cpk_mode Mode_Toc = 1"
| "cpk_mode Mode_TocAndItoc = 2"

record cpk_writer_options =
  alignment :: u16
  p5r_encryption :: bool

definition default_options :: cpk_writer_options where
  "default_options = \<lparr>alignment = 0x800, p5r_encryption = False\<rparr>"

record cpk_writer_profile =
  index_mode :: cpk_index_mode
  direct_itoc :: bool
  version :: u16
  revision :: u16
  update_date_time :: u64
  tvers :: rust_string
  comment :: rust_string

definition default_profile :: cpk_writer_profile where
  "default_profile =
     \<lparr>index_mode = Mode_Toc, direct_itoc = False, version = 7, revision = 0, update_date_time = 0,
      tvers = ascii ''7.0.0'', comment = ascii ''Created by cri-cpk-cli''\<rparr>"

type_synonym path = bytes

record cpk_raw_payload =
  archive_path :: path
  raw_absolute_offset :: u64
  raw_size :: u32

record cpk_input_file =
  in_directory :: rust_string
  in_file_name :: rust_string
  source_path :: path
  in_size :: u32
  in_extract_size :: u32
  in_id :: u32
  in_user_string :: rust_string
  raw_payload :: "cpk_raw_payload option"

record cpk_write_report =
  rep_files :: u32
  rep_toc_offset :: u64
  rep_itoc_offset :: u64
  rep_content_offset :: u64
  rep_archive_size :: u64

section \<open>Alignment and order\<close>

definition is_power_of_two :: "u32 \<Rightarrow> bool" where
  "is_power_of_two v \<longleftrightarrow> v \<noteq> 0 \<and> v AND (v - 1) = 0"

definition validate_alignment :: "u16 \<Rightarrow> unit result" where
  "validate_alignment a =
     (let v = ucast a :: u32 in
      if v = 0 \<or> \<not> is_power_of_two v then Inl (writer_error (InvalidAlignment v)) else Inr ())"

definition align_up :: "u64 \<Rightarrow> u64 \<Rightarrow> u64 result" where
  "align_up v a =
     (let msk = a - 1 in
      ok_or (writer_error ArithmeticOverflow)
        (map_option (\<lambda>rounded. rounded AND NOT msk) (checked_add v msk)))"

fun check_ids :: "u32 set \<Rightarrow> cpk_input_file list \<Rightarrow> unit result" where
  "check_ids used_ids [] = Inr ()"
| "check_ids used_ids (f # fs) =
     (if in_id f > ucast (- 1 :: u16) then Inl (writer_error (ItocIdTooLarge (in_id f)))
      else if in_id f \<in> used_ids then Inl (writer_error (DuplicateItocId (in_id f)))
      else check_ids (insert (in_id f) used_ids) fs)"

definition build_physical_order ::
  "cpk_input_file list \<Rightarrow> cpk_writer_profile \<Rightarrow> nat list result" where
  "build_physical_order files profile =
     (if \<not> has_itoc (index_mode profile) then Inr [0..<length files]
      else and_then (check_ids {} files) (\<lambda>_.
        Inr (sort_key (\<lambda>index. in_id (files ! index)) [0..<length files])))"

section \<open>The index tables\<close>

definition header_columns :: "utf_column list" where
  "header_columns =
     [utf_column_new ''UpdateDateTime'' U_UInt64,
      utf_column_new ''FileSize'' U_UInt64,
      utf_column_new ''ContentOffset'' U_UInt64,
      utf_column_new ''ContentSize'' U_UInt64,
      utf_column_new ''TocOffset'' U_UInt64,
      utf_column_new ''TocSize'' U_UInt64,
      utf_column_new ''EtocOffset'' U_UInt64,
      utf_column_new ''EtocSize'' U_UInt64,
      utf_column_new ''ItocOffset'' U_UInt64,
      utf_column_new ''ItocSize'' U_UInt64,
      utf_column_new ''GtocOffset'' U_UInt64,
      utf_column_new ''GtocSize'' U_UInt64,
      utf_column_new ''Files'' U_UInt32,
      utf_column_new ''Version'' U_UInt16,
      utf_column_new ''Revision'' U_UInt16,
      utf_column_new ''Align'' U_UInt16,
      utf_column_new ''Sorted'' U_UInt16,
      utf_column_new ''EID'' U_UInt16,
      utf_column_new ''EnableFileName'' U_UInt16,
      utf_column_new ''CpkMode'' U_UInt32,
      utf_column_new ''Tvers'' U_String,
      utf_column_new ''Comment'' U_String,
      utf_column_new ''Codec'' U_UInt32,
      utf_column_new ''DpkItoc'' U_UInt32,
      utf_column_new ''EnableTocCrc'' U_UInt16,
      utf_column_new ''EnableFileCrc'' U_UInt16]"

definition header_row ::
  "u64 \<Rightarrow> u64 \<Rightarrow> u64 \<Rightarrow> u64 \<Rightarrow> u64 \<Rightarrow> u64 \<Rightarrow> u64 \<Rightarrow> u16 \<Rightarrow> u32 \<Rightarrow> cpk_writer_profile \<Rightarrow> utf_value list" where
  "header_row archive_size content_offset content_size toc_offset toc_size itoc_offset itoc_size
     align file_count profile =
     [UV_UInt64 (update_date_time profile),
      UV_UInt64 archive_size,
      UV_UInt64 content_offset,
      UV_UInt64 content_size,
      UV_UInt64 toc_offset,
      UV_UInt64 toc_size,
      UV_UInt64 0,
      UV_UInt64 0,
      UV_UInt64 itoc_offset,
      UV_UInt64 itoc_size,
      UV_UInt64 0,
      UV_UInt64 0,
      UV_UInt32 file_count,
      UV_UInt16 (version profile),
      UV_UInt16 (revision profile),
      UV_UInt16 align,
      UV_UInt16 0,
      UV_UInt16 (if has_itoc (index_mode profile) \<and> direct_itoc profile then 1 else 0),
      UV_UInt16 (if has_toc (index_mode profile) then 1 else 0),
      UV_UInt32 (cpk_mode (index_mode profile)),
      UV_String (tvers profile),
      UV_String (comment profile),
      UV_UInt32 0,
      UV_UInt32 0,
      UV_UInt16 0,
      UV_UInt16 0]"

definition header_builder ::
  "u64 \<Rightarrow> u64 \<Rightarrow> u64 \<Rightarrow> u64 \<Rightarrow> u64 \<Rightarrow> u64 \<Rightarrow> u64 \<Rightarrow> u16 \<Rightarrow> u32 \<Rightarrow> cpk_writer_profile \<Rightarrow> utf_table_builder" where
  "header_builder archive_size content_offset content_size toc_offset toc_size itoc_offset itoc_size
     align file_count profile =
     utf_table_builder_new ''CpkHeader'' header_columns
       [header_row archive_size content_offset content_size toc_offset toc_size itoc_offset itoc_size
          align file_count profile]"

definition build_header_table ::
  "u64 \<Rightarrow> u64 \<Rightarrow> u64 \<Rightarrow> u64 \<Rightarrow> u64 \<Rightarrow> u64 \<Rightarrow> u64 \<Rightarrow> u16 \<Rightarrow> u32 \<Rightarrow> cpk_writer_profile \<Rightarrow> bytes result" where
  "build_header_table archive_size content_offset content_size toc_offset toc_size itoc_offset
     itoc_size align file_count profile =
     build (header_builder archive_size content_offset content_size toc_offset toc_size itoc_offset
       itoc_size align file_count profile)"

definition toc_table_columns :: "utf_column list" where
  "toc_table_columns =
     [utf_column_new ''DirName'' U_String,
      utf_column_new ''FileName'' U_String,
      utf_column_new ''FileSize'' U_UInt32,
      utf_column_new ''ExtractSize'' U_UInt32,
      utf_column_new ''FileOffset'' U_UInt64,
      utf_column_new ''ID'' U_UInt32,
      utf_column_new ''UserString'' U_String]"

definition toc_table_row :: "cpk_input_file \<times> u64 \<Rightarrow> utf_value list" where
  "toc_table_row r =
     [UV_String (in_directory (fst r)),
      UV_String (in_file_name (fst r)),
      UV_UInt32 (in_size (fst r)),
      UV_UInt32 (in_extract_size (fst r)),
      UV_UInt64 (snd r),
      UV_UInt32 (in_id (fst r)),
      UV_String (in_user_string (fst r))]"

definition toc_builder :: "cpk_input_file list \<Rightarrow> u64 list \<Rightarrow> utf_table_builder" where
  "toc_builder files offsets =
     utf_table_builder_new ''CpkTocInfo'' toc_table_columns (map toc_table_row (zip files offsets))"

definition build_toc_table :: "cpk_input_file list \<Rightarrow> u64 list \<Rightarrow> bytes result" where
  "build_toc_table files offsets = build (toc_builder files offsets)"

definition itoc_columns :: "bool \<Rightarrow> utf_column list" where
  "itoc_columns low_width =
     (let size_type = (if low_width then U_UInt16 else U_UInt32) in
      [utf_column_new ''ID'' U_UInt16,
       utf_column_new ''FileSize'' size_type,
       utf_column_new ''ExtractSize'' size_type])"

definition itoc_table_row :: "bool \<Rightarrow> cpk_input_file \<Rightarrow> utf_value list result" where
  "itoc_table_row low_width file =
     and_then (ok_or (writer_error (ItocIdTooLarge (in_id file))) (try_from_word (in_id file))) (\<lambda>i.
     if low_width then
       and_then (ok_or (writer_error ArithmeticOverflow) (try_from_word (in_size file))) (\<lambda>fsize.
       and_then (ok_or (writer_error ArithmeticOverflow) (try_from_word (in_extract_size file)))
         (\<lambda>esize. Inr [UV_UInt16 i, UV_UInt16 fsize, UV_UInt16 esize]))
     else Inr [UV_UInt16 i, UV_UInt32 (in_size file), UV_UInt32 (in_extract_size file)])"

definition build_itoc_rows ::
  "cpk_input_file list \<Rightarrow> nat list \<Rightarrow> bool \<Rightarrow> string \<Rightarrow> bytes result" where
  "build_itoc_rows files indices low_width table_name =
     and_then (map_result (\<lambda>index. itoc_table_row low_width (files ! index)) indices) (\<lambda>rows.
       build (utf_table_builder_new table_name (itoc_columns low_width) rows))"

definition fits_low_width :: "cpk_input_file \<Rightarrow> bool" where
  "fits_low_width file \<longleftrightarrow>
     in_size file \<le> ucast (- 1 :: u16) \<and> in_extract_size file \<le> ucast (- 1 :: u16)"

definition itoc_outer_builder :: "bytes \<Rightarrow> bytes \<Rightarrow> utf_table_builder" where
  "itoc_outer_builder low high =
     utf_table_builder_new ''CpkItocInfo''
       [utf_column_new ''DataL'' U_Data, utf_column_new ''DataH'' U_Data]
       [[UV_Data low, UV_Data high]]"

definition build_itoc_table ::
  "cpk_input_file list \<Rightarrow> nat list \<Rightarrow> bool \<Rightarrow> bytes result" where
  "build_itoc_table files physical_order direct =
     (if direct then build_itoc_rows files physical_order False ''CpkExtendId''
      else
        let low = filter (\<lambda>index. fits_low_width (files ! index)) physical_order;
            high = filter (\<lambda>index. \<not> fits_low_width (files ! index)) physical_order
        in
        and_then (build_itoc_rows files low True ''CpkItocL'') (\<lambda>low_table.
        and_then (build_itoc_rows files high False ''CpkItocH'') (\<lambda>high_table.
          build (itoc_outer_builder low_table high_table))))"

section \<open>Chunks\<close>

definition build_chunk :: "cpk_chunk_kind \<Rightarrow> bytes \<Rightarrow> bytes" where
  "build_chunk kind table =
     chunk_magic kind @ replicate 4 0xff @ to_le_bytes 8 (of_nat (length table) :: u64) @ table"

definition chunk_size :: "bytes \<Rightarrow> u64 result" where
  "chunk_size table =
     and_then (ok_or (writer_error ArithmeticOverflow) (try_from_nat (length table))) (\<lambda>n.
       ok_or (writer_error ArithmeticOverflow) (checked_add (of_nat CPK_CHUNK_HEADER_SIZE) n))"

section \<open>Output\<close>

text \<open>
  \<open>write_zeros\<close> writes at most \<open>0x2000\<close> zeros at a time; \<open>seek_start\<close> positions the output.
\<close>

function write_zeros :: "u64 \<Rightarrow> stream \<Rightarrow> stream" where
  "write_zeros count out =
     (if count = 0 then out
      else let w = min (unat count) 0x2000
           in write_zeros (count - of_nat w) (write_all (replicate w 0) out))"
  by pat_completeness auto
termination
proof (relation "measure (\<lambda>(count, out). unat count)", simp)
  fix count :: u64 and out w assume nz: "count \<noteq> 0" and w: "w = min (unat count) 0x2000"
  have "unat (of_nat w :: u64) = w" using unat_lt2p [of count] by (simp add: w unat_of_nat_fits)
  moreover have "0 < w" using nz by (simp add: w unat_gt_0)
  moreover have "unat (count - of_nat w) = unat count - w"
    using calculation by (subst unat_sub_le) (simp_all add: word_le_nat_alt w)
  ultimately show "((count - of_nat w, write_all (replicate w 0) out), count, out)
      \<in> measure (\<lambda>(count, out). unat count)"
    by (simp add: w)
qed

declare write_zeros.simps [simp del]

definition write_at :: "u64 \<Rightarrow> bytes \<Rightarrow> stream \<Rightarrow> stream" where
  "write_at offset bs out =
     (let current = of_nat (position out) :: u64;
          out = (if current < offset then write_zeros (offset - current) out
                 else if current > offset then seek_start (unat offset) out
                 else out)
      in write_all bs out)"

text \<open>
  The packed bytes of an entry.  A raw payload is a slice of its source archive; an entry marked for
  encryption is transformed; anything else is the source file as it is.
\<close>

definition open_file :: "(path \<rightharpoonup> bytes) \<Rightarrow> path \<Rightarrow> bytes result" where
  "open_file fs p = ok_or (Io NotFound) (fs p)"

definition write_raw_payload ::
  "(path \<rightharpoonup> bytes) \<Rightarrow> cpk_input_file \<Rightarrow> cpk_raw_payload \<Rightarrow> stream \<Rightarrow> (u64 \<times> stream) result" where
  "write_raw_payload fs file raw out =
     (if raw_size raw \<noteq> in_size file then Inl (writer_error (InvalidRawPayload (archive_path raw)))
      else
        and_then (open_file fs (archive_path raw)) (\<lambda>input.
        let limited = slice (unat (raw_absolute_offset raw)) (unat (raw_size raw)) input;
            out = write_all limited out
        in if length limited \<noteq> unat (raw_size raw)
           then Inl (writer_error (InvalidRawPayload (archive_path raw)))
           else Inr (of_nat (length limited), out)))"

definition write_encrypted_payload ::
  "target option \<Rightarrow> (path \<rightharpoonup> bytes) \<Rightarrow> cpk_input_file \<Rightarrow> stream \<Rightarrow> (u64 \<times> stream) result" where
  "write_encrypted_payload p5r fs file out =
     (case p5r of
        None \<Rightarrow> Inl (writer_error UnsupportedP5rEncryption)
      | Some t \<Rightarrow>
          and_then (open_file fs (source_path file)) (\<lambda>data.
          case P5R_decrypt_in_place t data of
            Inl fault \<Rightarrow> Inl Panic
          | Inr data \<Rightarrow> Inr (of_nat (length data), write_all data out)))"

definition write_file_payload ::
  "target option \<Rightarrow> (path \<rightharpoonup> bytes) \<Rightarrow> cpk_input_file \<Rightarrow> bool \<Rightarrow> stream \<Rightarrow> (u64 \<times> stream) result" where
  "write_file_payload p5r fs file encrypt out =
     (case raw_payload file of
        Some raw \<Rightarrow> write_raw_payload fs file raw out
      | None \<Rightarrow>
          if encrypt \<and> in_user_string file = CRI_CFATTR_ENCRYPT
          then write_encrypted_payload p5r fs file out
          else and_then (open_file fs (source_path file)) (\<lambda>input.
                 Inr (of_nat (length input), write_all input out)))"

section \<open>Laying out an archive\<close>

record cpk_layout =
  lo_file_count :: u32
  lo_order :: "nat list"
  lo_toc_offset :: u64
  lo_itoc_offset :: u64
  lo_content_offset :: u64
  lo_offsets :: "u64 list"
  lo_archive_size :: u64
  lo_header_chunk :: bytes
  lo_toc_chunk :: "bytes option"
  lo_itoc_chunk :: "bytes option"

definition optional_table :: "bool \<Rightarrow> bytes result \<Rightarrow> bytes option result" where
  "optional_table wanted table = (if wanted then result_map Some table else Inr None)"

text \<open>The offset of an index chunk and the cursor after it.\<close>

definition place_index :: "u64 \<Rightarrow> bytes option \<Rightarrow> u64 \<Rightarrow> (u64 \<times> u64) result" where
  "place_index a table cursor =
     (case table of
        None \<Rightarrow> Inr (0, cursor)
      | Some t \<Rightarrow>
          and_then (chunk_size t) (\<lambda>n.
          and_then (ok_or (writer_error ArithmeticOverflow) (checked_add cursor n)) (\<lambda>end'.
          and_then (align_up end' a) (\<lambda>cursor'. Inr (cursor, cursor')))))"

definition place_payload ::
  "cpk_input_file list \<Rightarrow> u64 \<Rightarrow> u64 list \<times> u64 \<Rightarrow> nat \<Rightarrow> (u64 list \<times> u64) result" where
  "place_payload files a st index =
     (let offsets = (fst st)[index := snd st] in
      and_then (ok_or (writer_error ArithmeticOverflow)
          (checked_add (snd st) (ucast (in_size (files ! index))))) (\<lambda>end'.
      and_then (align_up end' a) (\<lambda>cursor. Inr (offsets, cursor))))"

definition relative_offsets :: "u64 list \<Rightarrow> u64 list result" where
  "relative_offsets offsets =
     map_result (\<lambda>off. ok_or (writer_error ArithmeticOverflow) (checked_sub off ENGINE_INDEX_BASE)) offsets"

definition chunk_len :: "bytes option \<Rightarrow> u64" where
  "chunk_len c = (case c of None \<Rightarrow> 0 | Some c \<Rightarrow> of_nat (length c))"

definition plan_archive ::
  "cpk_input_file list \<Rightarrow> cpk_writer_options \<Rightarrow> cpk_writer_profile \<Rightarrow> cpk_layout result" where
  "plan_archive files options profile =
     and_then (validate_alignment (alignment options)) (\<lambda>_.
     if files = [] then Inl (writer_error EmptyInput) else
     and_then (ok_or (writer_error (TooManyFiles (length files))) (try_from_nat (length files)))
       (\<lambda>file_count.
     let a = ucast (alignment options) :: u64;
         mode = index_mode profile
     in
     and_then (build_physical_order files profile) (\<lambda>order.
     and_then (optional_table (has_toc mode) (build_toc_table files (replicate (length files) 0)))
       (\<lambda>toc_probe.
     and_then (optional_table (has_itoc mode) (build_itoc_table files order (direct_itoc profile)))
       (\<lambda>itoc_probe.
     and_then (place_index a toc_probe ENGINE_INDEX_BASE) (\<lambda>(toc_offset, cursor).
     and_then (place_index a itoc_probe cursor) (\<lambda>(itoc_offset, cursor).
     and_then (align_up cursor a) (\<lambda>content_offset.
     if has_itoc mode \<and> content_offset > ucast (- 1 :: u32)
     then Inl (writer_error (WriterItocContentOffsetTooLarge content_offset)) else
     and_then (fold_result (place_payload files a) (replicate (length files) 0, content_offset) order)
       (\<lambda>(offsets, archive_size).
     and_then (ok_or (writer_error ArithmeticOverflow) (checked_sub archive_size content_offset))
       (\<lambda>content_size.
     and_then (if has_toc mode
               then and_then (relative_offsets offsets) (\<lambda>offs. result_map Some (build_toc_table files offs))
               else Inr None) (\<lambda>toc_table.
     and_then (optional_table (has_itoc mode) (build_itoc_table files order (direct_itoc profile)))
       (\<lambda>itoc_table.
     if map_option length toc_probe \<noteq> map_option length toc_table \<or>
        map_option length itoc_probe \<noteq> map_option length itoc_table
     then Inl (writer_error ArithmeticOverflow) else
     let toc_chunk = map_option (build_chunk Toc) toc_table;
         itoc_chunk = map_option (build_chunk Itoc) itoc_table
     in
     and_then (build_header_table archive_size content_offset content_size toc_offset
         (chunk_len toc_chunk) itoc_offset (chunk_len itoc_chunk) (alignment options) file_count profile)
       (\<lambda>header_table.
     let header_chunk = build_chunk Cpk header_table in
     if length header_chunk > unat COPYRIGHT_MARKER_OFFSET
     then Inl (writer_error (HeaderTooLarge (length header_chunk))) else
     Inr \<lparr>lo_file_count = file_count, lo_order = order, lo_toc_offset = toc_offset,
          lo_itoc_offset = itoc_offset, lo_content_offset = content_offset, lo_offsets = offsets,
          lo_archive_size = archive_size, lo_header_chunk = header_chunk,
          lo_toc_chunk = toc_chunk, lo_itoc_chunk = itoc_chunk\<rparr>)))))))))))))"

section \<open>Writing an archive\<close>

definition fill_to :: "u64 \<Rightarrow> stream \<Rightarrow> stream" where
  "fill_to offset out =
     (let current = of_nat (position out) :: u64
      in if current < offset then write_zeros (offset - current) out else out)"

definition write_optional :: "u64 \<Rightarrow> bytes option \<Rightarrow> stream \<Rightarrow> stream" where
  "write_optional offset c out = (case c of None \<Rightarrow> out | Some c \<Rightarrow> write_at offset c out)"

definition write_metadata :: "cpk_layout \<Rightarrow> stream \<Rightarrow> stream result" where
  "write_metadata lo out =
     (let out = write_all (lo_header_chunk lo) (seek_start 0 out) in
      and_then (ok_or (writer_error ArithmeticOverflow)
          (checked_sub COPYRIGHT_MARKER_OFFSET (of_nat (length (lo_header_chunk lo))))) (\<lambda>pad.
      let out = write_all (ascii ''(c)CRI'') (write_zeros pad out);
          out = write_optional (lo_toc_offset lo) (lo_toc_chunk lo) out;
          out = write_optional (lo_itoc_offset lo) (lo_itoc_chunk lo) out
      in Inr (fill_to (lo_content_offset lo) out)))"

definition write_payload ::
  "target option \<Rightarrow> (path \<rightharpoonup> bytes) \<Rightarrow> cpk_input_file list \<Rightarrow> bool \<Rightarrow> u64 list \<Rightarrow> stream \<Rightarrow> nat \<Rightarrow> stream result" where
  "write_payload p5r fs files encrypt offsets out index =
     (let file = files ! index; target_offset = offsets ! index in
      if (of_nat (position out) :: u64) > target_offset then Inl (writer_error ArithmeticOverflow)
      else
        and_then (write_file_payload p5r fs file encrypt (fill_to target_offset out)) (\<lambda>(copied, out).
        if copied \<noteq> ucast (in_size file) then Inl (Io UnexpectedEof) else Inr out))"

definition emit_archive ::
  "target option \<Rightarrow> (path \<rightharpoonup> bytes) \<Rightarrow> cpk_input_file list \<Rightarrow> bool \<Rightarrow> cpk_layout \<Rightarrow> stream \<Rightarrow> stream result" where
  "emit_archive p5r fs files encrypt lo out =
     and_then (write_metadata lo out) (\<lambda>out.
     and_then (fold_result (write_payload p5r fs files encrypt (lo_offsets lo)) out (lo_order lo)) (\<lambda>out.
       Inr (fill_to (lo_archive_size lo) out)))"

definition write_with_profile ::
  "target option \<Rightarrow> (path \<rightharpoonup> bytes) \<Rightarrow> stream \<Rightarrow> cpk_input_file list \<Rightarrow> cpk_writer_options \<Rightarrow>
   cpk_writer_profile \<Rightarrow> (cpk_write_report \<times> stream) result" where
  "write_with_profile p5r fs out files options profile =
     and_then (plan_archive files options profile) (\<lambda>lo.
     and_then (emit_archive p5r fs files (p5r_encryption options) lo out) (\<lambda>out.
       Inr (\<lparr>rep_files = lo_file_count lo, rep_toc_offset = lo_toc_offset lo,
             rep_itoc_offset = lo_itoc_offset lo, rep_content_offset = lo_content_offset lo,
             rep_archive_size = lo_archive_size lo\<rparr>, out)))"

definition cpk_write ::
  "target option \<Rightarrow> (path \<rightharpoonup> bytes) \<Rightarrow> stream \<Rightarrow> cpk_input_file list \<Rightarrow> cpk_writer_options \<Rightarrow>
   (cpk_write_report \<times> stream) result" where
  "cpk_write p5r fs out files options = write_with_profile p5r fs out files options default_profile"

section \<open>Alignment arithmetic\<close>

lemma validate_alignment_power:
  assumes "validate_alignment a = Inr u"
  shows "\<exists>m < 16. unat a = 2 ^ m"
proof -
  let ?v = "ucast a :: u32"
  have v: "unat ?v = unat a" by (simp add: unat_ucast_wide)
  from assms have nz: "?v \<noteq> 0" and z: "?v AND (?v - 1) = 0"
    by (auto simp: validate_alignment_def Let_def is_power_of_two_def split: if_splits)
  have "unat (?v - 1) = unat ?v - 1" using nz by (simp add: unat_minus_one)
  then have "unat a AND (unat a - 1) = 0"
    using arg_cong [OF z, of unat] by (simp add: unsigned_and_eq v)
  moreover have "0 < unat a" using nz v by (metis unat_gt_0 gr0I)
  ultimately obtain m where m: "unat a = 2 ^ m" using and_pred_zero by blast
  then have "(2 :: nat) ^ m < 2 ^ 16" using unat_lt2p [of a] by simp
  then have "m < 16" by (rule power_less_imp_less_exp [rotated]) simp
  with m show ?thesis by blast
qed

lemma and_not_mask: "unat (w AND NOT (mask m)) = unat w div 2 ^ m * 2 ^ m" for w :: u64
proof -
  have "w AND NOT (mask m) = push_bit m (drop_bit m w)"
    by (rule bit_word_eqI) (auto simp: bit_and_iff bit_not_iff bit_mask_iff bit_push_bit_iff bit_drop_bit_eq)
  moreover have "unat (push_bit m (drop_bit m w)) = unat w div 2 ^ m * 2 ^ m"
  proof -
    have "unat w div 2 ^ m * 2 ^ m < 2 ^ 64"
      by (rule le_less_trans [OF div_times_less_eq_dividend]) (use unat_lt2p [of w] in simp)
    moreover have "unat (drop_bit m w) = unat w div 2 ^ m"
      by (simp only: drop_bit_eq_div [symmetric] unat_drop_bit_eq)
    then have "unat (push_bit m (drop_bit m w)) = take_bit 64 (unat w div 2 ^ m * 2 ^ m)"
      by (subst unsigned_push_bit_eq) (simp add: push_bit_eq_mult)
    ultimately show ?thesis by (simp only: take_bit_nat_eq_self)
  qed
  ultimately show ?thesis by simp
qed

lemma align_up_eq:
  assumes "unat a = 2 ^ m" and "m < 16"
  shows "align_up v a =
    (if unat v + (unat a - 1) < 2 ^ 64 then Inr (of_nat (round_up (unat a) (unat v)))
     else Inl (writer_error ArithmeticOverflow))"
proof -
  have nz: "a \<noteq> 0" using assms(1) by auto
  then have u: "unat (a - 1) = unat a - 1" by (simp add: unat_minus_one)
  have "a = of_nat (unat a)" by simp
  then have "a = 2 ^ m" by (simp only: assms(1) of_nat_power of_nat_numeral)
  then have msk: "a - 1 = mask m" by (simp only: mask_eq_exp_minus_1)
  show ?thesis
  proof (cases "unat v + (unat a - 1) < 2 ^ 64")
    case True
    then have "unat (v + (a - 1)) = unat v + (unat a - 1)" by (subst unat_add_fits) (simp_all add: u)
    then have r: "unat ((v + (a - 1)) AND NOT (a - 1)) = round_up (unat a) (unat v)"
      using and_not_mask [of "v + (a - 1)" m] round_up_div [of "unat a" "unat v"] assms(1)
      by (simp add: msk)
    have "(v + (a - 1)) AND NOT (a - 1) = of_nat (unat ((v + (a - 1)) AND NOT (a - 1)))" by simp
    then have "(v + (a - 1)) AND NOT (a - 1) = of_nat (round_up (unat a) (unat v))" by (simp only: r)
    with True u show ?thesis by (simp add: align_up_def Let_def checked_add_def)
  next
    case False
    with u show ?thesis by (simp add: align_up_def Let_def checked_add_def)
  qed
qed

lemma align_up_Inr:
  assumes "unat a = 2 ^ m" and "m < 16" and "align_up v a = Inr w"
  shows "unat w = round_up (unat a) (unat v)" and "unat a dvd unat w"
proof -
  have a: "0 < unat a" using assms(1) by simp
  from assms have "unat v + (unat a - 1) < 2 ^ 64" and w: "w = of_nat (round_up (unat a) (unat v))"
    by (auto simp: align_up_eq split: if_splits)
  moreover have "round_up (unat a) (unat v) < unat v + unat a" using a by (rule round_up_lt)
  ultimately show "unat w = round_up (unat a) (unat v)" using a by (simp add: unat_of_nat_fits)
  then show "unat a dvd unat w" using round_up_dvd [OF a] by simp
qed

end
