(* ===== verification/Paths.thy ===== *)
theory Paths
  imports Text_Fields Cpk_Writer
begin

text \<open>
  Paths, as \<open>std::path\<close> handles them on Unix, and the functions of \<open>manifest.rs\<close>, \<open>main.rs\<close> and
  \<open>writer.rs\<close> that turn archive names into paths and back.  A path is its byte sequence;
  \<open>path_components\<close> is \<open>Path::components\<close> (the component \<open>Prefix\<close> exists on Windows only).

  The result to keep: what \<open>safe_output_path\<close> accepts lies below its root, whatever the archive
  says (\<open>safe_output_components\<close>), and the manifest finds the file again at the place the archive
  was unpacked to (\<open>safe_paths_agree\<close>).
\<close>

section \<open>Paths of the standard library\<close>

datatype component = RootDir | CurDir | ParentDir | Normal rust_string

definition SLASH :: u8 where "SLASH = 47"
definition BACKSLASH :: u8 where "BACKSLASH = 92"

definition part_component :: "rust_string \<Rightarrow> component" where
  "part_component p = (if p = ascii ''..'' then ParentDir else Normal p)"

definition real_part :: "rust_string \<Rightarrow> bool" where
  "real_part p \<longleftrightarrow> p \<noteq> [] \<and> p \<noteq> ascii ''.''"

definition path_components :: "path \<Rightarrow> component list" where
  "path_components p =
     (let parts = split_on SLASH p in
      (if p \<noteq> [] \<and> hd p = SLASH then [RootDir]
       else if hd parts = ascii ''.'' then [CurDir] else []) @
      map part_component (filter real_part parts))"

definition path_push :: "path \<Rightarrow> rust_string \<Rightarrow> path" where
  "path_push base v =
     (if v \<noteq> [] \<and> hd v = SLASH then v
      else if base = [] \<or> last base = SLASH then base @ v else base @ SLASH # v)"

definition replace_backslash :: "rust_string \<Rightarrow> rust_string" where
  "replace_backslash s = map (\<lambda>b. if b = BACKSLASH then SLASH else b) s"

section \<open>Archive names as paths\<close>

definition push_component :: "cli_error \<Rightarrow> path \<Rightarrow> component \<Rightarrow> path cli_result" where
  "push_component err out c =
     (case c of Normal v \<Rightarrow> Inr (path_push out v) | CurDir \<Rightarrow> Inr out
      | ParentDir \<Rightarrow> Inl err | RootDir \<Rightarrow> Inl err)"

definition name_components :: "rust_string \<Rightarrow> rust_string \<Rightarrow> component list" where
  "name_components dir name =
     path_components (replace_backslash dir) @ path_components (replace_backslash name)"

definition safe_relative_path :: "rust_string \<Rightarrow> rust_string \<Rightarrow> path cli_result" where
  "safe_relative_path dir name =
     and_then (fold_result (push_component (invalid_data UnsafeManifestPath)) [] (name_components dir name))
       (\<lambda>out. if out = [] then Inl (invalid_data EmptyManifestPath) else Inr out)"

definition safe_output_path :: "path \<Rightarrow> rust_string \<Rightarrow> rust_string \<Rightarrow> path cli_result" where
  "safe_output_path root dir name =
     fold_result (push_component (Cli UnsafeArchivePath)) root (name_components dir name)"

text \<open>The two functions named \<open>path_to_cri_string\<close>.\<close>

definition manifest_cri_part :: "component \<Rightarrow> rust_string cli_result" where
  "manifest_cri_part c =
     (case c of Normal v \<Rightarrow> if utf8_valid v then Inr v else Inl (invalid_data NonUtf8InputPath)
      | _ \<Rightarrow> Inl (invalid_data UnsafeInputPath))"

definition manifest_path_to_cri_string :: "path \<Rightarrow> rust_string cli_result" where
  "manifest_path_to_cri_string p =
     and_then (map_result manifest_cri_part (path_components p)) (\<lambda>parts. Inr (joined SLASH parts))"

fun component_os_str :: "component \<Rightarrow> bytes" where
  "component_os_str RootDir = [SLASH]"
| "component_os_str CurDir = ascii ''.''"
| "component_os_str ParentDir = ascii ''..''"
| "component_os_str (Normal v) = v"

definition writer_path_to_cri_string :: "path \<Rightarrow> rust_string result" where
  "writer_path_to_cri_string p =
     and_then (map_result (\<lambda>c. let v = component_os_str c in
         if utf8_valid v then Inr v else Inl (writer_error (NonUtf8Path p))) (path_components p))
       (\<lambda>parts. Inr (joined SLASH parts))"

definition make_ascii_uppercase :: "rust_string \<Rightarrow> rust_string" where
  "make_ascii_uppercase s = map (\<lambda>b. if 97 \<le> b \<and> b \<le> 122 then b - 32 else b) s"

definition engine_path_key :: "cpk_input_file \<Rightarrow> rust_string" where
  "engine_path_key f =
     make_ascii_uppercase
       ((if in_directory f \<noteq> [] then replace_backslash (in_directory f) @ [SLASH] else []) @
        replace_backslash (in_file_name f))"

section \<open>Components of a built path\<close>

definition plain_part :: "rust_string \<Rightarrow> bool" where
  "plain_part v \<longleftrightarrow> v \<noteq> [] \<and> SLASH \<notin> set v \<and> v \<noteq> ascii ''.'' \<and> v \<noteq> ascii ''..''"

lemma part_codes: "ascii ''.'' = [46]" "ascii ''..'' = [46, 46]" "SLASH = 47"
  by (simp_all add: ascii_def SLASH_def)

lemma split_parts: "f \<in> set (split_on c s) \<Longrightarrow> c \<notin> set f"
proof (induction s arbitrary: f)
  case (Cons b bs)
  then show ?case by (cases "split_on c bs") (auto split: if_splits)
qed simp

lemma normal_is_plain: "Normal v \<in> set (path_components p) \<Longrightarrow> plain_part v"
  by (auto simp: path_components_def Let_def part_component_def real_part_def plain_part_def
      dest: split_parts split: if_splits)

lemma split_on_snoc: "c \<notin> set v \<Longrightarrow> split_on c (s @ c # v) = split_on c s @ [v]"
proof (induction s)
  case (Cons b bs)
  then show ?case by (auto split: list.split simp: Cons_eq_append_conv)
qed (simp add: split_on_none)

lemma split_on_snoc_last: "c \<notin> set v \<Longrightarrow> split_on c (s @ [c] @ v) = butlast (split_on c (s @ [c])) @ [v]"
  using split_on_snoc [of c v s] split_on_snoc [of c "[]" s] by simp

lemma filter_split_end: "filter real_part (split_on c (s @ [c])) = filter real_part (split_on c s)"
  using split_on_snoc [of c "[]" s] by (simp add: real_part_def)

lemma components_push:
  assumes v: "plain_part v"
  shows "path_components (path_push p v) = path_components p @ [Normal v]"
proof -
  have v': "v \<noteq> []" "SLASH \<notin> set v" "hd v \<noteq> SLASH" "real_part v" "part_component v = Normal v"
    using v by (auto simp: plain_part_def real_part_def part_component_def dest: hd_in_set)
  consider "p = []" | "p \<noteq> []" "last p = SLASH" | "p \<noteq> []" "last p \<noteq> SLASH" by blast
  then show ?thesis
  proof cases
    case 1
    moreover have "\<not> real_part []" by (simp add: real_part_def)
    ultimately show ?thesis using v v'
      by (simp add: path_push_def path_components_def split_on_none plain_part_def Let_def part_codes)
  next
    case 2
    then obtain s where s: "p = s @ [SLASH]" by (metis append_butlast_last_id)
    have parts: "split_on SLASH (p @ v) = split_on SLASH s @ [v]" "split_on SLASH p = split_on SLASH s @ [[]]"
      using split_on_snoc [OF v'(2), of s] split_on_snoc [of SLASH "[]" s] by (simp_all add: s)
    have "hd (p @ v) = hd p" using 2 by simp
    with 2 v' show ?thesis
      by (simp add: path_push_def path_components_def Let_def parts hd_append real_part_def)
  next
    case 3
    have "split_on SLASH (p @ SLASH # v) = split_on SLASH p @ [v]" by (rule split_on_snoc [OF v'(2)])
    with 3 v' show ?thesis by (simp add: path_push_def path_components_def Let_def hd_append)
  qed
qed

text \<open>Pushing accepted components: all of them are plain, and they are what is added.\<close>

definition component_parts :: "component list \<Rightarrow> rust_string list" where
  "component_parts cs = concat (map (\<lambda>c. case c of Normal v \<Rightarrow> [v] | _ \<Rightarrow> []) cs)"

lemma push_components_Inr:
  "fold_result (push_component err) base cs = Inr p \<longleftrightarrow>
     RootDir \<notin> set cs \<and> ParentDir \<notin> set cs \<and> p = foldl path_push base (component_parts cs)"
proof (induction cs arbitrary: base)
  case (Cons c cs)
  then show ?case by (cases c) (auto simp: push_component_def component_parts_def)
qed (auto simp: component_parts_def)

lemma component_parts_plain:
  "v \<in> set (component_parts (name_components dir name)) \<Longrightarrow> plain_part v"
  by (auto simp: component_parts_def name_components_def split: component.splits dest: normal_is_plain)

lemma components_foldl:
  "\<forall>v \<in> set vs. plain_part v \<Longrightarrow>
   path_components (foldl path_push base vs) = path_components base @ map Normal vs"
  by (induction vs arbitrary: base) (simp_all add: components_push)

lemma safe_output_components:
  assumes "safe_output_path root dir name = Inr p"
  shows "\<exists>vs. path_components p = path_components root @ map Normal vs \<and> (\<forall>v \<in> set vs. plain_part v)"
proof -
  let ?vs = "component_parts (name_components dir name)"
  have "p = foldl path_push root ?vs" using assms by (simp add: safe_output_path_def push_components_Inr)
  moreover have plain: "\<forall>v \<in> set ?vs. plain_part v" using component_parts_plain by blast
  ultimately show ?thesis using components_foldl [OF plain, of root] by blast
qed

lemma plain_hd: "plain_part v \<Longrightarrow> v \<noteq> [] \<and> hd v \<noteq> SLASH \<and> last v \<noteq> SLASH"
  by (auto simp: plain_part_def dest: hd_in_set last_in_set)

lemma push_plain: "plain_part v \<Longrightarrow> base \<noteq> [] \<Longrightarrow> last base \<noteq> SLASH \<Longrightarrow> path_push base v = base @ SLASH # v"
  using plain_hd [of v] by (auto simp: path_push_def)

lemma foldl_push_nonempty:
  "base \<noteq> [] \<Longrightarrow> last base \<noteq> SLASH \<Longrightarrow> \<forall>v \<in> set vs. plain_part v \<Longrightarrow>
   foldl path_push base vs = base @ concat (map (\<lambda>v. SLASH # v) vs)"
proof (induction vs arbitrary: base)
  case (Cons v vs)
  then show ?case using plain_hd [of v] by (simp add: push_plain)
qed simp

lemma push_joined:
  assumes vs: "\<forall>v \<in> set vs. plain_part v" and ne: "vs \<noteq> []"
  shows "path_push root (foldl path_push [] vs) = foldl path_push root vs"
proof -
  obtain v ws where vs': "vs = v # ws" using ne by (cases vs) auto
  have v: "plain_part v" and ws: "\<forall>w \<in> set ws. plain_part w" using vs vs' by auto
  have hd: "v \<noteq> []" "hd v \<noteq> SLASH" "last v \<noteq> SLASH" using plain_hd [OF v] by auto
  let ?tail = "concat (map (\<lambda>v. SLASH # v) ws)"
  have rel: "foldl path_push [] vs = v @ ?tail"
    using foldl_push_nonempty [OF hd(1,3) ws] hd by (simp add: vs' path_push_def)
  have base: "path_push root v \<noteq> []" "last (path_push root v) \<noteq> SLASH"
    using hd by (auto simp: path_push_def)
  have "foldl path_push root vs = path_push root v @ ?tail"
    using foldl_push_nonempty [OF base ws] by (simp add: vs')
  also have "\<dots> = path_push root (v @ ?tail)" using hd by (simp add: path_push_def)
  finally show ?thesis by (simp add: rel)
qed

lemma safe_paths_agree:
  assumes "safe_relative_path dir name = Inr rel"
  shows "safe_output_path root dir name = Inr (path_push root rel)"
proof -
  let ?cs = "name_components dir name"
  from assms have ok: "RootDir \<notin> set ?cs" "ParentDir \<notin> set ?cs" and
    rel: "rel = foldl path_push [] (component_parts ?cs)" and "rel \<noteq> []"
    by (auto simp: safe_relative_path_def result_iff push_components_Inr split: if_splits)
  then have "component_parts ?cs \<noteq> []" by auto
  with component_parts_plain have "path_push root rel = foldl path_push root (component_parts ?cs)"
    unfolding rel by (intro push_joined) blast+
  with ok show ?thesis by (simp add: safe_output_path_def push_components_Inr)
qed

end
