(* ===== verification/Manifest.thy ===== *)
theory Manifest
  imports Paths
begin

text \<open>
  The manifest of \<open>cri-cpk-cli/src/manifest.rs\<close>: its records, its text format, reading and writing
  the file, the profile a rebuild is made with, and the hash of a file.  A file system is a map
  from paths to contents.  \<open>manifest_reads_back\<close>: what \<open>write\<close> wrote, \<open>read\<close> returns, whatever was
  there before.
\<close>

section \<open>Records\<close>

definition MANIFEST_FILE_NAME :: rust_string where
  "MANIFEST_FILE_NAME = ascii ''.cri-cpk-manifest-v2''"

definition LEGACY_MANIFEST_FILE_NAME :: rust_string where
  "LEGACY_MANIFEST_FILE_NAME = ascii ''.cri-cpk-manifest-v1''"

definition MANIFEST_MAGIC :: rust_string where
  "MANIFEST_MAGIC = ascii ''CRI_CPK_MANIFEST_V2''"

record manifest_entry =
  me_directory :: rust_string
  me_file_name :: rust_string
  me_id :: u32
  me_user_string :: rust_string
  me_extracted_size :: u64
  me_extracted_hash :: u64
  me_packed_size :: u32
  me_packed_offset :: u64
  me_packed_hash :: u64

record manifest =
  mf_source_archive :: path
  mf_archive_size :: u64
  mf_archive_hash :: u64
  mf_alignment :: u16
  mf_has_toc :: bool
  mf_has_itoc :: bool
  mf_direct_itoc :: bool
  mf_p5r :: bool
  mf_version :: u16
  mf_revision :: u16
  mf_update_date_time :: u64
  mf_entries :: "manifest_entry list"

section \<open>Writing\<close>

text \<open>\<open>String::from_utf8_lossy\<close>: every maximal piece of an ill-formed sequence becomes U+FFFD.\<close>

definition REPLACEMENT :: bytes where "REPLACEMENT = [0xEF, 0xBF, 0xBD]"

definition continuation :: "u8 \<Rightarrow> bool" where
  "continuation b \<longleftrightarrow> 0x80 \<le> b \<and> b \<le> 0xBF"

definition second_of_3 :: "u8 \<Rightarrow> u8 \<Rightarrow> bool" where
  "second_of_3 a b \<longleftrightarrow> (if a = 0xE0 then 0xA0 else 0x80) \<le> b \<and> b \<le> (if a = 0xED then 0x9F else 0xBF)"

definition second_of_4 :: "u8 \<Rightarrow> u8 \<Rightarrow> bool" where
  "second_of_4 a b \<longleftrightarrow> (if a = 0xF0 then 0x90 else 0x80) \<le> b \<and> b \<le> (if a = 0xF4 then 0x8F else 0xBF)"

fun from_utf8_lossy :: "bytes \<Rightarrow> rust_string" where
  "from_utf8_lossy [] = []"
| "from_utf8_lossy (a # bs) =
    (if a < 0x80 then a # from_utf8_lossy bs
     else if 0xC2 \<le> a \<and> a \<le> 0xDF then
       (case bs of [] \<Rightarrow> REPLACEMENT
        | b # cs \<Rightarrow> if continuation b then a # b # from_utf8_lossy cs
                    else REPLACEMENT @ from_utf8_lossy bs)
     else if 0xE0 \<le> a \<and> a \<le> 0xEF then
       (case bs of [] \<Rightarrow> REPLACEMENT
        | b # cs \<Rightarrow> if \<not> second_of_3 a b then REPLACEMENT @ from_utf8_lossy bs
                    else (case cs of [] \<Rightarrow> REPLACEMENT
                          | c # ds \<Rightarrow> if continuation c then a # b # c # from_utf8_lossy ds
                                      else REPLACEMENT @ from_utf8_lossy cs))
     else if 0xF0 \<le> a \<and> a \<le> 0xF4 then
       (case bs of [] \<Rightarrow> REPLACEMENT
        | b # cs \<Rightarrow> if \<not> second_of_4 a b then REPLACEMENT @ from_utf8_lossy bs
                    else (case cs of [] \<Rightarrow> REPLACEMENT
                          | c # ds \<Rightarrow> if \<not> continuation c then REPLACEMENT @ from_utf8_lossy cs
                                      else (case ds of [] \<Rightarrow> REPLACEMENT
                                            | d # es \<Rightarrow> if continuation d
                                                then a # b # c # d # from_utf8_lossy es
                                                else REPLACEMENT @ from_utf8_lossy ds)))
     else REPLACEMENT @ from_utf8_lossy bs)"

definition key_line :: "string \<Rightarrow> rust_string \<Rightarrow> rust_string" where
  "key_line key v = ascii key @ 9 # v"

definition bool_digit :: "bool \<Rightarrow> rust_string" where
  "bool_digit b = decimal (if b then 1 else 0)"

definition entry_line :: "manifest_entry \<Rightarrow> rust_string" where
  "entry_line e =
     joined 9
       [ascii ''entry'', decimal (unat (me_id e)), decimal (unat (me_extracted_size e)),
        hex 16 (unat (me_extracted_hash e)), decimal (unat (me_packed_size e)),
        decimal (unat (me_packed_offset e)), hex 16 (unat (me_packed_hash e)),
        encode_field (me_directory e), encode_field (me_file_name e), encode_field (me_user_string e)]"

definition manifest_lines :: "manifest \<Rightarrow> rust_string list" where
  "manifest_lines m =
     [MANIFEST_MAGIC,
      key_line ''source'' (encode_field (from_utf8_lossy (mf_source_archive m))),
      key_line ''archive_size'' (decimal (unat (mf_archive_size m))),
      key_line ''archive_hash'' (hex 16 (unat (mf_archive_hash m))),
      key_line ''alignment'' (decimal (unat (mf_alignment m))),
      key_line ''has_toc'' (bool_digit (mf_has_toc m)),
      key_line ''has_itoc'' (bool_digit (mf_has_itoc m)),
      key_line ''direct_itoc'' (bool_digit (mf_direct_itoc m)),
      key_line ''p5r'' (bool_digit (mf_p5r m)),
      key_line ''version'' (decimal (unat (mf_version m))),
      key_line ''revision'' (decimal (unat (mf_revision m))),
      key_line ''update_date_time'' (decimal (unat (mf_update_date_time m)))] @
     map entry_line (mf_entries m)"

definition Manifest_path :: "path \<Rightarrow> path" where
  "Manifest_path root = path_push root MANIFEST_FILE_NAME"

text \<open>The text goes to a temporary file, the old manifest is removed, the file is renamed.\<close>

definition rename_file :: "path \<Rightarrow> path \<Rightarrow> (path \<rightharpoonup> bytes) \<Rightarrow> (path \<rightharpoonup> bytes)" where
  "rename_file from to fs = (fs(from := None))(to := fs from)"

definition Manifest_write :: "manifest \<Rightarrow> path \<Rightarrow> (path \<rightharpoonup> bytes) \<Rightarrow> (path \<rightharpoonup> bytes)" where
  "Manifest_write m root fs =
     (let p = Manifest_path root;
          temporary = p @ ascii ''.tmp'';
          fs = fs(temporary \<mapsto> terminated (manifest_lines m));
          fs = (if p \<in> dom fs then fs(p := None) else fs)
      in rename_file temporary p fs)"

section \<open>Reading\<close>

definition u16_or :: "manifest_message \<Rightarrow> u64 \<Rightarrow> u16 cli_result" where
  "u16_or err v = ok_or (invalid_data err) (try_from_word v)"

definition u32_or :: "manifest_message \<Rightarrow> u64 \<Rightarrow> u32 cli_result" where
  "u32_or err v = ok_or (invalid_data err) (try_from_word v)"

definition read_entry :: "rust_string \<Rightarrow> manifest_entry cli_result" where
  "read_entry line =
     (case split_on 9 line of
        [] \<Rightarrow> Inl (invalid_data UnknownRecord)
      | tag # fs \<Rightarrow>
     if tag \<noteq> ascii ''entry'' then Inl (invalid_data UnknownRecord) else
     and_then (next_field fs ''entry ID'') (\<lambda>(v, fs).
     and_then (parse_u64 v ''entry ID'') (\<lambda>entry_id.
     and_then (next_field fs ''extracted size'') (\<lambda>(v, fs).
     and_then (parse_u64 v ''extracted size'') (\<lambda>extracted_size.
     and_then (next_field fs ''extracted hash'') (\<lambda>(v, fs).
     and_then (parse_hex_u64 v ''extracted hash'') (\<lambda>extracted_hash.
     and_then (next_field fs ''packed size'') (\<lambda>(v, fs).
     and_then (parse_u64 v ''packed size'') (\<lambda>packed_size_u64.
     and_then (next_field fs ''packed offset'') (\<lambda>(v, fs).
     and_then (parse_u64 v ''packed offset'') (\<lambda>packed_offset.
     and_then (next_field fs ''packed hash'') (\<lambda>(v, fs).
     and_then (parse_hex_u64 v ''packed hash'') (\<lambda>packed_hash.
     and_then (next_field fs ''entry directory'') (\<lambda>(v, fs).
     and_then (decode_field v) (\<lambda>dir.
     and_then (next_field fs ''entry file name'') (\<lambda>(v, fs).
     and_then (decode_field v) (\<lambda>name.
     and_then (next_field fs ''entry user string'') (\<lambda>(v, fs).
     and_then (decode_field v) (\<lambda>user.
     if fs \<noteq> [] then Inl (invalid_data TooManyFields) else
     and_then (u32_or EntryIdTooLarge entry_id) (\<lambda>entry_id.
     and_then (u32_or PackedSizeTooLarge packed_size_u64) (\<lambda>packed_size.
       Inr \<lparr>me_directory = dir, me_file_name = name, me_id = entry_id, me_user_string = user,
            me_extracted_size = extracted_size, me_extracted_hash = extracted_hash,
            me_packed_size = packed_size, me_packed_offset = packed_offset,
            me_packed_hash = packed_hash\<rparr>)))))))))))))))))))))"

definition read_manifest_text :: "rust_string \<Rightarrow> manifest cli_result" where
  "read_manifest_text s =
     (case str_lines s of
        [] \<Rightarrow> Inl (invalid_data UnsupportedVersion)
      | magic_line # lines \<Rightarrow>
     if magic_line \<noteq> MANIFEST_MAGIC then Inl (invalid_data UnsupportedVersion) else
     and_then (required_value lines ''source'') (\<lambda>(v, lines).
     and_then (decode_field v) (\<lambda>source.
     and_then (required_value lines ''archive_size'') (\<lambda>(v, lines).
     and_then (parse_u64 v ''archive_size'') (\<lambda>archive_size.
     and_then (required_value lines ''archive_hash'') (\<lambda>(v, lines).
     and_then (parse_hex_u64 v ''archive_hash'') (\<lambda>archive_hash.
     and_then (required_value lines ''alignment'') (\<lambda>(v, lines).
     and_then (parse_u64 v ''alignment'') (\<lambda>alignment_u64.
     and_then (u16_or AlignmentTooLarge alignment_u64) (\<lambda>align.
     and_then (required_value lines ''has_toc'') (\<lambda>(v, lines).
     and_then (parse_bool v ''has_toc'') (\<lambda>toc.
     and_then (required_value lines ''has_itoc'') (\<lambda>(v, lines).
     and_then (parse_bool v ''has_itoc'') (\<lambda>itoc.
     and_then (required_value lines ''direct_itoc'') (\<lambda>(v, lines).
     and_then (parse_bool v ''direct_itoc'') (\<lambda>direct.
     and_then (required_value lines ''p5r'') (\<lambda>(v, lines).
     and_then (parse_bool v ''p5r'') (\<lambda>p5r.
     and_then (required_value lines ''version'') (\<lambda>(v, lines).
     and_then (parse_u64 v ''version'') (\<lambda>version_u64.
     and_then (required_value lines ''revision'') (\<lambda>(v, lines).
     and_then (parse_u64 v ''revision'') (\<lambda>revision_u64.
     and_then (u16_or VersionTooLarge version_u64) (\<lambda>ver.
     and_then (u16_or RevisionTooLarge revision_u64) (\<lambda>rev.
     and_then (required_value lines ''update_date_time'') (\<lambda>(v, lines).
     and_then (parse_u64 v ''update_date_time'') (\<lambda>date.
     and_then (map_result read_entry (filter (\<lambda>l. l \<noteq> []) lines)) (\<lambda>entries.
     if \<not> toc \<and> \<not> itoc then Inl (invalid_data NeitherTocNorItoc)
     else if direct \<and> \<not> itoc then Inl (invalid_data DirectWithoutItoc)
     else Inr \<lparr>mf_source_archive = source, mf_archive_size = archive_size,
               mf_archive_hash = archive_hash, mf_alignment = align, mf_has_toc = toc,
               mf_has_itoc = itoc, mf_direct_itoc = direct, mf_p5r = p5r, mf_version = ver,
               mf_revision = rev, mf_update_date_time = date, mf_entries = entries\<rparr>
     )))))))))))))))))))))))))))"

definition Manifest_read :: "path \<Rightarrow> (path \<rightharpoonup> bytes) \<Rightarrow> manifest option cli_result" where
  "Manifest_read root fs =
     (case fs (Manifest_path root) of
        None \<Rightarrow> Inr None
      | Some bs \<Rightarrow>
          if \<not> utf8_valid bs then Inl (Lib (Io InvalidData))
          else result_map Some (read_manifest_text bs))"

section \<open>The round trip\<close>

definition manifest_entry_ok :: "manifest_entry \<Rightarrow> bool" where
  "manifest_entry_ok e \<longleftrightarrow>
     utf8_valid (me_directory e) \<and> utf8_valid (me_file_name e) \<and> utf8_valid (me_user_string e)"

definition manifest_ok :: "manifest \<Rightarrow> bool" where
  "manifest_ok m \<longleftrightarrow>
     utf8_valid (mf_source_archive m) \<and> (mf_has_toc m \<or> mf_has_itoc m) \<and>
     (mf_direct_itoc m \<longrightarrow> mf_has_itoc m) \<and> list_all manifest_entry_ok (mf_entries m)"

lemma lossy_valid: "utf8_valid s \<Longrightarrow> from_utf8_lossy s = s"
proof (induction s rule: length_induct)
  case (1 s)
  have IH: "utf8_valid t \<Longrightarrow> length t < length s \<Longrightarrow> from_utf8_lossy t = t" for t using "1.IH" by blast
  show ?case
  proof (cases s)
    case (Cons a bs)
    note valid = "1.prems" [unfolded Cons utf8_valid.simps]
    consider (one) "a < 0x80" | (two) "\<not> a < 0x80" "0xC2 \<le> a \<and> a \<le> 0xDF"
      | (three) "\<not> a < 0x80" "\<not> (0xC2 \<le> a \<and> a \<le> 0xDF)" "0xE0 \<le> a \<and> a \<le> 0xEF"
      | (four) "\<not> a < 0x80" "\<not> (0xC2 \<le> a \<and> a \<le> 0xDF)" "\<not> (0xE0 \<le> a \<and> a \<le> 0xEF)" "0xF0 \<le> a \<and> a \<le> 0xF4"
      using valid by (auto split: if_splits)
    then show ?thesis
    proof cases
      case one
      with valid IH [of bs] show ?thesis by (simp add: Cons)
    next
      case two
      then obtain b cs where "bs = b # cs" "0x80 \<le> b \<and> b \<le> 0xBF" "utf8_valid cs"
        using valid by (auto split: list.splits)
      with two IH [of cs] show ?thesis
        unfolding Cons from_utf8_lossy.simps by (simp only: if_True if_False list.case) (simp add: continuation_def)
    next
      case three
      then obtain b c ds where "bs = b # c # ds" "second_of_3 a b" "continuation c" "utf8_valid ds"
        using valid by (simp only: if_True if_False) (auto simp: second_of_3_def continuation_def split: list.splits)
      with three IH [of ds] show ?thesis
        unfolding Cons from_utf8_lossy.simps by (simp only: if_True if_False list.case not_True_eq_False) simp
    next
      case four
      then obtain b c d es where "bs = b # c # d # es" "second_of_4 a b" "continuation c" "continuation d"
        "utf8_valid es"
        using valid by (simp only: if_True if_False) (auto simp: second_of_4_def continuation_def split: list.splits)
      with four IH [of es] show ?thesis
        unfolding Cons from_utf8_lossy.simps by (simp only: if_True if_False list.case not_True_eq_False) simp
    qed
  qed simp
qed

text \<open>Printed fields are made of these characters, so they hold no tab and no line break.\<close>

definition field_text :: "bytes \<Rightarrow> bool" where
  "field_text s \<longleftrightarrow> (\<forall>b \<in> set s. 48 \<le> unat b \<and> unat b \<le> 122)"

lemma field_text_simps [simp]:
  "field_text []"
  "field_text (b # s) \<longleftrightarrow> 48 \<le> unat b \<and> unat b \<le> 122 \<and> field_text s"
  "field_text (s @ t) \<longleftrightarrow> field_text s \<and> field_text t"
  by (auto simp: field_text_def)

lemma field_text_decimal [simp]: "field_text (decimal n)"
proof (induction n rule: decimal.induct)
  case (1 n)
  have digit: "48 \<le> unat (of_nat (48 + d) :: u8) \<and> unat (of_nat (48 + d) :: u8) \<le> 122" if "d < 10" for d
    using unat_digit [of "48 + d"] that by (simp del: of_nat_add)
  show ?case
  proof (cases "n < 10")
    case True
    then show ?thesis using digit [OF True] by (subst decimal.simps) (simp del: of_nat_add)
  next
    case False
    then show ?thesis
      using 1 digit [of "n mod 10"] by (subst decimal.simps) (simp del: of_nat_add)
  qed
qed

lemma field_text_hex [simp]: "field_text (hex k n)"
  using hex_code [of _ k n] by (fastforce simp: field_text_def)

lemma field_text_encode [simp]: "field_text (encode_field v)"
  using encode_field_code [of _ v] by (fastforce simp: field_text_def)

lemma field_text_bool [simp]: "field_text (bool_digit b)"
  by (simp add: bool_digit_def)

lemma field_text_absent: "field_text s \<Longrightarrow> 9 \<notin> set s \<and> 10 \<notin> set s \<and> 13 \<notin> set s"
  by (auto simp: field_text_def)

definition line_text :: "bytes \<Rightarrow> bool" where
  "line_text s \<longleftrightarrow> (\<forall>b \<in> set s. b = 9 \<or> 48 \<le> unat b \<and> unat b \<le> 122)"

lemma line_text_field: "field_text s \<Longrightarrow> line_text s"
  by (auto simp: field_text_def line_text_def)

lemma line_text_simps [simp]:
  "line_text []"
  "line_text (b # s) \<longleftrightarrow> (b = 9 \<or> 48 \<le> unat b \<and> unat b \<le> 122) \<and> line_text s"
  "line_text (s @ t) \<longleftrightarrow> line_text s \<and> line_text t"
  by (auto simp: line_text_def)

lemma line_text_joined: "\<forall>f \<in> set fs. field_text f \<Longrightarrow> line_text (joined 9 fs)"
  by (induction "9 :: u8" fs rule: joined.induct) (auto intro: line_text_field)

lemma field_text_entry [simp]: "field_text (ascii ''entry'')"
  by (simp add: ascii_def)

lemma entry_line_text: "line_text (entry_line e)"
  unfolding entry_line_def by (rule line_text_joined) simp

lemma key_line_text: "field_text (ascii key) \<Longrightarrow> field_text v \<Longrightarrow> line_text (key_line key v)"
  by (simp add: key_line_def line_text_field)

lemma manifest_lines_text: "l \<in> set (manifest_lines m) \<Longrightarrow> line_text l"
proof -
  have keys: "field_text (ascii ''source'')" "field_text (ascii ''archive_size'')"
    "field_text (ascii ''archive_hash'')" "field_text (ascii ''alignment'')" "field_text (ascii ''has_toc'')"
    "field_text (ascii ''has_itoc'')" "field_text (ascii ''direct_itoc'')" "field_text (ascii ''p5r'')"
    "field_text (ascii ''version'')" "field_text (ascii ''revision'')" "field_text (ascii ''update_date_time'')"
    "line_text MANIFEST_MAGIC"
    by (simp_all add: ascii_def MANIFEST_MAGIC_def)
  assume "l \<in> set (manifest_lines m)"
  then show ?thesis
    using keys by (auto simp: manifest_lines_def entry_line_text intro!: key_line_text)
qed

lemma line_text_absent: "line_text s \<Longrightarrow> 10 \<notin> set s \<and> 13 \<notin> set s"
  by (auto simp: line_text_def)

lemma manifest_text_valid: "utf8_valid (terminated (manifest_lines m))"
proof (rule utf8_valid_ascii)
  have "b < 0x80" if "l \<in> set (manifest_lines m)" "b \<in> set l" for b l
    using manifest_lines_text [OF that(1)] that(2) by (auto simp: line_text_def word_less_nat_alt)
  then show "\<forall>b \<in> set (terminated (manifest_lines m)). b < 0x80"
    by (auto simp: terminated_def)
qed

lemma parse_narrow:
  fixes w :: "'a::len word"
  assumes "LENGTH('a) \<le> 64"
  shows "parse_u64 (decimal (unat w)) name = Inr (ucast w)"
proof -
  have "(2 :: nat) ^ LENGTH('a) \<le> 2 ^ 64" using assms by (intro power_increasing) simp_all
  with unat_lt2p [of w] have "unat w < 2 ^ 64" by (rule less_le_trans)
  from parse_decimal [OF this] show ?thesis by (simp add: parse_u64_def)
qed

lemma ucast_back: "LENGTH('a) \<le> LENGTH('b) \<Longrightarrow> ucast (ucast w :: 'b::len word) = (w :: 'a::len word)"
  by (rule bit_word_eqI) (auto simp: bit_ucast_iff)

lemma u32_or_ucast [simp]: "u32_or err (ucast w) = Inr w"
  using unat_lt2p [of w] by (simp add: u32_or_def try_from_word_def unat_ucast_wide ucast_back)

lemma u16_or_ucast [simp]: "u16_or err (ucast w) = Inr w"
  using unat_lt2p [of w] by (simp add: u16_or_def try_from_word_def unat_ucast_wide ucast_back)

lemma parse_bool_digit [simp]: "parse_bool (bool_digit b) name = Inr b"
proof -
  have "decimal 0 = ascii ''0''" "decimal 1 = ascii ''1''"
    by (subst decimal.simps, simp add: ascii_def)+
  then show ?thesis by (simp add: parse_bool_def bool_digit_def ascii_def)
qed

lemma read_entry_line: "manifest_entry_ok e \<Longrightarrow> read_entry (entry_line e) = Inr e"
proof -
  assume ok: "manifest_entry_ok e"
  let ?fields = "[ascii ''entry'', decimal (unat (me_id e)), decimal (unat (me_extracted_size e)),
        hex 16 (unat (me_extracted_hash e)), decimal (unat (me_packed_size e)),
        decimal (unat (me_packed_offset e)), hex 16 (unat (me_packed_hash e)),
        encode_field (me_directory e), encode_field (me_file_name e), encode_field (me_user_string e)]"
  have split: "split_on 9 (entry_line e) = ?fields"
    unfolding entry_line_def by (rule split_joined) (use field_text_absent in auto)
  show ?thesis
    using ok unfolding read_entry_def split
    by (simp add: next_field_def parse_narrow decode_encode_field manifest_entry_ok_def)
qed

lemma key_required:
  "field_text (ascii key) \<Longrightarrow> required_value (key_line key v # rest) key = Inr (v, rest)"
  unfolding key_line_def by (rule required_value_line) (simp add: field_text_absent)

lemma read_manifest_lines:
  assumes "manifest_ok m"
  shows "read_manifest_text (terminated (manifest_lines m)) = Inr m"
proof -
  have keys: "field_text (ascii ''source'')" "field_text (ascii ''archive_size'')"
    "field_text (ascii ''archive_hash'')" "field_text (ascii ''alignment'')" "field_text (ascii ''has_toc'')"
    "field_text (ascii ''has_itoc'')" "field_text (ascii ''direct_itoc'')" "field_text (ascii ''p5r'')"
    "field_text (ascii ''version'')" "field_text (ascii ''revision'')" "field_text (ascii ''update_date_time'')"
    by (simp_all add: ascii_def)
  have lines: "str_lines (terminated (manifest_lines m)) = manifest_lines m"
    by (rule lines_terminated) (use manifest_lines_text line_text_absent in blast)
  have "filter (\<lambda>l. l \<noteq> []) (map entry_line (mf_entries m)) = map entry_line (mf_entries m)"
    by (rule filter_True) (auto simp: entry_line_def)
  moreover have "map_result read_entry (map entry_line (mf_entries m)) = Inr (mf_entries m)"
    using assms by (auto simp: map_result_Inr_iff list_all2_conv_all_nth manifest_ok_def list_all_length
        intro!: read_entry_line)
  ultimately show ?thesis
    using assms unfolding read_manifest_text_def lines unfolding manifest_lines_def manifest_ok_def
    by (simp add: key_required [OF keys(1)] key_required [OF keys(2)] key_required [OF keys(3)]
        key_required [OF keys(4)] key_required [OF keys(5)] key_required [OF keys(6)]
        key_required [OF keys(7)] key_required [OF keys(8)] key_required [OF keys(9)]
        key_required [OF keys(10)] key_required [OF keys(11)]
        parse_narrow decode_encode_field lossy_valid)
qed

lemma tmp_extension [simp]: "ascii ''.tmp'' \<noteq> []"
  by (simp add: ascii_def)

lemma manifest_reads_back:
  assumes "manifest_ok m"
  shows "Manifest_read root (Manifest_write m root fs) = Inr (Some m)"
proof -
  have "Manifest_write m root fs (Manifest_path root) = Some (terminated (manifest_lines m))"
    by (simp add: Manifest_write_def Let_def rename_file_def)
  then show ?thesis
    by (simp add: Manifest_read_def manifest_text_valid read_manifest_lines [OF assms])
qed

text \<open>Nothing else changes, and no temporary file stays behind.\<close>

lemma manifest_write_elsewhere:
  "q \<noteq> Manifest_path root \<Longrightarrow> q \<noteq> Manifest_path root @ ascii ''.tmp'' \<Longrightarrow>
   Manifest_write m root fs q = fs q"
  "Manifest_write m root fs (Manifest_path root @ ascii ''.tmp'') = None"
  by (auto simp: Manifest_write_def Let_def rename_file_def)

section \<open>What a rebuild takes from the manifest\<close>

definition writer_profile :: "manifest \<Rightarrow> cpk_writer_profile cli_result" where
  "writer_profile m =
     result_map (\<lambda>mode. default_profile\<lparr>index_mode := mode, direct_itoc := mf_direct_itoc m,
         version := mf_version m, revision := mf_revision m, update_date_time := mf_update_date_time m\<rparr>)
       (if mf_has_toc m then Inr (if mf_has_itoc m then Mode_TocAndItoc else Mode_Toc)
        else if mf_has_itoc m then Inr Mode_Itoc else Inl (Lib Panic))"

lemma read_manifest_modes:
  "Manifest_read root fs = Inr (Some m) \<Longrightarrow>
   (mf_has_toc m \<or> mf_has_itoc m) \<and> (mf_direct_itoc m \<longrightarrow> mf_has_itoc m)"
  by (auto simp: Manifest_read_def read_manifest_text_def result_iff split: option.splits if_splits list.splits)

section \<open>Hashes\<close>

definition FNV_OFFSET_BASIS :: u64 where "FNV_OFFSET_BASIS = 0xcbf29ce484222325"
definition FNV_PRIME :: u64 where "FNV_PRIME = 0x100000001b3"

definition hash_step :: "u64 \<Rightarrow> u8 \<Rightarrow> u64" where
  "hash_step h byte = (h XOR ucast byte) * FNV_PRIME"

definition hash_bytes :: "bytes \<Rightarrow> u64" where
  "hash_bytes bs = foldl hash_step FNV_OFFSET_BASIS bs"

text \<open>
  \<open>hash_file\<close> reads the file in pieces of at most 64 KiB; how many bytes a read returns is up to the
  reader: \<open>avail\<close> bytes, at least one while there are bytes left.
\<close>

definition HASH_BUFFER :: nat where "HASH_BUFFER = 0x10000"

definition read_some :: "(nat \<Rightarrow> nat) \<Rightarrow> nat \<Rightarrow> bytes \<Rightarrow> bytes" where
  "read_some avail turn rest = take (min HASH_BUFFER (max 1 (avail turn))) rest"

function hash_chunks :: "(nat \<Rightarrow> nat) \<Rightarrow> nat \<Rightarrow> u64 \<Rightarrow> bytes \<Rightarrow> u64" where
  "hash_chunks avail turn h rest =
     (let buffer = read_some avail turn rest in
      if length buffer = 0 then h
      else hash_chunks avail (turn + 1) (foldl hash_step h buffer) (drop (length buffer) rest))"
  by pat_completeness auto
termination
  by (relation "measure (\<lambda>(avail, turn, h, rest). length rest)")
    (auto simp: read_some_def HASH_BUFFER_def)

declare hash_chunks.simps [simp del]

definition hash_file :: "(nat \<Rightarrow> nat) \<Rightarrow> path \<Rightarrow> (path \<rightharpoonup> bytes) \<Rightarrow> (u64 \<times> u64) cli_result" where
  "hash_file avail p fs =
     (case fs p of
        None \<Rightarrow> Inl (Lib (Io NotFound))
      | Some bs \<Rightarrow> Inr (of_nat (length bs), hash_chunks avail 0 FNV_OFFSET_BASIS bs))"

lemma hash_chunks_eq: "hash_chunks avail turn h bs = foldl hash_step h bs"
proof (induction avail turn h bs rule: hash_chunks.induct)
  case (1 avail turn h bs)
  let ?b = "read_some avail turn bs"
  show ?case
  proof (cases "length ?b = 0")
    case True
    then have "bs = []" by (auto simp: read_some_def HASH_BUFFER_def min_def split: if_splits)
    with True show ?thesis by (subst hash_chunks.simps) (simp add: Let_def)
  next
    case False
    have "?b @ drop (length ?b) bs = bs" by (simp add: read_some_def min_def)
    then have "foldl hash_step h bs = foldl hash_step (foldl hash_step h ?b) (drop (length ?b) bs)"
      by (metis foldl_append)
    with False "1" [OF refl False] show ?thesis by (subst hash_chunks.simps) (simp add: Let_def)
  qed
qed

lemma hash_file_eq:
  "hash_file avail p fs =
     (case fs p of None \<Rightarrow> Inl (Lib (Io NotFound)) | Some bs \<Rightarrow> Inr (of_nat (length bs), hash_bytes bs))"
  by (simp add: hash_file_def hash_chunks_eq hash_bytes_def split: option.split)

definition source_is_original :: "(nat \<Rightarrow> nat) \<Rightarrow> manifest \<Rightarrow> (path \<rightharpoonup> bytes) \<Rightarrow> bool cli_result" where
  "source_is_original avail m fs =
     (if mf_source_archive m \<notin> dom fs then Inr False
      else and_then (hash_file avail (mf_source_archive m) fs) (\<lambda>(n, h).
        Inr (n = mf_archive_size m \<and> h = mf_archive_hash m)))"

end
