(* ===== verification/Directory_Walk.thy ===== *)
theory Directory_Walk
  imports Manifest "HOL-Library.List_Lexorder" "HOL-Library.Multiset"
begin

text \<open>
  The two directory walks: \<open>collect_files\<close> of \<open>writer.rs\<close> and \<open>collect_relative_files\<close> of
  \<open>manifest.rs\<close>.  Both keep a stack of directories and take the last one; what a directory holds is
  asked of the operating system, a parameter of type \<open>host\<close>.  A directory that contains itself would
  keep the loop going, so \<open>walk\<close> is a partial function; \<open>walk_returns\<close> is its termination on every
  directory tree, \<open>walk_finds\<close> says that it finds what is reachable and nothing else.

  Paths are ordered as \<open>Path\<close> orders them, by components.
\<close>

section \<open>The operating system\<close>

datatype file_type = Type_file | Type_dir | Type_other

record host =
  canonicalize :: "path \<Rightarrow> path option"
  current_dir :: path
  read_dir :: "path \<Rightarrow> ((rust_string \<times> file_type) list) result"

definition is_absolute :: "path \<Rightarrow> bool" where
  "is_absolute p \<longleftrightarrow> p \<noteq> [] \<and> hd p = SLASH"

definition absolute_path :: "host \<Rightarrow> path \<Rightarrow> path" where
  "absolute_path h p =
     (case canonicalize h p of Some c \<Rightarrow> c
      | None \<Rightarrow> if is_absolute p then p else path_push (current_dir h) p)"

definition same_components :: "path \<Rightarrow> path \<Rightarrow> bool" where
  "same_components p q \<longleftrightarrow> path_components p = path_components q"

text \<open>A path exists if it can be canonicalized.\<close>

definition same_path :: "host \<Rightarrow> path \<Rightarrow> path \<Rightarrow> bool" where
  "same_path h left right =
     (case (canonicalize h left, canonicalize h right) of
        (Some l, Some r) \<Rightarrow> same_components l r
      | _ \<Rightarrow> same_components (absolute_path h left) (absolute_path h right))"

section \<open>Order and parts of paths\<close>

fun component_key :: "component \<Rightarrow> nat list" where
  "component_key RootDir = [1]"
| "component_key CurDir = [2]"
| "component_key ParentDir = [3]"
| "component_key (Normal v) = 4 # map unat v"

lemma component_key_inj: "component_key c = component_key d \<longleftrightarrow> c = d"
proof -
  have "map unat v = map unat w \<longleftrightarrow> v = w" for v w :: bytes
    by (rule inj_map_eq_map) (auto simp: inj_def intro!: word_unat_eq_iff [THEN iffD2])
  then show ?thesis by (cases c; cases d) auto
qed

instantiation component :: linorder
begin

definition less_eq_component :: "component \<Rightarrow> component \<Rightarrow> bool" where
  "less_eq_component c d \<longleftrightarrow> component_key c \<le> component_key d"

definition less_component :: "component \<Rightarrow> component \<Rightarrow> bool" where
  "less_component c d \<longleftrightarrow> component_key c < component_key d"

instance
  by standard
    (auto simp: less_eq_component_def less_component_def order_less_le component_key_inj)

end

definition from_components :: "component list \<Rightarrow> path" where
  "from_components cs = foldl path_push [] (map component_os_str cs)"

definition strip_prefix :: "path \<Rightarrow> path \<Rightarrow> path option" where
  "strip_prefix root p =
     (let r = path_components root; c = path_components p in
      if take (length r) c = r then Some (from_components (drop (length r) c)) else None)"

definition path_file_name :: "path \<Rightarrow> rust_string option" where
  "path_file_name p =
     (case rev (path_components p) of Normal v # _ \<Rightarrow> Some v | _ \<Rightarrow> None)"

definition path_parent :: "path \<Rightarrow> path option" where
  "path_parent p =
     (case path_components p of [] \<Rightarrow> None | [RootDir] \<Rightarrow> None
      | cs \<Rightarrow> Some (from_components (butlast cs)))"

section \<open>The walk\<close>

partial_function (option) walk ::
  "(path \<Rightarrow> 'e + path list \<times> 'a list) \<Rightarrow> path list \<Rightarrow> 'a list \<Rightarrow> ('e + 'a list) option" where
  "walk visit pending found =
     (if pending = [] then Some (Inr found)
      else case visit (last pending) of
             Inl e \<Rightarrow> Some (Inl e)
           | Inr r \<Rightarrow> walk visit (butlast pending @ fst r) (found @ snd r))"

text \<open>On a tree the walk returns: every subdirectory has a smaller rank than its parent.\<close>

definition ranked :: "(path \<Rightarrow> 'e + path list \<times> 'a list) \<Rightarrow> (path \<Rightarrow> nat) \<Rightarrow> bool" where
  "ranked visit rank \<longleftrightarrow>
     (\<forall>d dirs found. visit d = Inr (dirs, found) \<longrightarrow> (\<forall>s \<in> set dirs. rank s < rank d))"

lemma walk_returns:
  assumes "ranked visit rank"
  shows "\<exists>r. walk visit pending found = Some r"
proof (induction "mset (map rank pending)" arbitrary: pending found rule: wf_induct [OF wf_mult [OF wf_less_than]])
  case (1 pending)
  show ?case
  proof (cases "pending = [] \<or> (\<exists>e. visit (last pending) = Inl e)")
    case True
    then show ?thesis by (subst walk.simps) auto
  next
    case False
    then obtain dirs new where v: "visit (last pending) = Inr (dirs, new)" and ne: "pending \<noteq> []"
      by (cases "visit (last pending)") auto
    have "\<forall>k \<in># mset (map rank dirs). \<exists>j \<in># {#rank (last pending)#}. (k, j) \<in> less_than"
      using assms v by (auto simp: ranked_def)
    then have "(mset (map rank (butlast pending)) + mset (map rank dirs),
        mset (map rank (butlast pending)) + {#rank (last pending)#}) \<in> mult less_than"
      by (intro one_step_implies_mult) simp_all
    moreover have "mset (map rank pending) = mset (map rank (butlast pending)) + {#rank (last pending)#}"
      using arg_cong [OF append_butlast_last_id [OF ne], of "\<lambda>xs. mset (map rank xs)"] by simp
    ultimately have "(mset (map rank (butlast pending @ dirs)), mset (map rank pending)) \<in> mult less_than"
      by simp
    from "1" [rule_format, OF this refl, of "found @ new"] v ne show ?thesis
      by (subst walk.simps) simp
  qed
qed

inductive below :: "(path \<Rightarrow> 'e + path list \<times> 'a list) \<Rightarrow> path \<Rightarrow> path \<Rightarrow> bool" for visit where
  below_refl: "below visit d d"
| below_step: "visit d = Inr (dirs, new) \<Longrightarrow> s \<in> set dirs \<Longrightarrow> below visit s e \<Longrightarrow> below visit d e"

inductive_cases belowE: "below visit d e"

definition found_below :: "(path \<Rightarrow> 'e + path list \<times> 'a list) \<Rightarrow> path \<Rightarrow> 'a set" where
  "found_below visit d = {x. \<exists>e dirs new. below visit d e \<and> visit e = Inr (dirs, new) \<and> x \<in> set new}"

lemma found_below_unfold:
  assumes v: "visit d = Inr (dirs, new)"
  shows "found_below visit d = set new \<union> (\<Union>s \<in> set dirs. found_below visit s)"
proof (rule set_eqI, rule iffI)
  fix x assume "x \<in> found_below visit d"
  then obtain e dirs' new' where e: "below visit d e" "visit e = Inr (dirs', new')" "x \<in> set new'"
    by (auto simp: found_below_def)
  from e(1) show "x \<in> set new \<union> (\<Union>s \<in> set dirs. found_below visit s)"
  proof cases
    case below_refl
    with e v show ?thesis by simp
  next
    case (below_step dirs'' new'' s)
    with e v show ?thesis by (auto simp: found_below_def)
  qed
next
  fix x assume "x \<in> set new \<union> (\<Union>s \<in> set dirs. found_below visit s)"
  then consider "x \<in> set new" | s where "s \<in> set dirs" "x \<in> found_below visit s" by blast
  then show "x \<in> found_below visit d"
  proof cases
    case 1
    with v below_refl [of visit d] show ?thesis by (auto simp: found_below_def)
  next
    case (2 s)
    then obtain e dirs' new' where "below visit s e" "visit e = Inr (dirs', new')" "x \<in> set new'"
      by (auto simp: found_below_def)
    with below_step [of visit d dirs new s, OF v 2(1)] show ?thesis by (auto simp: found_below_def)
  qed
qed

lemma walk_finds_all:
  assumes "walk visit pending found = Some res"
  shows "\<forall>r. res = Inr r \<longrightarrow> set r = set found \<union> (\<Union>d \<in> set pending. found_below visit d)"
  using assms
proof (induction visit pending found res rule: walk.raw_induct [rotated, consumes 1, case_names 1])
  case (1 w visit pending found res)
  show ?case
  proof (cases "pending = [] \<or> (\<exists>e. visit (last pending) = Inl e)")
    case True
    with 1(2) show ?thesis by (cases "pending = []") auto
  next
    case False
    with 1(2) obtain dirs new where v: "visit (last pending) = Inr (dirs, new)"
      and w: "w visit (butlast pending @ dirs) (found @ new) = Some res"
      by (cases "visit (last pending)") auto
    have "set pending = insert (last pending) (set (butlast pending))"
      using False by (cases pending rule: rev_cases) auto
    with 1(1) [OF w] found_below_unfold [of visit, OF v] show ?thesis by auto
  qed
qed

lemma walk_finds: "walk visit [root] [] = Some (Inr r) \<Longrightarrow> set r = found_below visit root"
  using walk_finds_all [of visit "[root]" "[]" "Inr r"] by simp

section \<open>Collecting the files of an archive\<close>

text \<open>One directory of \<open>collect_relative_files\<close>.\<close>

definition relative_entry ::
  "host \<Rightarrow> path \<Rightarrow> path list \<Rightarrow> path \<Rightarrow> path list \<times> path list \<Rightarrow> rust_string \<times> file_type \<Rightarrow>
   (path list \<times> path list) cli_result" where
  "relative_entry h root excluded dir acc entry =
     (let (dirs, found) = acc; (name, ty) = entry; p = path_push dir name in
      if ty = Type_dir then Inr (dirs @ [p], found)
      else if ty \<noteq> Type_file then Inr (dirs, found)
      else if \<exists>x \<in> set excluded. same_components (absolute_path h p) x then Inr (dirs, found)
      else and_then (ok_or (Lib (Io InvalidData)) (strip_prefix root p)) (\<lambda>relative.
        Inr (dirs, found @ [relative])))"

definition relative_visit ::
  "host \<Rightarrow> path \<Rightarrow> path list \<Rightarrow> path \<Rightarrow> (path list \<times> path list) cli_result" where
  "relative_visit h root excluded dir =
     (case read_dir h dir of Inl e \<Rightarrow> Inl (Lib e)
      | Inr entries \<Rightarrow> fold_result (relative_entry h root excluded dir) ([], []) entries)"

definition excluded_paths :: "host \<Rightarrow> path \<Rightarrow> path \<Rightarrow> path list" where
  "excluded_paths h root output_archive =
     [absolute_path h (Manifest_path root), absolute_path h (path_push root LEGACY_MANIFEST_FILE_NAME),
      absolute_path h output_archive]"

definition collect_relative_files :: "host \<Rightarrow> path \<Rightarrow> path \<Rightarrow> path list cli_result option" where
  "collect_relative_files h root output_archive =
     walk (relative_visit h root (excluded_paths h root output_archive)) [root] []"

text \<open>
  \<open>collect_files\<close> of the library: the entries of the archive, sorted by their engine path, with
  their positions as IDs.
\<close>

definition writer_entry ::
  "host \<Rightarrow> (path \<rightharpoonup> bytes) \<Rightarrow> path \<Rightarrow> path option \<Rightarrow> path \<Rightarrow> path list \<times> cpk_input_file list \<Rightarrow>
   rust_string \<times> file_type \<Rightarrow> (path list \<times> cpk_input_file list) result" where
  "writer_entry h fs root output_absolute dir acc entry =
     (let (dirs, found) = acc; (name, ty) = entry; p = path_push dir name in
      if ty = Type_dir then Inr (dirs @ [p], found)
      else if ty \<noteq> Type_file then Inr (dirs, found)
      else if path_file_name p = Some LEGACY_MANIFEST_FILE_NAME \<or> path_file_name p = Some MANIFEST_FILE_NAME
      then Inr (dirs, found)
      else if (case (output_absolute, canonicalize h p) of
                 (Some out, Some candidate) \<Rightarrow> same_components candidate out | _ \<Rightarrow> False)
      then Inr (dirs, found)
      else
        and_then (ok_or (Io InvalidData) (strip_prefix root p)) (\<lambda>relative.
        and_then (case path_file_name relative of
                    Some n \<Rightarrow> if utf8_valid n then Inr n else Inl (writer_error (NonUtf8Path p))
                  | None \<Rightarrow> Inl (writer_error (NonUtf8Path p))) (\<lambda>file_name.
        and_then (case path_parent relative of
                    Some parent \<Rightarrow> if parent = [] then Inr [] else writer_path_to_cri_string parent
                  | None \<Rightarrow> Inr []) (\<lambda>directory.
        and_then (ok_or (Io NotFound) (fs p)) (\<lambda>bs.
        and_then (ok_or (writer_error (WriterFileTooLarge p (of_nat (length bs)))) (try_from_nat (length bs)))
          (\<lambda>n.
          Inr (dirs, found @ [\<lparr>in_directory = directory, in_file_name = file_name, source_path = p,
            in_size = n, in_extract_size = n, in_id = 0, in_user_string = [], raw_payload = None\<rparr>])))))))"

definition writer_visit ::
  "host \<Rightarrow> (path \<rightharpoonup> bytes) \<Rightarrow> path \<Rightarrow> path option \<Rightarrow> path \<Rightarrow> (path list \<times> cpk_input_file list) result" where
  "writer_visit h fs root output_absolute dir =
     and_then (read_dir h dir) (fold_result (writer_entry h fs root output_absolute dir) ([], []))"

definition number_file :: "nat \<Rightarrow> nat \<times> cpk_input_file \<Rightarrow> cpk_input_file result" where
  "number_file file_count x =
     (let (index, f) = x in
      and_then (ok_or (writer_error (TooManyFiles file_count)) (try_from_nat index)) (\<lambda>i.
        Inr (f\<lparr>in_id := i\<rparr>)))"

definition collect_files :: "host \<Rightarrow> (path \<rightharpoonup> bytes) \<Rightarrow> path \<Rightarrow> path \<Rightarrow> cpk_input_file list result option" where
  "collect_files h fs root output_file =
     map_option (\<lambda>walked.
       and_then walked (\<lambda>found.
       let sorted_files = sort_key engine_path_key found in
       map_result (number_file (length sorted_files)) (enumerate 0 sorted_files)))
     (walk (writer_visit h fs root (canonicalize h output_file)) [root] [])"

section \<open>What is collected\<close>

definition collected :: "(path \<rightharpoonup> bytes) \<Rightarrow> cpk_input_file \<Rightarrow> bool" where
  "collected fs f \<longleftrightarrow>
     raw_payload f = None \<and> in_user_string f = [] \<and> utf8_valid (in_file_name f) \<and>
     in_extract_size f = in_size f \<and>
     (\<exists>bs. fs (source_path f) = Some bs \<and> length bs = unat (in_size f))"

lemma writer_entry_collects:
  assumes "writer_entry h fs root output_absolute dir acc entry = Inr acc'"
    and "\<forall>f \<in> set (snd acc). collected fs f"
  shows "\<forall>f \<in> set (snd acc'). collected fs f"
proof -
  obtain dirs found where acc: "acc = (dirs, found)" by (cases acc)
  obtain n ty where entry: "entry = (n, ty)" by (cases entry)
  from assms(1) consider "snd acc' = found"
    | f where "snd acc' = found @ [f]" "collected fs f"
    unfolding writer_entry_def acc entry Let_def
    by (auto simp: result_iff collected_def unat_of_nat_fits split: if_splits option.splits)
  then show ?thesis using assms(2) acc by cases auto
qed

lemma writer_visit_collects:
  assumes "writer_visit h fs root output_absolute dir = Inr (dirs, new)" and "f \<in> set new"
  shows "collected fs f"
proof -
  from assms(1) obtain entries where
    fold: "fold_result (writer_entry h fs root output_absolute dir) ([], []) entries = Inr (dirs, new)"
    by (auto simp: writer_visit_def result_iff)
  have "\<forall>f \<in> set (snd (dirs, new)). collected fs f"
    by (rule fold_result_invariant [OF fold, where P = "\<lambda>_ acc. \<forall>f \<in> set (snd acc). collected fs f"])
      (auto intro: writer_entry_collects [rule_format])
  with assms(2) show ?thesis by simp
qed

lemma number_files_Inr:
  assumes "map_result (number_file n) (enumerate 0 fs) = Inr gs"
  shows "gs = map (\<lambda>(i, f). f\<lparr>in_id := of_nat i\<rparr>) (enumerate 0 fs) \<and> length fs \<le> 2 ^ 32"
proof -
  have len: "length gs = length fs" using map_result_length [OF assms] by simp
  have nth: "gs ! i = (fs ! i)\<lparr>in_id := of_nat i\<rparr> \<and> i < 2 ^ 32" if "i < length fs" for i
    using map_result_nth [OF assms, of i] that by (auto simp: number_file_def result_iff nth_enumerate_eq)
  then have "length fs \<le> 2 ^ 32" by (meson not_le_imp_less order_less_irrefl)
  moreover have "gs = map (\<lambda>(i, f). f\<lparr>in_id := of_nat i\<rparr>) (enumerate 0 fs)"
    by (rule nth_equalityI) (use len nth in \<open>auto simp: nth_enumerate_eq\<close>)
  ultimately show ?thesis by simp
qed

lemma key_ignores_id: "engine_path_key (f\<lparr>in_id := i\<rparr>) = engine_path_key f"
  by (simp add: engine_path_key_def)

lemma collect_files_ok:
  assumes "collect_files h fs root output_file = Some (Inr files)"
  shows "\<forall>f \<in> set files. collected fs f"
    and "sorted (map engine_path_key files)"
    and "map in_id files = map of_nat [0..<length files]" and "length files \<le> 2 ^ 32"
proof -
  let ?visit = "writer_visit h fs root (canonicalize h output_file)"
  from assms obtain found where w: "walk ?visit [root] [] = Some (Inr found)"
    and n: "map_result (number_file (length found)) (enumerate 0 (sort_key engine_path_key found)) = Inr files"
    by (auto simp: collect_files_def result_iff Let_def split: sum.splits)
  from walk_finds [OF w] have found: "\<forall>f \<in> set found. collected fs f"
    by (auto simp: found_below_def dest: writer_visit_collects)
  note files = number_files_Inr [OF n]
  have keys: "map engine_path_key files = map engine_path_key (sort_key engine_path_key found)"
    using files by (intro nth_equalityI) (auto simp: nth_enumerate_eq key_ignores_id)
  then show "sorted (map engine_path_key files)" by simp
  show "map in_id files = map of_nat [0..<length files]"
    using files by (intro nth_equalityI) (auto simp: nth_enumerate_eq)
  show "length files \<le> 2 ^ 32" using files by simp
  show "\<forall>f \<in> set files. collected fs f"
  proof
    fix f assume "f \<in> set files"
    then obtain i where "i < length files" "f = files ! i" by (auto simp: in_set_conv_nth)
    with files have i: "i < length (sort_key engine_path_key found)"
      and f: "f = (sort_key engine_path_key found ! i)\<lparr>in_id := of_nat i\<rparr>"
      by (auto simp: nth_enumerate_eq)
    from nth_mem [OF i] found have "collected fs (sort_key engine_path_key found ! i)" by simp
    then show "collected fs f" by (simp add: f collected_def)
  qed
qed

section \<open>Packing\<close>

text \<open>
  \<open>File::create\<close> empties the output file before the payloads are read; its parent directories are
  created, which a map from paths to contents does not show.
\<close>

definition pack_files_with_profile ::
  "target option \<Rightarrow> (path \<rightharpoonup> bytes) \<Rightarrow> path \<Rightarrow> cpk_input_file list \<Rightarrow> cpk_writer_options \<Rightarrow>
   cpk_writer_profile \<Rightarrow> (cpk_write_report \<times> (path \<rightharpoonup> bytes)) result" where
  "pack_files_with_profile p5r fs output_file files options profile =
     and_then (write_with_profile p5r (fs(output_file \<mapsto> [])) \<lparr>contents = [], position = 0\<rparr> files options profile)
       (\<lambda>(report, out). Inr (report, fs(output_file \<mapsto> contents out)))"

definition pack_files ::
  "target option \<Rightarrow> (path \<rightharpoonup> bytes) \<Rightarrow> path \<Rightarrow> cpk_input_file list \<Rightarrow> cpk_writer_options \<Rightarrow>
   (cpk_write_report \<times> (path \<rightharpoonup> bytes)) result" where
  "pack_files p5r fs output_file files options =
     pack_files_with_profile p5r fs output_file files options default_profile"

definition pack_directory ::
  "host \<Rightarrow> target option \<Rightarrow> (path \<rightharpoonup> bytes) \<Rightarrow> path \<Rightarrow> path \<Rightarrow> cpk_writer_options \<Rightarrow>
   (cpk_write_report \<times> (path \<rightharpoonup> bytes)) result option" where
  "pack_directory h p5r fs input_directory output_file options =
     (case validate_alignment (alignment options) of
        Inl e \<Rightarrow> Some (Inl e)
      | Inr _ \<Rightarrow>
          map_option (\<lambda>collected_files. and_then collected_files (\<lambda>files.
            if files = [] then Inl (writer_error EmptyInput)
            else pack_files p5r fs output_file files options))
          (collect_files h fs input_directory output_file))"

lemma pack_directory_Inr:
  assumes "pack_directory h p5r fs root output_file options = Some (Inr (report, fs'))"
  obtains files out where "collect_files h fs root output_file = Some (Inr files)"
    and "write_with_profile p5r (fs(output_file \<mapsto> [])) \<lparr>contents = [], position = 0\<rparr> files options
      default_profile = Inr (report, out)"
    and "fs' = fs(output_file \<mapsto> contents out)"
  using assms
  by (auto simp: pack_directory_def pack_files_def pack_files_with_profile_def result_iff
      split: sum.splits if_splits)

text \<open>The walk of the packer returns on every directory tree.\<close>

lemma writer_visit_ranked:
  assumes "\<And>d entries n ty. read_dir h d = Inr entries \<Longrightarrow> (n, ty) \<in> set entries \<Longrightarrow> ty = Type_dir \<Longrightarrow>
    rank (path_push d n) < rank d"
  shows "ranked (writer_visit h fs root out) rank"
  unfolding ranked_def
proof (intro allI impI)
  fix d dirs found assume v: "writer_visit h fs root out d = Inr (dirs, found)"
  then obtain entries where e: "read_dir h d = Inr entries"
    and f: "fold_result (writer_entry h fs root out d) ([], []) entries = Inr (dirs, found)"
    by (auto simp: writer_visit_def result_iff)
  have "\<forall>s \<in> set (fst (dirs, found)). rank s < rank d"
  proof (rule fold_result_invariant [OF f, where P = "\<lambda>_ acc. \<forall>s \<in> set (fst acc). rank s < rank d"])
    fix ys y zs u v'
    assume "entries = ys @ y # zs" and IH: "\<forall>s \<in> set (fst u). rank s < rank d"
      and step: "writer_entry h fs root out d u y = Inr v'"
    then have y: "y \<in> set entries" by simp
    obtain n ty where ny: "y = (n, ty)" by (cases y)
    obtain ds fs' where u: "u = (ds, fs')" by (cases u)
    from step have "fst v' = ds \<or> ty = Type_dir \<and> fst v' = ds @ [path_push d n]"
      unfolding writer_entry_def ny u Let_def by (auto simp: result_iff split: if_splits option.splits)
    with IH assms [OF e y [unfolded ny]] u show "\<forall>s \<in> set (fst v'). rank s < rank d" by auto
  qed simp
  then show "\<forall>s \<in> set dirs. rank s < rank d" by simp
qed

lemma pack_directory_returns:
  fixes rank :: "path \<Rightarrow> nat"
  assumes "\<And>d entries n. read_dir h d = Inr entries \<Longrightarrow> (n, Type_dir) \<in> set entries \<Longrightarrow>
    rank (path_push d n) < rank d"
  shows "\<exists>r. pack_directory h p5r fs root output_file options = Some r"
proof -
  have "ranked (writer_visit h fs root (canonicalize h output_file)) rank"
    by (rule writer_visit_ranked) (use assms in blast)
  from walk_returns [OF this, of "[root]" "[]"] show ?thesis
    by (auto simp: pack_directory_def collect_files_def split: sum.splits)
qed

end
