(* ===== verification/Manifest_Inputs.thy ===== *)
theory Manifest_Inputs
  imports Directory_Walk
begin

text \<open>
  \<open>Manifest::build_inputs\<close> of \<open>manifest.rs\<close>: the files a rebuild packs.  The entries of the manifest
  come first, in its order, with the ID, directory, name and user string they had; an entry whose
  content is unchanged may reuse its packed bytes from the original archive.  Files that are new in
  the directory follow in the order of their paths and get IDs nobody uses.  The sets of the source
  are lists here, asked for membership only.

  \<open>build_inputs_Inr\<close> says which inputs come out and in which order, \<open>build_inputs_distinct\<close> that
  their IDs are distinct; the root theory states both as one contract.
\<close>

section \<open>Entries of the manifest\<close>

definition raw_payload_of :: "manifest \<Rightarrow> manifest_entry \<Rightarrow> bool \<Rightarrow> cpk_raw_payload option" where
  "raw_payload_of m e reuse =
     (if reuse then Some \<lparr>archive_path = mf_source_archive m, raw_absolute_offset = me_packed_offset e,
                          raw_size = me_packed_size e\<rparr>
      else None)"

definition known_input ::
  "(nat \<Rightarrow> nat) \<Rightarrow> manifest \<Rightarrow> (path \<rightharpoonup> bytes) \<Rightarrow> bool \<Rightarrow> manifest_entry \<Rightarrow> path \<Rightarrow> cpk_input_file cli_result" where
  "known_input avail m fs reuse e source =
     and_then (hash_file avail source fs) (\<lambda>(current_size, current_hash).
     and_then (u32_or TooLargeForCpk current_size) (\<lambda>current_size_u32.
     let unchanged = (current_size = me_extracted_size e \<and> current_hash = me_extracted_hash e);
         raw = raw_payload_of m e (reuse \<and> unchanged)
     in
     and_then (if raw \<noteq> None then u32_or ExtractedSizeTooLarge (me_extracted_size e)
               else Inr current_size_u32) (\<lambda>extract_size.
       Inr \<lparr>in_directory = me_directory e, in_file_name = me_file_name e, source_path = source,
            in_size = (case raw of Some r \<Rightarrow> raw_size r | None \<Rightarrow> current_size_u32),
            in_extract_size = extract_size, in_id = me_id e, in_user_string = me_user_string e,
            raw_payload = raw\<rparr>)))"

record gathered =
  g_files :: "cpk_input_file list"
  g_known_paths :: "path list"
  g_used_ids :: "u32 list"

definition gather_entry ::
  "(nat \<Rightarrow> nat) \<Rightarrow> manifest \<Rightarrow> (path \<rightharpoonup> bytes) \<Rightarrow> path \<Rightarrow> bool \<Rightarrow> gathered \<Rightarrow> manifest_entry \<Rightarrow> gathered cli_result" where
  "gather_entry avail m fs root reuse g e =
     and_then (safe_relative_path (me_directory e) (me_file_name e)) (\<lambda>relative.
     let g = g\<lparr>g_known_paths := relative # g_known_paths g\<rparr>; source = path_push root relative in
     if source \<notin> dom fs then Inr g
     else and_then (known_input avail m fs reuse e source) (\<lambda>f.
       Inr (g\<lparr>g_files := g_files g @ [f], g_used_ids := me_id e # g_used_ids g\<rparr>)))"

section \<open>New files\<close>

definition new_paths :: "path list \<Rightarrow> path list \<Rightarrow> path list" where
  "new_paths known found =
     sort_key path_components (filter (\<lambda>r. \<not> (\<exists>k \<in> set known. same_components k r)) found)"

text \<open>IDs: the free ones below \<open>0x10000\<close> in order when there is an ID table, otherwise the next
  unused one after the largest.\<close>

record id_source =
  ids_used :: "u32 list"
  ids_free :: "u32 list"
  ids_next :: u32

definition all_itoc_ids :: "u32 list" where
  "all_itoc_ids = map of_nat [0..<0x10000]"

definition start_ids :: "bool \<Rightarrow> u32 list \<Rightarrow> id_source cli_result" where
  "start_ids itoc taken =
     and_then (if taken \<noteq> [] \<and> \<not> itoc
               then ok_or (invalid_data NoFreeIds) (checked_add (Max (set taken)) 1)
               else Inr (if taken = [] then 0 else Max (set taken))) (\<lambda>next_id.
       Inr \<lparr>ids_used = taken,
            ids_free = (if itoc then filter (\<lambda>i. i \<notin> set taken) all_itoc_ids else []),
            ids_next = next_id\<rparr>)"

function skip_used :: "u32 list \<Rightarrow> u32 \<Rightarrow> u32 cli_result" where
  "skip_used taken n =
     (if n \<in> set taken then
        (if n = - 1 then Inl (invalid_data NoFreeIds) else skip_used taken (n + 1))
      else Inr n)"
  by pat_completeness auto
termination
proof (relation "measure (\<lambda>(taken, n). 2 ^ 32 - unat n)")
  fix taken :: "u32 list" and n :: u32
  assume "n \<noteq> - 1"
  then have "n + 1 \<noteq> 0" by (metis add_eq_0_iff2)
  then have "unat (n + 1) = Suc (unat n)" by (simp add: unatSuc add.commute)
  with unat_lt2p [of n] show "((taken, n + 1), (taken, n)) \<in> measure (\<lambda>(taken, n). 2 ^ 32 - unat n)"
    by simp
qed simp

declare skip_used.simps [simp del]

definition fresh_id :: "bool \<Rightarrow> id_source \<Rightarrow> (u32 \<times> id_source) cli_result" where
  "fresh_id itoc s =
     (if itoc then
        (case ids_free s of [] \<Rightarrow> Inl (invalid_data NoFreeItocIds)
         | i # rest \<Rightarrow> Inr (i, s\<lparr>ids_free := rest, ids_used := i # ids_used s\<rparr>))
      else
        and_then (skip_used (ids_used s) (ids_next s)) (\<lambda>n.
          Inr (n, s\<lparr>ids_next := (if n \<noteq> - 1 then n + 1 else n), ids_used := n # ids_used s\<rparr>)))"

definition new_input ::
  "(path \<rightharpoonup> bytes) \<Rightarrow> path \<Rightarrow> path \<Rightarrow> u32 \<Rightarrow> cpk_input_file cli_result" where
  "new_input fs root relative i =
     (let source = path_push root relative in
      and_then (ok_or (Lib (Io NotFound)) (fs source)) (\<lambda>bs.
      and_then (u32_or TooLargeForCpk (of_nat (length bs))) (\<lambda>n.
      and_then (case path_file_name relative of
                  Some v \<Rightarrow> if utf8_valid v then Inr v else Inl (invalid_data NonUtf8InputPath)
                | None \<Rightarrow> Inl (invalid_data NonUtf8InputPath)) (\<lambda>file_name.
      and_then (case path_parent relative of
                  Some parent \<Rightarrow> if parent = [] then Inr [] else manifest_path_to_cri_string parent
                | None \<Rightarrow> Inr []) (\<lambda>directory.
        Inr \<lparr>in_directory = directory, in_file_name = file_name, source_path = source, in_size = n,
             in_extract_size = n, in_id = i, in_user_string = [], raw_payload = None\<rparr>)))))"

fun add_new ::
  "bool \<Rightarrow> (path \<rightharpoonup> bytes) \<Rightarrow> path \<Rightarrow> id_source \<Rightarrow> path list \<Rightarrow> cpk_input_file list cli_result" where
  "add_new itoc fs root s [] = Inr []"
| "add_new itoc fs root s (relative # rest) =
     and_then (fresh_id itoc s) (\<lambda>(i, s).
     and_then (new_input fs root relative i) (\<lambda>f.
     and_then (add_new itoc fs root s rest) (\<lambda>files. Inr (f # files))))"

definition build_inputs ::
  "(nat \<Rightarrow> nat) \<Rightarrow> host \<Rightarrow> manifest \<Rightarrow> (path \<rightharpoonup> bytes) \<Rightarrow> path \<Rightarrow> path \<Rightarrow> bool \<Rightarrow>
   cpk_input_file list cli_result option" where
  "build_inputs avail h m fs root output_archive reuse =
     (case and_then (if reuse then source_is_original avail m fs else Inr True) (\<lambda>original.
           if \<not> original then Inl (invalid_data OriginalRequired)
           else fold_result (gather_entry avail m fs root reuse)
             \<lparr>g_files = [], g_known_paths = [], g_used_ids = []\<rparr> (mf_entries m)) of
        Inl e \<Rightarrow> Some (Inl e)
      | Inr g \<Rightarrow>
          map_option (\<lambda>walked. and_then walked (\<lambda>found.
            and_then (start_ids (mf_has_itoc m) (g_used_ids g)) (\<lambda>s.
            and_then (add_new (mf_has_itoc m) fs root s (new_paths (g_known_paths g) found)) (\<lambda>files.
              Inr (g_files g @ files)))))
          (collect_relative_files h root output_archive))"

section \<open>Fresh IDs\<close>

lemma skip_used_fresh: "skip_used taken n = Inr i \<Longrightarrow> i \<notin> set taken"
proof (induction taken n rule: skip_used.induct)
  case (1 taken n)
  from "1.prems" show ?case
    by (subst (asm) skip_used.simps) (auto split: if_splits dest: "1.IH")
qed

definition ids_ok :: "bool \<Rightarrow> id_source \<Rightarrow> bool" where
  "ids_ok itoc s \<longleftrightarrow>
     (itoc \<longrightarrow> distinct (ids_free s) \<and> set (ids_free s) \<inter> set (ids_used s) = {} \<and>
        set (ids_free s) \<subseteq> set all_itoc_ids)"

lemma start_ids_ok: "start_ids itoc taken = Inr s \<Longrightarrow> ids_ok itoc s \<and> ids_used s = taken"
proof -
  assume "start_ids itoc taken = Inr s"
  moreover have "distinct all_itoc_ids"
  proof -
    have "inj_on (of_nat :: nat \<Rightarrow> u32) {0..<0x10000}"
    proof (rule inj_onI)
      fix x y :: nat assume "x \<in> {0..<0x10000}" "y \<in> {0..<0x10000}" and eq: "(of_nat x :: u32) = of_nat y"
      then have "x < 2 ^ LENGTH(32)" "y < 2 ^ LENGTH(32)" by simp_all
      with arg_cong [OF eq, of unat] show "x = y" by (simp only: unat_of_nat_fits)
    qed
    then show ?thesis by (simp add: all_itoc_ids_def distinct_map)
  qed
  ultimately show ?thesis by (auto simp: start_ids_def ids_ok_def result_iff)
qed

lemma fresh_id_ok:
  assumes "fresh_id itoc s = Inr (i, s')" and "ids_ok itoc s"
  shows "i \<notin> set (ids_used s) \<and> ids_used s' = i # ids_used s \<and> ids_ok itoc s' \<and>
    (itoc \<longrightarrow> i \<in> set all_itoc_ids)"
  using assms by (auto simp: fresh_id_def ids_ok_def result_iff split: list.splits if_splits dest: skip_used_fresh)

lemma add_new_ids:
  assumes "add_new itoc fs root s rs = Inr files" and "ids_ok itoc s"
  shows "distinct (map in_id files) \<and> set (map in_id files) \<inter> set (ids_used s) = {} \<and>
    (itoc \<longrightarrow> set (map in_id files) \<subseteq> set all_itoc_ids)"
  using assms
proof (induction rs arbitrary: s files)
  case (Cons r rs)
  from Cons.prems(1) obtain i s' f fs' where i: "fresh_id itoc s = Inr (i, s')" and f: "new_input fs root r i = Inr f"
    and rest: "add_new itoc fs root s' rs = Inr fs'" and files: "files = f # fs'"
    by (auto simp: result_iff)
  note ok = fresh_id_ok [OF i Cons.prems(2)]
  have "in_id f = i" using f by (auto simp: new_input_def Let_def result_iff split: option.splits if_splits)
  with Cons.IH [OF rest] ok files show ?case by auto
qed simp

section \<open>The contract\<close>

text \<open>What the entries of the manifest contribute.\<close>

definition keeps_identity :: "manifest_entry \<Rightarrow> cpk_input_file \<Rightarrow> bool" where
  "keeps_identity e f \<longleftrightarrow>
     in_id f = me_id e \<and> in_directory f = me_directory e \<and> in_file_name f = me_file_name e \<and>
     in_user_string f = me_user_string e"

definition is_present :: "(path \<rightharpoonup> bytes) \<Rightarrow> path \<Rightarrow> manifest_entry \<Rightarrow> bool" where
  "is_present fs root e \<longleftrightarrow>
     (\<exists>r. safe_relative_path (me_directory e) (me_file_name e) = Inr r \<and> path_push root r \<in> dom fs)"

lemma known_input_Inr:
  assumes "known_input avail m fs reuse e source = Inr f"
  shows "keeps_identity e f" and "source_path f = source"
    and "raw_payload f \<noteq> None \<longrightarrow> reuse \<and> (\<exists>bs. fs source = Some bs \<and>
      of_nat (length bs) = me_extracted_size e \<and> hash_bytes bs = me_extracted_hash e)"
    and "raw_payload f = None \<longrightarrow> (\<exists>bs. fs source = Some bs \<and> in_size f = in_extract_size f \<and>
      (length bs < 2 ^ 64 \<longrightarrow> length bs = unat (in_size f)))"
proof -
  from assms obtain n h n32 ex where hf: "hash_file avail source fs = Inr (n, h)"
    and n32: "u32_or TooLargeForCpk n = Inr n32"
    and ex: "(if raw_payload_of m e (reuse \<and> n = me_extracted_size e \<and> h = me_extracted_hash e) \<noteq> None
        then u32_or ExtractedSizeTooLarge (me_extracted_size e) else Inr n32) = Inr ex"
    and f: "f = \<lparr>in_directory = me_directory e, in_file_name = me_file_name e, source_path = source,
            in_size = (case raw_payload_of m e (reuse \<and> n = me_extracted_size e \<and> h = me_extracted_hash e)
              of Some r \<Rightarrow> raw_size r | None \<Rightarrow> n32),
            in_extract_size = ex, in_id = me_id e, in_user_string = me_user_string e,
            raw_payload = raw_payload_of m e (reuse \<and> n = me_extracted_size e \<and> h = me_extracted_hash e)\<rparr>"
    by (auto simp: known_input_def Let_def result_iff)
  from hf obtain bs where bs: "fs source = Some bs" "n = of_nat (length bs)" "h = hash_bytes bs"
    by (auto simp: hash_file_eq split: option.splits)
  show "keeps_identity e f" "source_path f = source" by (simp_all add: f keeps_identity_def)
  show "raw_payload f \<noteq> None \<longrightarrow> reuse \<and> (\<exists>bs. fs source = Some bs \<and>
      of_nat (length bs) = me_extracted_size e \<and> hash_bytes bs = me_extracted_hash e)"
    using bs by (auto simp: f raw_payload_of_def split: if_splits)
  have "length bs = unat n32" if "length bs < 2 ^ 64"
    using that n32 bs(2) by (simp add: u32_or_def result_iff unat_ucast_le unat_of_nat_fits)
  then show "raw_payload f = None \<longrightarrow> (\<exists>bs. fs source = Some bs \<and> in_size f = in_extract_size f \<and>
      (length bs < 2 ^ 64 \<longrightarrow> length bs = unat (in_size f)))"
    using ex bs(1) by (auto simp: f raw_payload_of_def split: if_splits)
qed

lemma gather_entries_Inr:
  assumes "fold_result (gather_entry avail m fs root reuse) \<lparr>g_files = [], g_known_paths = [], g_used_ids = []\<rparr> es = Inr g"
  shows "list_all2 keeps_identity (filter (is_present fs root) es) (g_files g) \<and>
    set (g_used_ids g) = set (map in_id (g_files g)) \<and>
    (\<forall>f \<in> set (g_files g). raw_payload f \<noteq> None \<longrightarrow> reuse)"
proof (rule fold_result_invariant [OF assms, where P = "\<lambda>es g.
    list_all2 keeps_identity (filter (is_present fs root) es) (g_files g) \<and>
    set (g_used_ids g) = set (map in_id (g_files g)) \<and>
    (\<forall>f \<in> set (g_files g). raw_payload f \<noteq> None \<longrightarrow> reuse)"])
  fix ys y zs u v
  assume IH: "list_all2 keeps_identity (filter (is_present fs root) ys) (g_files u) \<and>
      set (g_used_ids u) = set (map in_id (g_files u)) \<and> (\<forall>f \<in> set (g_files u). raw_payload f \<noteq> None \<longrightarrow> reuse)"
    and step: "gather_entry avail m fs root reuse u y = Inr v"
  from step obtain r where r: "safe_relative_path (me_directory y) (me_file_name y) = Inr r"
    by (auto simp: gather_entry_def result_iff)
  show "list_all2 keeps_identity (filter (is_present fs root) (ys @ [y])) (g_files v) \<and>
      set (g_used_ids v) = set (map in_id (g_files v)) \<and> (\<forall>f \<in> set (g_files v). raw_payload f \<noteq> None \<longrightarrow> reuse)"
  proof (cases "path_push root r \<in> dom fs")
    case False
    then have "\<not> is_present fs root y" using r by (auto simp: is_present_def)
    with step r False IH show ?thesis by (auto simp: gather_entry_def Let_def)
  next
    case True
    then have p: "is_present fs root y" using r by (auto simp: is_present_def)
    from step r True obtain f where f: "known_input avail m fs reuse y (path_push root r) = Inr f"
      and v: "v = u\<lparr>g_known_paths := r # g_known_paths u, g_files := g_files u @ [f], g_used_ids := me_id y # g_used_ids u\<rparr>"
      by (auto simp: gather_entry_def Let_def result_iff)
    from known_input_Inr [OF f] IH p v show ?thesis
      by (auto simp: keeps_identity_def intro!: list_all2_appendI)
  qed
qed simp

lemma build_inputs_Inr:
  assumes "build_inputs avail h m fs root out reuse = Some (Inr files)"
  obtains known new where "files = known @ new"
    and "list_all2 keeps_identity (filter (is_present fs root) (mf_entries m)) known"
    and "distinct (map in_id new)" and "set (map in_id new) \<inter> set (map in_id known) = {}"
    and "mf_has_itoc m \<Longrightarrow> set (map in_id new) \<subseteq> set all_itoc_ids"
    and "\<forall>f \<in> set known. raw_payload f \<noteq> None \<longrightarrow> reuse"
    and "reuse \<Longrightarrow> source_is_original avail m fs = Inr True"
proof -
  from assms obtain g found s new where
    orig: "(if reuse then source_is_original avail m fs else Inr True) = Inr True"
    and g: "fold_result (gather_entry avail m fs root reuse) \<lparr>g_files = [], g_known_paths = [], g_used_ids = []\<rparr>
      (mf_entries m) = Inr g"
    and s: "start_ids (mf_has_itoc m) (g_used_ids g) = Inr s"
    and new: "add_new (mf_has_itoc m) fs root s (new_paths (g_known_paths g) found) = Inr new"
    and files: "files = g_files g @ new"
    by (auto simp: build_inputs_def result_iff split: sum.splits if_splits)
  note G = gather_entries_Inr [OF g]
  note S = start_ids_ok [OF s]
  from add_new_ids [OF new] S G that [OF files] orig show thesis by (auto split: if_splits)
qed

lemma build_inputs_distinct:
  assumes "build_inputs avail h m fs root out reuse = Some (Inr files)"
    and "distinct (map me_id (mf_entries m))"
  shows "distinct (map in_id files)"
proof -
  from build_inputs_Inr [OF assms(1)] obtain known new where files: "files = known @ new"
    and known: "list_all2 keeps_identity (filter (is_present fs root) (mf_entries m)) known"
    and new: "distinct (map in_id new)" "set (map in_id new) \<inter> set (map in_id known) = {}" by blast
  from known have "map in_id known = map me_id (filter (is_present fs root) (mf_entries m))"
    by (intro nth_equalityI) (auto simp: list_all2_conv_all_nth keeps_identity_def)
  with assms(2) have "distinct (map in_id known)" by (simp add: distinct_map_filter)
  with files new show ?thesis by auto
qed

end
