(* ===== verification/Archive_Layout.thy ===== *)
theory Archive_Layout
  imports Cpk_Writer
begin

text \<open>
  What the writer writes.  As long as the output starts empty, every write of \<open>emit_archive\<close> is at
  its end: the metadata area is \<open>metadata_bytes\<close>, and afterwards every payload is found at the
  offset planned for it (\<open>emit_archive_stored\<close>).  \<open>plan_archive_ok\<close> states what a successful plan
  guarantees: chunks and payloads in order, disjoint, aligned and without wrap-around.
\<close>

section \<open>Appending\<close>

definition at_end :: "stream \<Rightarrow> bool" where
  "at_end out \<longleftrightarrow> position out = length (contents out)"

definition append_to :: "stream \<Rightarrow> bytes \<Rightarrow> stream" where
  "append_to out bs = out\<lparr>contents := contents out @ bs, position := length (contents out) + length bs\<rparr>"

lemma contents_append_to [simp]: "contents (append_to out bs) = contents out @ bs"
  by (simp add: append_to_def)

lemma at_end_append_to [simp]: "at_end (append_to out bs)"
  by (simp add: append_to_def at_end_def)

lemma append_to_append_to [simp]: "append_to (append_to out xs) ys = append_to out (xs @ ys)"
  by (simp add: append_to_def)

lemma append_to_Nil [simp]: "at_end out \<Longrightarrow> append_to out [] = out"
  by (cases out) (simp add: append_to_def at_end_def)

lemma write_all_append: "at_end out \<Longrightarrow> write_all bs out = append_to out bs"
  by (simp add: at_end_def append_to_def write_all_at_end)

lemma write_zeros_append: "at_end out \<Longrightarrow> write_zeros n out = append_to out (replicate (unat n) 0)"
proof (induction n out rule: write_zeros.induct)
  case (1 n out)
  show ?case
  proof (cases "n = 0")
    case True
    with 1 show ?thesis by (subst write_zeros.simps) simp
  next
    case False
    let ?w = "min (unat n) 0x2000"
    have w: "unat (of_nat ?w :: u64) = ?w" using unat_lt2p [of n] by (simp add: unat_of_nat_fits)
    then have d: "unat (n - of_nat ?w) = unat n - ?w"
      by (subst unat_sub_le) (simp_all add: word_le_nat_alt)
    have "write_zeros n out = write_zeros (n - of_nat ?w) (append_to out (replicate ?w 0))"
      using False by (subst write_zeros.simps) (simp add: Let_def write_all_append [OF "1.prems"])
    also have "\<dots> = append_to out (replicate ?w 0 @ replicate (unat n - ?w) 0)"
      using "1.IH" [OF False refl] d by (simp add: write_all_append [OF "1.prems"])
    also have "replicate ?w (0 :: u8) @ replicate (unat n - ?w) 0 = replicate (unat n) 0"
      by (simp flip: replicate_add)
    finally show ?thesis .
  qed
qed

definition pad_to :: "nat \<Rightarrow> bytes \<Rightarrow> bytes" where
  "pad_to n bs = bs @ replicate (n - length bs) 0"

lemma length_pad_to [simp]: "length (pad_to n bs) = max n (length bs)"
  by (simp add: pad_to_def)

lemma fill_to_append:
  assumes "at_end out" and "length (contents out) < 2 ^ 64"
  shows "fill_to off out = append_to out (replicate (unat off - length (contents out)) 0)"
proof -
  let ?n = "length (contents out)"
  have u: "unat (of_nat ?n :: u64) = ?n" using assms(2) by (simp add: unat_of_nat_fits)
  show ?thesis
  proof (cases "(of_nat ?n :: u64) < off")
    case True
    then have "unat (off - of_nat ?n) = unat off - ?n" by (subst unat_sub_le) (simp_all add: u)
    with True assms(1) show ?thesis by (simp add: fill_to_def Let_def at_end_def write_zeros_append)
  next
    case False
    then have "unat off \<le> ?n" by (simp add: word_less_nat_alt u)
    with False assms(1) show ?thesis by (simp add: fill_to_def Let_def at_end_def)
  qed
qed

lemma write_at_append:
  assumes "at_end out" and "length (contents out) < 2 ^ 64" and "length (contents out) \<le> unat off"
  shows "write_at off bs out = append_to out (replicate (unat off - length (contents out)) 0 @ bs)"
proof -
  let ?cur = "of_nat (position out) :: u64"
  have "unat ?cur = length (contents out)" using assms(1,2) by (simp add: at_end_def unat_of_nat_fits)
  then have le: "\<not> ?cur > off" using assms(3) by (simp add: word_less_nat_alt)
  then have "(if ?cur < off then write_zeros (off - ?cur) out
      else if ?cur > off then seek_start (unat off) out else out) = fill_to off out"
    by (simp add: fill_to_def Let_def)
  then show ?thesis
    using fill_to_append [OF assms(1,2), of off] by (simp add: write_at_def Let_def write_all_append)
qed

section \<open>The metadata area\<close>

definition chunk_placed :: "u64 \<Rightarrow> bytes option \<Rightarrow> bytes \<Rightarrow> bytes" where
  "chunk_placed off c bs = (case c of None \<Rightarrow> bs | Some c \<Rightarrow> pad_to (unat off) bs @ c)"

definition chunk_fits :: "u64 \<Rightarrow> bytes option \<Rightarrow> nat \<Rightarrow> bool" where
  "chunk_fits off c n \<longleftrightarrow> (case c of None \<Rightarrow> True | Some c \<Rightarrow> n \<le> unat off)"

definition chunk_end :: "u64 \<Rightarrow> bytes option \<Rightarrow> nat \<Rightarrow> nat" where
  "chunk_end off c n = (case c of None \<Rightarrow> n | Some c \<Rightarrow> unat off + length c)"

definition header_area :: "cpk_layout \<Rightarrow> bytes" where
  "header_area lo = pad_to 0x7fa (lo_header_chunk lo) @ ascii ''(c)CRI''"

definition metadata_bytes :: "cpk_layout \<Rightarrow> bytes" where
  "metadata_bytes lo =
     pad_to (unat (lo_content_offset lo))
       (chunk_placed (lo_itoc_offset lo) (lo_itoc_chunk lo)
         (chunk_placed (lo_toc_offset lo) (lo_toc_chunk lo) (header_area lo)))"

definition layout_ordered :: "cpk_layout \<Rightarrow> bool" where
  "layout_ordered lo \<longleftrightarrow>
     length (lo_header_chunk lo) \<le> 0x7fa \<and>
     chunk_fits (lo_toc_offset lo) (lo_toc_chunk lo) 0x800 \<and>
     chunk_fits (lo_itoc_offset lo) (lo_itoc_chunk lo)
       (chunk_end (lo_toc_offset lo) (lo_toc_chunk lo) 0x800) \<and>
     chunk_end (lo_itoc_offset lo) (lo_itoc_chunk lo)
       (chunk_end (lo_toc_offset lo) (lo_toc_chunk lo) 0x800) \<le> unat (lo_content_offset lo)"

lemma chunk_end_ge: "chunk_fits off c n \<Longrightarrow> n \<le> chunk_end off c n"
  by (auto simp: chunk_fits_def chunk_end_def split: option.splits)

lemma length_chunk_placed:
  "chunk_fits off c (length bs) \<Longrightarrow> length (chunk_placed off c bs) = chunk_end off c (length bs)"
  by (auto simp: chunk_fits_def chunk_placed_def chunk_end_def split: option.splits)

lemma write_optional_append:
  assumes "at_end out" and "contents out = bs" and "chunk_fits off c (length bs)" and "length bs < 2 ^ 64"
  shows "\<exists>ys. write_optional off c out = append_to out ys \<and> chunk_placed off c bs = bs @ ys"
  using assms
  by (auto simp: write_optional_def chunk_fits_def chunk_placed_def pad_to_def write_at_append
      split: option.splits intro: append_to_Nil [symmetric])

lemma length_header_area: "length (lo_header_chunk lo) \<le> 0x7fa \<Longrightarrow> length (header_area lo) = 0x800"
  by (simp add: header_area_def)

lemma length_metadata_bytes: "layout_ordered lo \<Longrightarrow> length (metadata_bytes lo) = unat (lo_content_offset lo)"
  by (simp add: layout_ordered_def metadata_bytes_def length_chunk_placed length_header_area)

lemma write_metadata_bytes:
  assumes lo: "layout_ordered lo" and empty: "contents out = []"
  shows "\<exists>out'. write_metadata lo out = Inr out' \<and> at_end out' \<and> contents out' = metadata_bytes lo"
proof -
  let ?h = "lo_header_chunk lo"
  have hl: "length ?h \<le> 0x7fa" using lo by (simp add: layout_ordered_def)
  let ?o0 = "seek_start 0 out"
  have e0: "at_end ?o0" using empty by (simp add: at_end_def)
  have u: "unat (of_nat (length ?h) :: u64) = length ?h" using hl by (simp add: unat_of_nat_fits)
  have pad: "checked_sub COPYRIGHT_MARKER_OFFSET (of_nat (length ?h)) =
      Some (COPYRIGHT_MARKER_OFFSET - of_nat (length ?h))"
    and padn: "unat (COPYRIGHT_MARKER_OFFSET - of_nat (length ?h)) = 0x7fa - length ?h"
    using hl u by (simp_all add: checked_sub_def COPYRIGHT_MARKER_OFFSET_def ENGINE_INDEX_BASE_def
        word_le_nat_alt unat_sub_le)
  let ?a = "append_to ?o0 (header_area lo)"
  have area: "write_all (ascii ''(c)CRI'')
      (write_zeros (COPYRIGHT_MARKER_OFFSET - of_nat (length ?h)) (write_all ?h ?o0)) = ?a"
    using e0 hl by (simp add: write_all_append write_zeros_append padn header_area_def pad_to_def)
  have ca: "contents ?a = header_area lo" using empty by simp
  note al = length_header_area [OF hl]
  have f1: "chunk_fits (lo_toc_offset lo) (lo_toc_chunk lo) (length (header_area lo))"
    and f2: "chunk_fits (lo_itoc_offset lo) (lo_itoc_chunk lo)
      (length (chunk_placed (lo_toc_offset lo) (lo_toc_chunk lo) (header_area lo)))"
    using lo by (simp_all add: layout_ordered_def al length_chunk_placed)
  let ?t = "chunk_placed (lo_toc_offset lo) (lo_toc_chunk lo) (header_area lo)"
  let ?i = "chunk_placed (lo_itoc_offset lo) (lo_itoc_chunk lo) ?t"
  have it: "length ?i \<le> unat (lo_content_offset lo)" "length ?t \<le> length ?i"
    using lo f2 chunk_end_ge [OF f2] by (simp_all add: layout_ordered_def al length_chunk_placed f1)
  then have small: "length ?i < 2 ^ 64" "length ?t < 2 ^ 64"
    using unat_lt2p [of "lo_content_offset lo"] by simp_all
  from write_optional_append [OF _ ca f1] obtain ys where
    ys: "write_optional (lo_toc_offset lo) (lo_toc_chunk lo) ?a = append_to ?a ys" "?t = header_area lo @ ys"
    by (auto simp: al)
  then have ct: "contents (append_to ?a ys) = ?t" using empty by simp
  from write_optional_append [OF _ ct f2 small(2)] obtain zs where
    zs: "write_optional (lo_itoc_offset lo) (lo_itoc_chunk lo) (append_to ?a ys) = append_to (append_to ?a ys) zs"
      "?i = ?t @ zs" by auto
  then have ci: "contents (append_to (append_to ?a ys) zs) = ?i" using ct by simp
  have fin: "fill_to (lo_content_offset lo) (append_to (append_to ?a ys) zs) =
      append_to (append_to (append_to ?a ys) zs) (replicate (unat (lo_content_offset lo) - length ?i) 0)"
    using fill_to_append [of "append_to (append_to ?a ys) zs" "lo_content_offset lo"] small(1)
    by (simp only: ci at_end_append_to)
  have "write_metadata lo out = Inr (append_to (append_to (append_to ?a ys) zs)
      (replicate (unat (lo_content_offset lo) - length ?i) 0))"
    by (simp only: write_metadata_def Let_def pad ok_or_simps and_then_simps area ys(1) zs(1) fin)
  moreover have "contents (append_to (append_to (append_to ?a ys) zs)
      (replicate (unat (lo_content_offset lo) - length ?i) 0)) = metadata_bytes lo"
    by (simp only: contents_append_to [of "append_to (append_to ?a ys) zs"] ci metadata_bytes_def pad_to_def)
  ultimately show ?thesis by (metis at_end_append_to)
qed

section \<open>Payloads\<close>

text \<open>The packed bytes of an entry, and where they are found in a buffer.\<close>

definition p5r_apply :: "target \<Rightarrow> bytes \<Rightarrow> bytes" where
  "p5r_apply t data = (if length data < 0x820 \<or> scalar_only t then data else p5r_transform data)"

definition packed_payload :: "target option \<Rightarrow> (path \<rightharpoonup> bytes) \<Rightarrow> bool \<Rightarrow> cpk_input_file \<Rightarrow> bytes option" where
  "packed_payload p5r fs encrypt file =
     (case raw_payload file of
        Some raw \<Rightarrow>
          map_option (slice (unat (raw_absolute_offset raw)) (unat (raw_size raw))) (fs (archive_path raw))
      | None \<Rightarrow>
          if encrypt \<and> in_user_string file = CRI_CFATTR_ENCRYPT
          then Option.bind p5r (\<lambda>t. map_option (p5r_apply t) (fs (source_path file)))
          else fs (source_path file))"

definition stored_at :: "nat \<Rightarrow> bytes \<Rightarrow> bytes \<Rightarrow> bool" where
  "stored_at off bs cs \<longleftrightarrow> off + length bs \<le> length cs \<and> slice off (length bs) cs = bs"

text \<open>Files are smaller than \<open>2 ^ 64\<close> bytes, as a file length is a \<open>u64\<close>.\<close>

definition files_sane :: "(path \<rightharpoonup> bytes) \<Rightarrow> bool" where
  "files_sane fs \<longleftrightarrow> (\<forall>p bs. fs p = Some bs \<longrightarrow> length bs < 2 ^ 64)"

lemma stored_at_append: "stored_at off bs cs \<Longrightarrow> stored_at off bs (cs @ ds)"
  by (auto simp: stored_at_def slice_def)

lemma stored_at_end: "length cs = off \<Longrightarrow> stored_at off bs (cs @ bs)"
  by (simp add: stored_at_def slice_def)

lemma length_p5r_apply [simp]: "length (p5r_apply t data) = length data"
  by (simp add: p5r_apply_def)

lemma files_saneD: "files_sane fs \<Longrightarrow> fs p = Some bs \<Longrightarrow> length bs < 2 ^ 64"
  by (auto simp: files_sane_def)

lemma packed_payload_small:
  "files_sane fs \<Longrightarrow> packed_payload p5r fs encrypt file = Some bs \<Longrightarrow> length bs < 2 ^ 64"
  by (auto simp: packed_payload_def bind_eq_Some_conv split: option.splits if_splits
      dest!: files_saneD)

lemma write_file_payload_Inr:
  assumes "write_file_payload p5r fs file encrypt out = Inr (n, out')" and "at_end out"
  obtains bs where "packed_payload p5r fs encrypt file = Some bs" "out' = append_to out bs"
    "n = of_nat (length bs)"
proof (cases "raw_payload file")
  case (Some raw)
  with assms that show thesis
    by (auto simp: write_file_payload_def write_raw_payload_def packed_payload_def open_file_def
        result_iff write_all_append Let_def split: if_splits)
next
  case None
  with assms that show thesis
    by (auto simp: write_file_payload_def write_encrypted_payload_def packed_payload_def open_file_def
        result_iff write_all_append P5R_decrypt_eq p5r_apply_def split: if_splits option.splits)
qed

lemma write_payload_Inr:
  assumes step: "write_payload p5r fs files encrypt offsets out index = Inr out'"
    and out: "at_end out" "length (contents out) < 2 ^ 64" and sane: "files_sane fs"
  obtains bs ys where "packed_payload p5r fs encrypt (files ! index) = Some bs"
    "length bs = unat (in_size (files ! index))" "out' = append_to out (ys @ bs)"
    "length (contents out @ ys) = unat (offsets ! index)"
proof -
  let ?off = "offsets ! index"
  let ?pad = "replicate (unat ?off - length (contents out)) (0 :: u8)"
  have fill: "fill_to ?off out = append_to out ?pad" by (rule fill_to_append [OF out])
  from step obtain n where le: "\<not> (of_nat (position out) :: u64) > ?off"
    and w: "write_file_payload p5r fs (files ! index) encrypt (append_to out ?pad) = Inr (n, out')"
    and n: "n = ucast (in_size (files ! index))"
    by (auto simp: write_payload_def Let_def result_iff fill split: if_splits)
  from write_file_payload_Inr [OF w at_end_append_to] obtain bs where
    bs: "packed_payload p5r fs encrypt (files ! index) = Some bs" "out' = append_to out (?pad @ bs)"
      "n = of_nat (length bs)" by auto
  have "unat (of_nat (length bs) :: u64) = length bs"
    using packed_payload_small [OF sane bs(1)] by (simp add: unat_of_nat_fits)
  then have len: "length bs = unat (in_size (files ! index))"
    using n bs(3) by (simp add: unat_ucast_wide)
  have "unat (of_nat (position out) :: u64) = length (contents out)"
    using out by (simp add: at_end_def unat_of_nat_fits)
  then have "length (contents out @ ?pad) = unat ?off" using le by (simp add: word_less_nat_alt not_less)
  then show thesis using that [OF bs(1) len bs(2)] by simp
qed

lemma payload_loop_stored:
  assumes loop: "fold_result (write_payload p5r fs files encrypt offsets) out order = Inr out'"
    and out: "at_end out" "length (contents out) < 2 ^ 64" and sane: "files_sane fs"
    and fits: "\<forall>i \<in> set order. unat (offsets ! i) + unat (in_size (files ! i)) < 2 ^ 64"
  shows "at_end out' \<and> length (contents out') < 2 ^ 64 \<and> (\<exists>ys. contents out' = contents out @ ys) \<and>
    (\<forall>i \<in> set order. \<exists>bs. packed_payload p5r fs encrypt (files ! i) = Some bs \<and>
       length bs = unat (in_size (files ! i)) \<and> stored_at (unat (offsets ! i)) bs (contents out'))"
  using loop
proof (rule fold_result_invariant)
  show "at_end out \<and> length (contents out) < 2 ^ 64 \<and> (\<exists>ys. contents out = contents out @ ys) \<and>
    (\<forall>i \<in> set []. \<exists>bs. packed_payload p5r fs encrypt (files ! i) = Some bs \<and>
       length bs = unat (in_size (files ! i)) \<and> stored_at (unat (offsets ! i)) bs (contents out))"
    using out by simp
next
  fix done' i rest u v
  assume order: "order = done' @ i # rest"
    and IH: "at_end u \<and> length (contents u) < 2 ^ 64 \<and> (\<exists>ys. contents u = contents out @ ys) \<and>
    (\<forall>i \<in> set done'. \<exists>bs. packed_payload p5r fs encrypt (files ! i) = Some bs \<and>
       length bs = unat (in_size (files ! i)) \<and> stored_at (unat (offsets ! i)) bs (contents u))"
    and step: "write_payload p5r fs files encrypt offsets u i = Inr v"
  from IH have u: "at_end u" "length (contents u) < 2 ^ 64" by simp_all
  from write_payload_Inr [OF step u sane] obtain bs ys where
    bs: "packed_payload p5r fs encrypt (files ! i) = Some bs" "length bs = unat (in_size (files ! i))"
    and v: "v = append_to u (ys @ bs)" and at: "length (contents u @ ys) = unat (offsets ! i)" by blast
  have cv: "contents v = (contents u @ ys) @ bs" by (simp add: v)
  have "at_end v" "length (contents v) < 2 ^ 64" using fits bs(2) at order by (simp_all add: v)
  moreover have "\<exists>ys. contents v = contents out @ ys" using IH by (auto simp: v)
  moreover have "stored_at (unat (offsets ! i)) bs (contents v)"
    unfolding cv by (rule stored_at_end [OF at])
  then have "\<exists>bs. packed_payload p5r fs encrypt (files ! i) = Some bs \<and>
      length bs = unat (in_size (files ! i)) \<and> stored_at (unat (offsets ! i)) bs (contents v)"
    using bs by blast
  moreover have "stored_at k xs (contents v)" if "stored_at k xs (contents u)" for k xs
    using stored_at_append [OF that, of "ys @ bs"] by (simp add: v)
  then have "\<forall>j \<in> set done'. \<exists>bs. packed_payload p5r fs encrypt (files ! j) = Some bs \<and>
      length bs = unat (in_size (files ! j)) \<and> stored_at (unat (offsets ! j)) bs (contents v)"
    using IH by blast
  ultimately show "at_end v \<and> length (contents v) < 2 ^ 64 \<and> (\<exists>ys. contents v = contents out @ ys) \<and>
    (\<forall>i \<in> set (done' @ [i]). \<exists>bs. packed_payload p5r fs encrypt (files ! i) = Some bs \<and>
       length bs = unat (in_size (files ! i)) \<and> stored_at (unat (offsets ! i)) bs (contents v))"
    unfolding set_append list.set Un_insert_right sup_bot_right ball_simps by blast
qed

lemma emit_archive_stored:
  assumes emit: "emit_archive p5r fs files encrypt lo out = Inr out'"
    and lo: "layout_ordered lo" and empty: "contents out = []" and sane: "files_sane fs"
    and fits: "\<forall>i \<in> set (lo_order lo). unat (lo_offsets lo ! i) + unat (in_size (files ! i)) < 2 ^ 64"
  shows "length (contents out') < 2 ^ 64 \<and> (\<exists>ys. contents out' = metadata_bytes lo @ ys) \<and>
    (\<forall>i \<in> set (lo_order lo). \<exists>bs. packed_payload p5r fs encrypt (files ! i) = Some bs \<and>
       length bs = unat (in_size (files ! i)) \<and> stored_at (unat (lo_offsets lo ! i)) bs (contents out'))"
proof -
  from write_metadata_bytes [OF lo empty] obtain m where
    m: "write_metadata lo out = Inr m" "at_end m" "contents m = metadata_bytes lo" by blast
  from emit obtain p where
    p: "fold_result (write_payload p5r fs files encrypt (lo_offsets lo)) m (lo_order lo) = Inr p"
    and out': "out' = fill_to (lo_archive_size lo) p"
    by (auto simp: emit_archive_def m(1) result_iff)
  have "length (contents m) < 2 ^ 64"
    using length_metadata_bytes [OF lo] unat_lt2p [of "lo_content_offset lo"] by (simp add: m(3))
  from payload_loop_stored [OF p m(2) this sane fits] have
    P: "at_end p" "length (contents p) < 2 ^ 64" "\<exists>ys. contents p = metadata_bytes lo @ ys"
      "\<forall>i \<in> set (lo_order lo). \<exists>bs. packed_payload p5r fs encrypt (files ! i) = Some bs \<and>
       length bs = unat (in_size (files ! i)) \<and> stored_at (unat (lo_offsets lo ! i)) bs (contents p)"
    by (simp_all add: m(3))
  have "length (contents out') < 2 ^ 64"
    using fill_to_append [OF P(1,2), of "lo_archive_size lo"] P(2) unat_lt2p [of "lo_archive_size lo"] by (simp add: out')
  from fill_to_append [OF P(1,2)] obtain zs where "contents out' = contents p @ zs"
    by (simp add: out')
  moreover from P(3) obtain ys where "contents p = metadata_bytes lo @ ys" by blast
  ultimately have "\<exists>ys. contents out' = metadata_bytes lo @ ys" by simp
  moreover have "stored_at k xs (contents out')" if "stored_at k xs (contents p)" for k xs
    using stored_at_append [OF that, of zs] \<open>contents out' = contents p @ zs\<close> by simp
  ultimately show ?thesis using P(4) \<open>length (contents out') < 2 ^ 64\<close> by blast
qed

section \<open>What a plan guarantees\<close>

lemma plan_archive_Inr:
  assumes "plan_archive files options profile = Inr lo"
  defines "a \<equiv> ucast (alignment options) :: u64" and "mode \<equiv> index_mode profile"
  shows "\<exists>toc_probe itoc_table cursor1 cursor2 content_size toc_table header_table.
    validate_alignment (alignment options) = Inr () \<and> files \<noteq> [] \<and>
    try_from_nat (length files) = Some (lo_file_count lo) \<and>
    build_physical_order files profile = Inr (lo_order lo) \<and>
    place_index a toc_probe ENGINE_INDEX_BASE = Inr (lo_toc_offset lo, cursor1) \<and>
    place_index a itoc_table cursor1 = Inr (lo_itoc_offset lo, cursor2) \<and>
    align_up cursor2 a = Inr (lo_content_offset lo) \<and>
    \<not> (has_itoc mode \<and> lo_content_offset lo > ucast (- 1 :: u32)) \<and>
    fold_result (place_payload files a) (replicate (length files) 0, lo_content_offset lo) (lo_order lo) =
       Inr (lo_offsets lo, lo_archive_size lo) \<and>
    (if has_toc mode
      then and_then (relative_offsets (lo_offsets lo)) (\<lambda>offs. result_map Some (build_toc_table files offs))
      else Inr None) = Inr toc_table \<and>
    optional_table (has_itoc mode) (build_itoc_table files (lo_order lo) (direct_itoc profile)) = Inr itoc_table \<and>
    map_option length toc_probe = map_option length toc_table \<and>
    lo_toc_chunk lo = map_option (build_chunk Toc) toc_table \<and>
    lo_itoc_chunk lo = map_option (build_chunk Itoc) itoc_table \<and>
    build_header_table (lo_archive_size lo) (lo_content_offset lo) content_size (lo_toc_offset lo)
       (chunk_len (lo_toc_chunk lo)) (lo_itoc_offset lo) (chunk_len (lo_itoc_chunk lo))
       (alignment options) (lo_file_count lo) profile = Inr header_table \<and>
    lo_header_chunk lo = build_chunk Cpk header_table \<and>
    length (lo_header_chunk lo) \<le> unat COPYRIGHT_MARKER_OFFSET"
  using assms(1) unfolding plan_archive_def Let_def a_def [symmetric] mode_def [symmetric]
  apply (simp only: and_then_Inr if_Inr ok_or_Inr split_paired_Ex prod.case unit_all_eq1)
  apply (elim exE conjE)
  apply (simp only: sum.inject not_less de_Morgan_disj not_not)
  apply (elim conjE)
  apply hypsubst
  apply (simp only: cpk_layout.simps)
  apply (intro exI conjI)
  apply (assumption | rule refl TrueI | rule notI, assumption | rule unit_eq)+
  done


lemma place_index_Inr:
  assumes a: "unat a = 2 ^ m" "m < 16" and pl: "place_index a probe c = Inr (off, c')"
    and len: "map_option length probe = map_option length table"
    and kind: "length (chunk_magic kind) = 4"
  defines "chunk \<equiv> map_option (build_chunk kind) table"
  shows "chunk_fits off chunk (unat c) \<and> chunk_end off chunk (unat c) \<le> unat c' \<and> unat c \<le> unat c' \<and>
    (table = None \<and> off = 0 \<or> table \<noteq> None \<and> off = c)"
proof (cases probe)
  case None
  with pl len show ?thesis by (auto simp: place_index_def chunk_def chunk_fits_def chunk_end_def)
next
  case (Some p)
  with len obtain t where t: "table = Some t" "length t = length p" by (cases table) auto
  from Some pl obtain n e where n: "chunk_size p = Inr n" and e: "checked_add c n = Some e"
    and al: "align_up e a = Inr c'" and off: "off = c"
    by (auto simp: place_index_def result_iff)
  from n have "unat n = 16 + length p"
    by (auto simp: chunk_size_def result_iff CPK_CHUNK_HEADER_SIZE_def unat_of_nat_fits unat_add_fits)
  moreover from e have "unat e = unat c + unat n" by (auto simp: result_iff unat_add_fits)
  moreover from align_up_Inr [OF a al] have "unat c' = round_up (unat a) (unat e)" by simp
  then have "unat e \<le> unat c'" using round_up_ge [of "unat e" "unat a"] by simp
  ultimately show ?thesis
    using t off kind by (simp add: chunk_def chunk_fits_def chunk_end_def build_chunk_def)
qed

lemma chunk_end_mono: "n \<le> n' \<Longrightarrow> chunk_end off c n \<le> chunk_end off c n'"
  by (simp add: chunk_end_def split: option.split)

lemma chunk_fits_mono: "chunk_fits off c n' \<Longrightarrow> n \<le> n' \<Longrightarrow> chunk_fits off c n"
  by (simp add: chunk_fits_def split: option.splits)

text \<open>The physical order: every file once; by ID, without repetition, when there is an ID table.\<close>

lemma check_ids_Inr:
  "check_ids used fs = Inr u \<Longrightarrow>
   distinct (map in_id fs) \<and> in_id ` set fs \<inter> used = {} \<and> (\<forall>f \<in> set fs. in_id f \<le> ucast (- 1 :: u16))"
  by (induction used fs rule: check_ids.induct) (auto split: if_splits)

lemma build_physical_order_Inr:
  assumes "build_physical_order files profile = Inr order"
  shows "distinct order \<and> set order = {..<length files} \<and> length order = length files \<and>
    (has_itoc (index_mode profile) \<longrightarrow>
       sorted (map (\<lambda>i. in_id (files ! i)) order) \<and> distinct (map in_id files) \<and>
       (\<forall>f \<in> set files. in_id f \<le> ucast (- 1 :: u16)))"
proof (cases "has_itoc (index_mode profile)")
  case False
  with assms show ?thesis by (auto simp: build_physical_order_def)
next
  case True
  with assms obtain u where c: "check_ids {} files = Inr u"
    and o: "order = sort_key (\<lambda>index. in_id (files ! index)) [0..<length files]"
    by (auto simp: build_physical_order_def result_iff)
  from check_ids_Inr [OF c] show ?thesis by (auto simp: o)
qed

text \<open>The offset of the payload at place \<open>k\<close> of the physical order.\<close>

definition packed_size :: "nat \<Rightarrow> cpk_input_file list \<Rightarrow> nat \<Rightarrow> nat" where
  "packed_size a files i = round_up a (unat (in_size (files ! i)))"

definition physical_offset :: "nat \<Rightarrow> nat \<Rightarrow> cpk_input_file list \<Rightarrow> nat list \<Rightarrow> nat \<Rightarrow> nat" where
  "physical_offset a c files order k = c + sum_list (map (packed_size a files) (take k order))"

lemma place_payload_Inr:
  assumes a: "unat a = 2 ^ m" "m < 16" and step: "place_payload files a (offs, cur) i = Inr (offs', cur')"
    and dvd: "unat a dvd unat cur"
  shows "offs' = offs[i := cur]" "unat cur' = unat cur + packed_size (unat a) files i"
    "unat cur + unat (in_size (files ! i)) < 2 ^ 64"
proof -
  from step obtain e where offs: "offs' = offs[i := cur]"
    and e: "checked_add cur (ucast (in_size (files ! i))) = Some e" and al: "align_up e a = Inr cur'"
    by (auto simp: place_payload_def Let_def result_iff)
  from e have f: "unat cur + unat (in_size (files ! i)) < 2 ^ 64"
    and ue: "unat e = unat cur + unat (in_size (files ! i))"
    by (auto simp: result_iff unat_add_fits unat_ucast_wide)
  from align_up_Inr [OF a al] have "unat cur' = round_up (unat a) (unat cur + unat (in_size (files ! i)))"
    by (simp add: ue)
  also have "\<dots> = unat cur + packed_size (unat a) files i"
    using round_up_add [OF dvd] by (simp add: packed_size_def)
  finally show "offs' = offs[i := cur]" "unat cur' = unat cur + packed_size (unat a) files i"
    "unat cur + unat (in_size (files ! i)) < 2 ^ 64"
    using offs f by simp_all
qed


lemma place_payloads_Inr:
  assumes a: "unat a = 2 ^ m" "m < 16"
    and loop: "fold_result (place_payload files a) (replicate (length files) 0, c) order = Inr (offs, end_off)"
    and dvd: "unat a dvd unat c" and order: "distinct order" "set order \<subseteq> {..<length files}"
  shows "length offs = length files \<and>
    unat end_off = physical_offset (unat a) (unat c) files order (length order) \<and>
    (\<forall>k < length order. unat (offs ! (order ! k)) = physical_offset (unat a) (unat c) files order k \<and>
       unat (offs ! (order ! k)) + unat (in_size (files ! (order ! k))) < 2 ^ 64)"
proof -
  let ?P = "\<lambda>ys st. length (fst st) = length files \<and>
    unat (snd st) = physical_offset (unat a) (unat c) files ys (length ys) \<and>
    (\<forall>k < length ys. unat (fst st ! (ys ! k)) = physical_offset (unat a) (unat c) files ys k \<and>
       unat (fst st ! (ys ! k)) + unat (in_size (files ! (ys ! k))) < 2 ^ 64)"
  have sizes: "unat a dvd sum_list (map (packed_size (unat a) files) ys)" for ys
  proof (induction ys)
    case (Cons y ys)
    have "unat a dvd packed_size (unat a) files y"
      unfolding packed_size_def using a(1) by (intro round_up_dvd) simp
    with Cons show ?case by simp
  qed simp
  have "?P order (offs, end_off)"
    using loop
  proof (rule fold_result_invariant)
    show "?P [] (replicate (length files) 0, c)" by (simp add: physical_offset_def)
  next
    fix ys y zs u v
    assume o: "order = ys @ y # zs" and IH: "?P ys u" and st: "place_payload files a u y = Inr v"
    obtain offs cur offs' cur' where u: "u = (offs, cur)" and v: "v = (offs', cur')"
      by (cases u, cases v) blast
    have "unat a dvd unat cur"
      using IH dvd sizes by (simp add: u physical_offset_def)
    from place_payload_Inr [OF a st [unfolded u v] this] have
      step: "offs' = offs[y := cur]" "unat cur' = unat cur + packed_size (unat a) files y"
        "unat cur + unat (in_size (files ! y)) < 2 ^ 64" by auto
    have y: "y < length offs" "y \<notin> set ys" using IH order by (auto simp: o u)
    have old: "offs' ! (ys ! k) = offs ! (ys ! k)" if "k < length ys" for k
      using that y by (auto simp: step(1) nth_list_update in_set_conv_nth)
    have new: "offs' ! y = cur" using y by (simp add: step(1))
    have "unat (offs' ! ((ys @ [y]) ! k)) = physical_offset (unat a) (unat c) files (ys @ [y]) k \<and>
        unat (offs' ! ((ys @ [y]) ! k)) + unat (in_size (files ! ((ys @ [y]) ! k))) < 2 ^ 64"
      if "k < length (ys @ [y])" for k
    proof (cases "k < length ys")
      case True
      have A: "unat (offs ! (ys ! k)) = physical_offset (unat a) (unat c) files ys k"
        "unat (offs ! (ys ! k)) + unat (in_size (files ! (ys ! k))) < 2 ^ 64"
        using IH True unfolding u fst_conv by blast+
      have "physical_offset (unat a) (unat c) files (ys @ [y]) k = physical_offset (unat a) (unat c) files ys k"
        using True by (simp add: physical_offset_def)
      then show ?thesis using A True by (simp only: nth_append if_True old [OF True] simp_thms)
    next
      case False
      with that have "k = length ys" by simp
      with IH step(3) show ?thesis by (simp add: u new physical_offset_def)
    qed
    moreover have "length offs' = length files" using IH by (simp add: u step(1))
    moreover have "unat cur' = physical_offset (unat a) (unat c) files (ys @ [y]) (length (ys @ [y]))"
      using IH step(2) by (simp add: u physical_offset_def)
    ultimately show "?P (ys @ [y]) v" unfolding v fst_conv snd_conv by blast
  qed
  then show ?thesis unfolding fst_conv snd_conv .
qed

text \<open>Everything a plan guarantees about the places in the archive.\<close>

definition planned :: "cpk_input_file list \<Rightarrow> nat \<Rightarrow> cpk_layout \<Rightarrow> bool" where
  "planned files a lo \<longleftrightarrow>
     layout_ordered lo \<and> a dvd unat (lo_content_offset lo) \<and>
     (lo_toc_chunk lo = None \<and> lo_toc_offset lo = 0 \<or> lo_toc_chunk lo \<noteq> None \<and> lo_toc_offset lo = ENGINE_INDEX_BASE) \<and>
     (lo_itoc_chunk lo = None \<and> lo_itoc_offset lo = 0 \<or>
      lo_itoc_chunk lo \<noteq> None \<and> ENGINE_INDEX_BASE \<le> lo_itoc_offset lo) \<and>
     ENGINE_INDEX_BASE \<le> lo_content_offset lo \<and>
     distinct (lo_order lo) \<and> set (lo_order lo) = {..<length files} \<and>
     length (lo_order lo) = length files \<and> length (lo_offsets lo) = length files \<and>
     unat (lo_archive_size lo) =
       physical_offset a (unat (lo_content_offset lo)) files (lo_order lo) (length files) \<and>
     (\<forall>k < length files.
        unat (lo_offsets lo ! (lo_order lo ! k)) =
          physical_offset a (unat (lo_content_offset lo)) files (lo_order lo) k \<and>
        unat (lo_offsets lo ! (lo_order lo ! k)) + unat (in_size (files ! (lo_order lo ! k))) < 2 ^ 64)"

lemma plan_archive_ok:
  assumes plan: "plan_archive files options profile = Inr lo"
  shows "planned files (unat (alignment options)) lo"
proof -
  let ?a = "ucast (alignment options) :: u64" and ?mode = "index_mode profile"
  from plan_archive_Inr [OF plan] obtain toc_probe itoc_table cursor1 cursor2 content_size toc_table header_table
    where p: "validate_alignment (alignment options) = Inr ()"
      "build_physical_order files profile = Inr (lo_order lo)"
      "place_index ?a toc_probe ENGINE_INDEX_BASE = Inr (lo_toc_offset lo, cursor1)"
      "place_index ?a itoc_table cursor1 = Inr (lo_itoc_offset lo, cursor2)"
      "align_up cursor2 ?a = Inr (lo_content_offset lo)"
      "fold_result (place_payload files ?a) (replicate (length files) 0, lo_content_offset lo) (lo_order lo) =
       Inr (lo_offsets lo, lo_archive_size lo)"
      "map_option length toc_probe = map_option length toc_table"
      "lo_toc_chunk lo = map_option (build_chunk Toc) toc_table"
      "lo_itoc_chunk lo = map_option (build_chunk Itoc) itoc_table"
      "length (lo_header_chunk lo) \<le> unat COPYRIGHT_MARKER_OFFSET"
    by (elim exE conjE, blast)
  have ua: "unat ?a = unat (alignment options)" by (simp add: unat_ucast_wide)
  from validate_alignment_power [OF p(1)] obtain m where m: "unat ?a = 2 ^ m" "m < 16"
    unfolding ua by blast
  have base: "unat ENGINE_INDEX_BASE = 0x800" by (simp add: ENGINE_INDEX_BASE_def)
  have T: "chunk_fits (lo_toc_offset lo) (lo_toc_chunk lo) 0x800"
    "chunk_end (lo_toc_offset lo) (lo_toc_chunk lo) 0x800 \<le> unat cursor1" "0x800 \<le> unat cursor1"
    "lo_toc_chunk lo = None \<and> lo_toc_offset lo = 0 \<or> lo_toc_chunk lo \<noteq> None \<and> lo_toc_offset lo = ENGINE_INDEX_BASE"
    using place_index_Inr [OF m p(3,7), of Toc] by (auto simp: base p(8))
  have I: "chunk_fits (lo_itoc_offset lo) (lo_itoc_chunk lo) (unat cursor1)"
    "chunk_end (lo_itoc_offset lo) (lo_itoc_chunk lo) (unat cursor1) \<le> unat cursor2" "unat cursor1 \<le> unat cursor2"
    "lo_itoc_chunk lo = None \<and> lo_itoc_offset lo = 0 \<or> lo_itoc_chunk lo \<noteq> None \<and> lo_itoc_offset lo = cursor1"
    using place_index_Inr [OF m p(4) refl, of Itoc] by (auto simp: p(9))
  have C: "unat cursor2 \<le> unat (lo_content_offset lo)" "unat ?a dvd unat (lo_content_offset lo)"
    using align_up_Inr [OF m p(5)] round_up_ge [of "unat cursor2" "unat ?a"] by simp_all
  have "layout_ordered lo"
    unfolding layout_ordered_def
  proof (intro conjI)
    show "length (lo_header_chunk lo) \<le> 0x7fa"
      using p(10) by (simp add: COPYRIGHT_MARKER_OFFSET_def ENGINE_INDEX_BASE_def)
    show "chunk_fits (lo_itoc_offset lo) (lo_itoc_chunk lo)
      (chunk_end (lo_toc_offset lo) (lo_toc_chunk lo) 0x800)"
      by (rule chunk_fits_mono [OF I(1) T(2)])
    show "chunk_end (lo_itoc_offset lo) (lo_itoc_chunk lo)
      (chunk_end (lo_toc_offset lo) (lo_toc_chunk lo) 0x800) \<le> unat (lo_content_offset lo)"
      using chunk_end_mono [OF T(2)] I(2) C(1) by (meson order_trans)
  qed (rule T(1))
  moreover note o = build_physical_order_Inr [OF p(2)]
  have "set (lo_order lo) \<subseteq> {..<length files}" "distinct (lo_order lo)" using o by simp_all
  note P = place_payloads_Inr [OF m p(6) C(2) this(2,1), unfolded ua]
  moreover have "ENGINE_INDEX_BASE \<le> lo_content_offset lo" "ENGINE_INDEX_BASE \<le> cursor1"
    using T(3) I(3) C(1) by (simp_all add: word_le_nat_alt base)
  moreover from this(2) I(4)
  have "lo_itoc_chunk lo = None \<and> lo_itoc_offset lo = 0 \<or>
      lo_itoc_chunk lo \<noteq> None \<and> ENGINE_INDEX_BASE \<le> lo_itoc_offset lo" by blast
  moreover have len: "length (lo_order lo) = length files" using o by blast
  ultimately show ?thesis
    using o T(4) C(2) [unfolded ua] unfolding planned_def len by blast
qed

lemma physical_offset_step:
  assumes "k < length order"
  shows "physical_offset a c files order (Suc k) = physical_offset a c files order k + packed_size a files (order ! k)"
  using assms by (simp add: physical_offset_def take_Suc_conv_app_nth)

lemma physical_offset_mono: "k \<le> l \<Longrightarrow> physical_offset a c files order k \<le> physical_offset a c files order l"
proof -
  assume "k \<le> l"
  then have "take l order = take k order @ drop k (take l order)"
    by (metis append_take_drop_id min.absorb1 take_take)
  then have "physical_offset a c files order l =
      physical_offset a c files order k + sum_list (map (packed_size a files) (drop k (take l order)))"
    unfolding physical_offset_def by (metis (no_types) add.assoc map_append sum_list_append)
  then show ?thesis by simp
qed

lemma physical_offset_dvd: "0 < a \<Longrightarrow> a dvd c \<Longrightarrow> a dvd physical_offset a c files order k"
proof -
  assume a: "0 < a" "a dvd c"
  have "a dvd sum_list (map (packed_size a files) ys)" for ys
    by (induction ys) (simp_all add: packed_size_def round_up_dvd a(1))
  with a(2) show ?thesis by (simp add: physical_offset_def)
qed

lemma planned_layout:
  assumes pl: "planned files a lo"
  shows "layout_ordered lo \<and> distinct (lo_order lo) \<and> set (lo_order lo) = {..<length files} \<and>
    (\<forall>k l. k < l \<and> l < length files \<longrightarrow>
       unat (lo_content_offset lo) \<le> unat (lo_offsets lo ! (lo_order lo ! k)) \<and>
       unat (lo_offsets lo ! (lo_order lo ! k)) + unat (in_size (files ! (lo_order lo ! k))) \<le>
         unat (lo_offsets lo ! (lo_order lo ! l)) \<and>
       a dvd unat (lo_offsets lo ! (lo_order lo ! l)))"
proof -
  let ?at = "\<lambda>k. physical_offset a (unat (lo_content_offset lo)) files (lo_order lo) k"
  have off: "unat (lo_offsets lo ! (lo_order lo ! k)) = ?at k" if "k < length files" for k
    using pl that unfolding planned_def by blast
  have len: "length (lo_order lo) = length files" and dvd: "a dvd unat (lo_content_offset lo)"
    and base: "ENGINE_INDEX_BASE \<le> lo_content_offset lo" using pl by (simp_all add: planned_def)
  have "0x800 \<le> unat (lo_content_offset lo)"
    using base by (simp add: word_le_nat_alt ENGINE_INDEX_BASE_def)
  then have a: "0 < a" using dvd by (metis dvd_0_left_iff gr0I not_numeral_le_zero)
  have "unat (lo_content_offset lo) \<le> ?at k \<and> ?at k + unat (in_size (files ! (lo_order lo ! k))) \<le> ?at l \<and> a dvd ?at l"
    if kl: "k < l" "l < length files" for k l
  proof (intro conjI)
    show "unat (lo_content_offset lo) \<le> ?at k" by (simp add: physical_offset_def)
    have "?at k + unat (in_size (files ! (lo_order lo ! k))) \<le> ?at (Suc k)"
      using kl len physical_offset_step [of k "lo_order lo" a "unat (lo_content_offset lo)" files]
        round_up_ge [of "unat (in_size (files ! (lo_order lo ! k)))" a] by (simp add: packed_size_def)
    also have "\<dots> \<le> ?at l" using kl by (intro physical_offset_mono) simp
    finally show "?at k + unat (in_size (files ! (lo_order lo ! k))) \<le> ?at l" .
    show "a dvd ?at l" by (rule physical_offset_dvd [OF a dvd])
  qed
  then have "unat (lo_content_offset lo) \<le> unat (lo_offsets lo ! (lo_order lo ! k)) \<and>
      unat (lo_offsets lo ! (lo_order lo ! k)) + unat (in_size (files ! (lo_order lo ! k))) \<le>
        unat (lo_offsets lo ! (lo_order lo ! l)) \<and>
      a dvd unat (lo_offsets lo ! (lo_order lo ! l))" if "k < l \<and> l < length files" for k l
    using that off [of k] off [of l] by auto
  then show ?thesis using pl unfolding planned_def by blast
qed

end
