(* ===== verification/Archive_Round_Trip.thy ===== *)
theory Archive_Round_Trip
  imports Cpk_Reader Archive_Layout "HOL-Library.Multiset"
begin

text \<open>
  The reader against the writer: what \<open>CpkWriter::write_with_profile\<close> wrote, \<open>CpkReader::get_files\<close>
  lists and \<open>CpkReader::read_packed_file\<close> returns.  The header table, the TOC and the ITOC are read
  back with \<open>build_read_back_shows\<close> (theory \<open>Utf_Builder\<close>); the payloads are at the offsets of
  \<open>Archive_Layout\<close>.
\<close>

section \<open>Numbers and strings of a table that was built\<close>

lemma unat_of_char: "unat (of_char c :: u8) = (of_char c :: nat)"
proof -
  have "(of_char c :: nat) < 256" by (metis of_char_mod_256 mod_less_divisor zero_less_numeral)
  moreover have "(of_char c :: u8) = of_nat (of_char c)" by (simp add: of_nat_of_char)
  ultimately show ?thesis by (simp add: unat_of_nat_fits)
qed

lemma ascii_eq_iff [simp]: "ascii s = ascii t \<longleftrightarrow> s = t"
proof
  assume "ascii s = ascii t"
  then have "map unat (ascii s) = map unat (ascii t)" by (rule arg_cong)
  then have "map (of_char :: char \<Rightarrow> nat) s = map of_char t"
    by (simp add: ascii_def comp_def unat_of_char)
  then show "s = t" using inj_map_eq_map [OF inj_of_char] by blast
qed simp

definition ascii_text :: "string \<Rightarrow> bool" where
  "ascii_text s \<longleftrightarrow> (\<forall>c \<in> set s. 0 < (of_char c :: nat) \<and> (of_char c :: nat) < 128)"

lemma pool_strings_ok_ascii:
  assumes "list_all ascii_text ss"
  shows "pool_strings_ok (map ascii ss)"
proof -
  have "0 \<notin> set (ascii s) \<and> utf8_valid (ascii s)" if "ascii_text s" for s
  proof
    show "0 \<notin> set (ascii s)"
    proof
      assume "0 \<in> set (ascii s)"
      then obtain c where "c \<in> set s" "(of_char c :: u8) = 0" by (auto simp: ascii_def)
      with that show False using unat_of_char [of c] by (auto simp: ascii_text_def)
    qed
    have "b < 0x80" if "b \<in> set (ascii s)" for b
      using that \<open>ascii_text s\<close> by (auto simp: ascii_def ascii_text_def word_less_nat_alt unat_of_char)
    then show "utf8_valid (ascii s)" by (intro utf8_valid_ascii) blast
  qed
  with assms show ?thesis by (auto simp: pool_strings_ok_def list_all_iff)
qed

lemma pool_strings_ok_simps [simp]:
  "pool_strings_ok []"
  "pool_strings_ok (s # ss) \<longleftrightarrow> pool_strings_ok [s] \<and> pool_strings_ok ss"
  "pool_strings_ok (ss @ ts) \<longleftrightarrow> pool_strings_ok ss \<and> pool_strings_ok ts"
  by (auto simp: pool_strings_ok_def)

declare pool_strings_ok_simps(2) [simp del]

lemma checked_add_zero [simp]: "checked_add 0 (w :: 'a::len word) = Some w"
  using unat_lt2p [of w] by (simp add: checked_add_def)

lemma shown_cell:
  assumes "table_shows ht b" and "r < length (tb_rows b)" and "c < length (tb_columns b)"
  shows "\<exists>rv. ht_value ht r c = Some rv \<and> cell_shows ht (tb_rows b ! r ! c) rv"
  using assms unfolding table_shows_def by blast

lemma shown_number:
  assumes "table_shows ht b" and "r < length (tb_rows b)" and "c < length (tb_columns b)"
  shows "tb_rows b ! r ! c = UV_UInt16 w2 \<Longrightarrow> numeric_at ht r c = Some (ucast w2)"
    and "tb_rows b ! r ! c = UV_UInt32 w4 \<Longrightarrow> numeric_at ht r c = Some (ucast w4)"
    and "tb_rows b ! r ! c = UV_UInt64 w8 \<Longrightarrow> numeric_at ht r c = Some w8"
  using shown_cell [OF assms] by (auto simp: numeric_at_def)

lemma shown_string:
  assumes "table_shows ht b" and "r < length (tb_rows b)" and "c < length (tb_columns b)"
    and "tb_rows b ! r ! c = UV_String s"
  shows "string_at ht r c = (if s = [] then None else Some s)"
  using shown_cell [OF assms(1-3)] assms(4) by (auto simp: string_at_def)

lemma shown_data:
  assumes "table_shows ht b" and "r < length (tb_rows b)"
    and "column_index ht name = Some c" and "c < length (tb_columns b)"
    and "tb_rows b ! r ! c = UV_Data d" and "d \<noteq> []"
  shows "data_by_name ht r name = Some d"
proof -
  from shown_cell [OF assms(1,2,4)] assms(5) obtain v where
    v: "ht_value ht r c = Some (RV_Data v)" "unat (dv_length v) = length d" "ht_data ht v = Some d"
    by auto
  then have "dv_length v \<noteq> 0" using assms(6) by auto
  with v assms(3) show ?thesis by (simp add: data_by_name_def value_by_name_def data_value_is_none_def)
qed

lemma u64_by_name_at: "column_index ht name = Some c \<Longrightarrow> u64_by_name ht r name = numeric_at ht r c"
  by (simp add: u64_by_name_def value_by_name_def numeric_at_def)

lemma shown_column:
  "table_shows ht b \<Longrightarrow> column_index ht name = find_position (\<lambda>c. uc_name c = ascii name) (tb_columns b)"
  by (simp add: table_shows_def)

section \<open>A chunk that was written\<close>

lemma table_accepted: "high_table_new sjis t = Inr ht \<Longrightarrow> HEADER_SIZE \<le> length t \<and> starts_with t UTF_MAGIC"
  by (auto simp: high_table_new_def split: if_splits)

lemma build_chunk_layout: "build_chunk kind t = chunk_layout kind 0xff (replicate 3 0xff) t"
  by (simp add: build_chunk_def chunk_layout_def numeral_eq_Suc)

lemma chunk_read_back:
  assumes b: "build b = Inr t" "pool_strings_ok (builder_strings b)" "length t < 2 ^ 32"
    and kind: "\<And>m. kind \<noteq> Unknown m" and area: "header_area_ok kind t"
    and at: "stored_at (position s) (build_chunk kind t) (contents s)"
  shows "\<exists>ht s'. table_container_new s = Inr (\<lparr>tc_kind = kind, tc_table = t\<rparr>, s') \<and>
    contents s' = contents s \<and> high_table_new sjis t = Inr ht \<and> table_shows ht b"
proof -
  from build_read_back_shows [OF b, of sjis] obtain ht where
    ht: "high_table_new sjis t = Inr ht" "table_shows ht b" by blast
  let ?pre = "take (position s) (contents s)" and ?c = "build_chunk kind t"
  have le: "position s + length ?c \<le> length (contents s)" and sl: "slice (position s) (length ?c) (contents s) = ?c"
    using at by (simp_all add: stored_at_def)
  have "contents s = ?pre @ ?c @ drop (position s + length ?c) (contents s)"
    using sl by (metis slice_def append_take_drop_id drop_drop add.commute)
  then have c: "contents s = ?pre @ chunk_layout kind 0xff (replicate 3 0xff) t @
      drop (position s + length ?c) (contents s)" by (simp only: build_chunk_layout)
  from table_accepted [OF ht(1)] have
    "table_container_new s = Inr (\<lparr>tc_kind = kind, tc_table = t\<rparr>,
       s\<lparr>position := length ?pre + CPK_CHUNK_HEADER_SIZE + length t\<rparr>)"
    using b(3) le by (intro table_container_new_stored [OF kind _ _ _ area _ _ c]) simp_all
  with ht show ?thesis by auto
qed

section \<open>The header table\<close>

fun utf_number :: "utf_value \<Rightarrow> u64 option" where
  "utf_number (UV_UInt16 w) = Some (ucast w)"
| "utf_number (UV_UInt32 w) = Some (ucast w)"
| "utf_number (UV_UInt64 w) = Some w"
| "utf_number _ = None"

lemma shown_utf_number:
  assumes "table_shows ht b" and "r < length (tb_rows b)" and "c < length (tb_columns b)"
    and "utf_number (tb_rows b ! r ! c) = Some n"
  shows "numeric_at ht r c = Some n"
  using assms(4) shown_number [OF assms(1-3)] by (cases "tb_rows b ! r ! c") auto

definition column_position :: "string \<Rightarrow> utf_column list \<Rightarrow> nat option" where
  "column_position name cs = find_position (\<lambda>c. uc_name c = ascii name) cs"

lemma column_position_simps [simp]:
  "column_position name [] = None"
  "column_position name (utf_column_new n ty # cs) =
     (if n = name then Some 0 else map_option Suc (column_position name cs))"
  by (simp_all add: column_position_def utf_column_new_def)

lemma column_position_less: "column_position name cs = Some c \<Longrightarrow> c < length cs"
  by (simp add: column_position_def find_position_Some)

lemma get_or_zero_shown:
  assumes "table_shows ht b" and "tb_rows b = [row]"
    and "column_position name (tb_columns b) = Some c" and "utf_number (row ! c) = Some n"
  shows "get_or_zero ht name = n"
  using assms shown_utf_number [OF assms(1), of 0 c n] column_position_less [OF assms(3)]
    shown_column [OF assms(1), of name]
  by (simp add: get_or_zero_def u64_by_name_at column_position_def)

lemma try_from_ucast [simp]:
  "LENGTH('a) \<le> LENGTH('b) \<Longrightarrow> try_from_word (ucast (w :: 'a::len word) :: 'b::len word) = Some w"
  using unat_lt2p [of w] by (simp add: try_from_word_def unat_ucast_wide ucast_up_ucast_id is_up)

lemma try_from_zero [simp]: "try_from_word 0 = Some 0"
  by (simp add: try_from_word_def)

lemma header_metadata:
  assumes "table_shows ht (header_builder archive_size content_offset content_size toc_offset toc_size
      itoc_offset itoc_size align file_count profile)"
  shows "parse_metadata ht =
    \<lparr>md_file_size = archive_size, md_content_offset = content_offset, md_content_size = content_size,
     md_toc_offset = toc_offset, md_toc_size = toc_size, md_itoc_offset = itoc_offset,
     md_itoc_size = itoc_size, md_etoc_offset = 0, md_etoc_size = 0, md_gtoc_offset = 0, md_gtoc_size = 0,
     md_version = version profile, md_revision = revision profile, md_align = align, md_sorted = False,
     md_eid = (if has_itoc (index_mode profile) \<and> direct_itoc profile then 1 else 0),
     md_files = file_count, md_cpk_mode = cpk_mode (index_mode profile),
     md_enable_file_name = has_toc (index_mode profile), md_update_date_time = update_date_time profile,
     md_codec = 0, md_dpk_itoc = 0, md_enable_toc_crc = False, md_enable_file_crc = False\<rparr>"
proof -
  let ?row = "header_row archive_size content_offset content_size toc_offset toc_size
      itoc_offset itoc_size align file_count profile"
  note get = get_or_zero_shown [OF assms, unfolded header_builder_def utf_table_builder_new_def
      utf_table_builder.simps, OF refl]
  have "get_or_zero ht ''FileSize'' = archive_size" "get_or_zero ht ''ContentOffset'' = content_offset"
    "get_or_zero ht ''ContentSize'' = content_size" "get_or_zero ht ''TocOffset'' = toc_offset"
    "get_or_zero ht ''TocSize'' = toc_size" "get_or_zero ht ''EtocOffset'' = 0"
    "get_or_zero ht ''EtocSize'' = 0" "get_or_zero ht ''ItocOffset'' = itoc_offset"
    "get_or_zero ht ''ItocSize'' = itoc_size" "get_or_zero ht ''GtocOffset'' = 0"
    "get_or_zero ht ''GtocSize'' = 0" "get_or_zero ht ''Files'' = ucast file_count"
    by (rule get, simp add: header_columns_def, simp add: header_row_def)+
  moreover have "get_or_zero ht ''Version'' = ucast (version profile)"
    "get_or_zero ht ''Revision'' = ucast (revision profile)" "get_or_zero ht ''Align'' = ucast align"
    "get_or_zero ht ''Sorted'' = ucast (0 :: u16)"
    "get_or_zero ht ''EID'' = ucast (if has_itoc (index_mode profile) \<and> direct_itoc profile then 1 else 0 :: u16)"
    "get_or_zero ht ''EnableFileName'' = ucast (if has_toc (index_mode profile) then 1 else 0 :: u16)"
    "get_or_zero ht ''CpkMode'' = ucast (cpk_mode (index_mode profile))"
    "get_or_zero ht ''UpdateDateTime'' = update_date_time profile"
    "get_or_zero ht ''Codec'' = ucast (0 :: u32)" "get_or_zero ht ''DpkItoc'' = ucast (0 :: u32)"
    "get_or_zero ht ''EnableTocCrc'' = ucast (0 :: u16)" "get_or_zero ht ''EnableFileCrc'' = ucast (0 :: u16)"
    by (rule get, simp add: header_columns_def, simp add: header_row_def)+
  ultimately show ?thesis by (simp only: parse_metadata_def) simp
qed

section \<open>The table of contents\<close>

text \<open>The entry a TOC lists for an input file stored at an absolute offset.\<close>

definition listed_file :: "cpk_input_file \<Rightarrow> u64 \<Rightarrow> cpk_file" where
  "listed_file f offset =
     cpk_file_new (in_directory f) (in_file_name f) (offset - ENGINE_TOC_FILE_BASE) offset (in_size f)
       (in_extract_size f) (Some (in_id f)) (in_user_string f) None"

definition toc_layout :: toc_columns where
  "toc_layout =
     \<lparr>tcol_file_name = 1, tcol_file_size = 2, tcol_file_offset = 4, tcol_dir_name = Some 0,
      tcol_extract_size = Some 3, tcol_id = Some 5, tcol_user_string = Some 6, tcol_file_crc = None\<rparr>"

lemma toc_columns_shown:
  assumes "table_shows ht (toc_builder files offsets)"
  shows "toc_columns_of ht = Inr toc_layout"
proof -
  have "column_index ht name = column_position name toc_table_columns" for name
    using shown_column [OF assms] by (simp add: toc_builder_def utf_table_builder_new_def column_position_def)
  then show ?thesis by (simp add: toc_columns_of_def toc_layout_def toc_table_columns_def)
qed

lemma toc_row_shown:
  assumes sh: "table_shows ht (toc_builder files offsets)" and i: "i < length files"
    and len: "length offsets = length files" and name: "in_file_name (files ! i) \<noteq> []"
    and off: "checked_add ENGINE_TOC_FILE_BASE (offsets ! i) = Some absolute"
  shows "toc_row ht toc_layout i = Inr (listed_file (files ! i) absolute)"
proof -
  let ?f = "files ! i"
  let ?b = "toc_builder files offsets"
  have rows: "i < length (tb_rows ?b)" and row: "tb_rows ?b ! i = toc_table_row (?f, offsets ! i)"
    using i len by (simp_all add: toc_builder_def utf_table_builder_new_def)
  have cols: "length (tb_columns ?b) = 7"
    by (simp add: toc_builder_def utf_table_builder_new_def toc_table_columns_def)
  have cell: "tb_rows ?b ! i ! 0 = UV_String (in_directory ?f)" "tb_rows ?b ! i ! 1 = UV_String (in_file_name ?f)"
    "tb_rows ?b ! i ! 2 = UV_UInt32 (in_size ?f)" "tb_rows ?b ! i ! 3 = UV_UInt32 (in_extract_size ?f)"
    "tb_rows ?b ! i ! 4 = UV_UInt64 (offsets ! i)" "tb_rows ?b ! i ! 5 = UV_UInt32 (in_id ?f)"
    "tb_rows ?b ! i ! 6 = UV_String (in_user_string ?f)"
    by (simp_all add: row toc_table_row_def)
  note S = shown_string [OF sh rows] and N = shown_utf_number [OF sh rows]
  have s: "string_at ht i 0 = (if in_directory ?f = [] then None else Some (in_directory ?f))"
    "string_at ht i 1 = Some (in_file_name ?f)"
    "string_at ht i 6 = (if in_user_string ?f = [] then None else Some (in_user_string ?f))"
    using S [of 0, OF _ cell(1)] S [of 1, OF _ cell(2)] S [of 6, OF _ cell(7)] name cols by simp_all
  have n: "numeric_at ht i 2 = Some (ucast (in_size ?f))" "numeric_at ht i 3 = Some (ucast (in_extract_size ?f))"
    "numeric_at ht i 4 = Some (offsets ! i)" "numeric_at ht i 5 = Some (ucast (in_id ?f))"
    using N [of 2] N [of 3] N [of 4] N [of 5] cell cols by simp_all
  have rel: "absolute - ENGINE_TOC_FILE_BASE = offsets ! i" using off by (auto simp: checked_add_def split: if_splits)
  show ?thesis
    using off by (simp add: toc_row_def toc_layout_def s n [simplified] listed_file_def rel del: One_nat_def)
qed

lemma toc_files_shown:
  assumes sh: "table_shows ht (toc_builder files offsets)" and len: "length offsets = length files"
    and names: "\<forall>f \<in> set files. in_file_name f \<noteq> []" and "length absolutes = length files"
    and off: "\<forall>i < length files. checked_add ENGINE_TOC_FILE_BASE (offsets ! i) = Some (absolutes ! i)"
  shows "toc_files ht = Inr (map2 listed_file files absolutes)"
proof -
  have rows: "length (ht_rows ht) = length files"
    using sh len by (simp add: table_shows_def toc_builder_def utf_table_builder_new_def)
  have "map_result (toc_row ht toc_layout) [0..<length files] =
      Inr (map (\<lambda>i. listed_file (files ! i) (absolutes ! i)) [0..<length files])"
    using toc_row_shown [OF sh _ len] names off by (intro map_result_all_Inr) simp
  moreover have "map (\<lambda>i. listed_file (files ! i) (absolutes ! i)) [0..<length files] = map2 listed_file files absolutes"
    using assms(4) by (intro nth_equalityI) simp_all
  ultimately show ?thesis by (simp add: toc_files_def toc_columns_shown [OF sh] rows)
qed

lemma relative_offsets_Inr:
  assumes "relative_offsets offsets = Inr offs"
  shows "length offs = length offsets \<and>
    (\<forall>i < length offsets. checked_add ENGINE_TOC_FILE_BASE (offs ! i) = Some (offsets ! i))"
proof -
  have len: "length offs = length offsets"
    using assms unfolding relative_offsets_def by (rule map_result_length)
  have "checked_add ENGINE_TOC_FILE_BASE (offs ! i) = Some (offsets ! i)" if i: "i < length offsets" for i
  proof -
    from map_result_nth [OF assms [unfolded relative_offsets_def] i]
    have le: "ENGINE_TOC_FILE_BASE \<le> offsets ! i" and eq: "offs ! i = offsets ! i - ENGINE_TOC_FILE_BASE"
      by (auto simp: result_iff checked_sub_def ENGINE_TOC_FILE_BASE_def ENGINE_INDEX_BASE_def split: if_splits)
    have "unat (offs ! i) = unat (offsets ! i) - unat ENGINE_TOC_FILE_BASE"
      unfolding eq by (rule unat_sub_le [OF le])
    moreover have "unat ENGINE_TOC_FILE_BASE \<le> unat (offsets ! i)" using le by (simp add: word_le_nat_alt)
    ultimately show ?thesis using unat_lt2p [of "offsets ! i"] by (simp add: checked_add_def eq)
  qed
  with len show ?thesis by blast
qed

section \<open>Where the metadata is\<close>

lemma stored_at_pad_to: "stored_at off bs cs \<Longrightarrow> stored_at off bs (pad_to n cs)"
  by (simp add: pad_to_def stored_at_append)

lemma stored_at_chunk_placed: "stored_at off bs cs \<Longrightarrow> stored_at off bs (chunk_placed o' c cs)"
  by (auto simp: chunk_placed_def stored_at_append stored_at_pad_to split: option.split)

lemma stored_at_new_chunk:
  "chunk_fits off (Some c) (length bs) \<Longrightarrow> stored_at (unat off) c (chunk_placed off (Some c) bs)"
  by (simp add: chunk_fits_def chunk_placed_def stored_at_end)

lemma metadata_stored:
  assumes lo: "layout_ordered lo"
  shows "stored_at 0 (lo_header_chunk lo) (metadata_bytes lo)"
    and "lo_toc_chunk lo = Some tc \<Longrightarrow> stored_at (unat (lo_toc_offset lo)) tc (metadata_bytes lo)"
    and "lo_itoc_chunk lo = Some ic \<Longrightarrow> stored_at (unat (lo_itoc_offset lo)) ic (metadata_bytes lo)"
proof -
  have al: "length (header_area lo) = 0x800"
    using lo by (intro length_header_area) (simp add: layout_ordered_def)
  have "stored_at 0 (lo_header_chunk lo) (header_area lo)"
    by (simp add: header_area_def pad_to_def stored_at_def slice_def)
  then show "stored_at 0 (lo_header_chunk lo) (metadata_bytes lo)"
    unfolding metadata_bytes_def by (intro stored_at_pad_to stored_at_chunk_placed)
  show "stored_at (unat (lo_toc_offset lo)) tc (metadata_bytes lo)" if "lo_toc_chunk lo = Some tc"
    unfolding metadata_bytes_def that
    by (intro stored_at_pad_to stored_at_chunk_placed stored_at_new_chunk)
      (use lo that in \<open>simp add: layout_ordered_def al\<close>)
  show "stored_at (unat (lo_itoc_offset lo)) ic (metadata_bytes lo)" if "lo_itoc_chunk lo = Some ic"
    unfolding metadata_bytes_def that
    by (intro stored_at_pad_to stored_at_new_chunk)
      (use lo that in \<open>simp add: layout_ordered_def al length_chunk_placed\<close>)
qed

text \<open>What a successful write leaves in an empty output.\<close>

definition archive_stores ::
  "target option \<Rightarrow> (path \<rightharpoonup> bytes) \<Rightarrow> cpk_input_file list \<Rightarrow> bool \<Rightarrow> cpk_layout \<Rightarrow> bytes \<Rightarrow> bool" where
  "archive_stores p5r fs files encrypt lo archive \<longleftrightarrow>
     stored_at 0 (lo_header_chunk lo) archive \<and>
     (\<forall>tc. lo_toc_chunk lo = Some tc \<longrightarrow> stored_at (unat (lo_toc_offset lo)) tc archive) \<and>
     (\<forall>ic. lo_itoc_chunk lo = Some ic \<longrightarrow> stored_at (unat (lo_itoc_offset lo)) ic archive) \<and>
     (\<forall>i < length files. \<exists>bs. packed_payload p5r fs encrypt (files ! i) = Some bs \<and>
        length bs = unat (in_size (files ! i)) \<and> stored_at (unat (lo_offsets lo ! i)) bs archive)"

lemma write_with_profile_stores:
  assumes w: "write_with_profile p5r fs out files options profile = Inr (report, out')"
    and empty: "contents out = []" and sane: "files_sane fs"
  shows "\<exists>lo. plan_archive files options profile = Inr lo \<and>
    planned files (unat (alignment options)) lo \<and>
    archive_stores p5r fs files (p5r_encryption options) lo (contents out') \<and>
    length (contents out') < 2 ^ 64 \<and>
    report = \<lparr>rep_files = lo_file_count lo, rep_toc_offset = lo_toc_offset lo,
      rep_itoc_offset = lo_itoc_offset lo, rep_content_offset = lo_content_offset lo,
      rep_archive_size = lo_archive_size lo\<rparr>"
proof -
  from w obtain lo where plan: "plan_archive files options profile = Inr lo"
    and emit: "emit_archive p5r fs files (p5r_encryption options) lo out = Inr out'"
    and rep: "report = \<lparr>rep_files = lo_file_count lo, rep_toc_offset = lo_toc_offset lo,
      rep_itoc_offset = lo_itoc_offset lo, rep_content_offset = lo_content_offset lo,
      rep_archive_size = lo_archive_size lo\<rparr>"
    unfolding write_with_profile_def and_then_Inr by auto
  from plan_archive_ok [OF plan] have pl: "planned files (unat (alignment options)) lo" .
  then have lo: "layout_ordered lo" and set: "set (lo_order lo) = {..<length files}"
    and len: "length (lo_order lo) = length files" unfolding planned_def by simp_all
  have fits: "\<forall>i \<in> set (lo_order lo). unat (lo_offsets lo ! i) + unat (in_size (files ! i)) < 2 ^ 64"
    using pl unfolding planned_def by (metis in_set_conv_nth len)
  from emit_archive_stored [OF emit lo empty sane fits] obtain ys where
    ys: "contents out' = metadata_bytes lo @ ys" and small: "length (contents out') < 2 ^ 64"
    and pay: "\<forall>i \<in> set (lo_order lo). \<exists>bs. packed_payload p5r fs (p5r_encryption options) (files ! i) = Some bs \<and>
       length bs = unat (in_size (files ! i)) \<and> stored_at (unat (lo_offsets lo ! i)) bs (contents out')"
    by blast
  have "archive_stores p5r fs files (p5r_encryption options) lo (contents out')"
    unfolding archive_stores_def
  proof (intro conjI allI impI)
    show "stored_at 0 (lo_header_chunk lo) (contents out')"
      unfolding ys by (intro stored_at_append metadata_stored [OF lo])
    show "stored_at (unat (lo_toc_offset lo)) tc (contents out')" if "lo_toc_chunk lo = Some tc" for tc
      unfolding ys by (intro stored_at_append metadata_stored [OF lo] that)
    show "stored_at (unat (lo_itoc_offset lo)) ic (contents out')" if "lo_itoc_chunk lo = Some ic" for ic
      unfolding ys by (intro stored_at_append metadata_stored [OF lo] that)
    show "\<exists>bs. packed_payload p5r fs (p5r_encryption options) (files ! i) = Some bs \<and>
        length bs = unat (in_size (files ! i)) \<and> stored_at (unat (lo_offsets lo ! i)) bs (contents out')"
      if "i < length files" for i
      using pay that by (simp add: set)
  qed
  with plan pl rep small show ?thesis by blast
qed

section \<open>Reading the header back\<close>

definition texts_ok :: "cpk_input_file list \<Rightarrow> cpk_writer_profile \<Rightarrow> bool" where
  "texts_ok files profile \<longleftrightarrow>
     pool_strings_ok [tvers profile, comment profile] \<and>
     (\<forall>f \<in> set files. pool_strings_ok [in_directory f, in_file_name f, in_user_string f] \<and>
        in_file_name f \<noteq> [])"

lemma header_strings:
  assumes "pool_strings_ok [tvers profile, comment profile]"
  shows "pool_strings_ok (builder_strings (header_builder archive_size content_offset content_size
    toc_offset toc_size itoc_offset itoc_size align file_count profile))"
proof -
  let ?names = "''CpkHeader'' # [''UpdateDateTime'', ''FileSize'', ''ContentOffset'', ''ContentSize'',
    ''TocOffset'', ''TocSize'', ''EtocOffset'', ''EtocSize'', ''ItocOffset'', ''ItocSize'', ''GtocOffset'',
    ''GtocSize'', ''Files'', ''Version'', ''Revision'', ''Align'', ''Sorted'', ''EID'', ''EnableFileName'',
    ''CpkMode'', ''Tvers'', ''Comment'', ''Codec'', ''DpkItoc'', ''EnableTocCrc'', ''EnableFileCrc'']"
  have "builder_strings (header_builder archive_size content_offset content_size toc_offset toc_size
      itoc_offset itoc_size align file_count profile) = map ascii ?names @ [tvers profile, comment profile]"
    by (simp add: builder_strings_def header_builder_def utf_table_builder_new_def header_columns_def
        utf_column_new_def header_row_def strings_of_def)
  moreover have "list_all ascii_text ?names" by (simp add: ascii_text_def)
  then have "pool_strings_ok (map ascii ?names)" by (rule pool_strings_ok_ascii)
  ultimately show ?thesis using assms by (simp only: pool_strings_ok_simps(3) simp_thms)
qed

lemma read_header_back:
  assumes plan: "plan_archive files options profile = Inr lo"
    and strs: "pool_strings_ok [tvers profile, comment profile]"
    and hd: "stored_at 0 (lo_header_chunk lo) (contents (rd_stream rd))" and start: "rd_start_pos rd = 0"
  shows "\<exists>md s'. read_header sjis rd = Inr (md, s') \<and> contents s' = contents (rd_stream rd) \<and>
    md_content_offset md = lo_content_offset lo \<and> md_toc_offset md = lo_toc_offset lo \<and>
    md_itoc_offset md = lo_itoc_offset lo \<and> md_align md = alignment options \<and>
    md_file_size md = lo_archive_size lo \<and> md_files md = lo_file_count lo \<and>
    md_eid md = (if has_itoc (index_mode profile) \<and> direct_itoc profile then 1 else 0)"
proof -
  from plan_archive_Inr [OF plan] obtain content_size header_table where
    b: "build_header_table (lo_archive_size lo) (lo_content_offset lo) content_size (lo_toc_offset lo)
       (chunk_len (lo_toc_chunk lo)) (lo_itoc_offset lo) (chunk_len (lo_itoc_chunk lo))
       (alignment options) (lo_file_count lo) profile = Inr header_table"
    and ch: "lo_header_chunk lo = build_chunk Cpk header_table"
    and small: "length (lo_header_chunk lo) \<le> unat COPYRIGHT_MARKER_OFFSET"
    by (elim exE conjE, blast)
  have len: "length header_table + 16 \<le> 0x7fa"
    using small by (simp add: ch build_chunk_def COPYRIGHT_MARKER_OFFSET_def ENGINE_INDEX_BASE_def)
  let ?s = "seek_start (unat (rd_start_pos rd)) (rd_stream rd)"
  have "\<exists>ht s'. table_container_new ?s = Inr (\<lparr>tc_kind = Cpk, tc_table = header_table\<rparr>, s') \<and>
      contents s' = contents ?s \<and> high_table_new sjis header_table = Inr ht \<and>
      table_shows ht (header_builder (lo_archive_size lo) (lo_content_offset lo) content_size (lo_toc_offset lo)
       (chunk_len (lo_toc_chunk lo)) (lo_itoc_offset lo) (chunk_len (lo_itoc_chunk lo))
       (alignment options) (lo_file_count lo) profile)"
    using len hd [unfolded ch] start
    by (intro chunk_read_back [OF b [unfolded build_header_table_def] header_strings [OF strs]])
      (simp_all add: header_area_ok_def CPK_CHUNK_HEADER_SIZE_def)
  then obtain ht s' where t: "table_container_new ?s = Inr (\<lparr>tc_kind = Cpk, tc_table = header_table\<rparr>, s')"
      "contents s' = contents ?s" "high_table_new sjis header_table = Inr ht"
    and sh: "table_shows ht (header_builder (lo_archive_size lo) (lo_content_offset lo) content_size (lo_toc_offset lo)
       (chunk_len (lo_toc_chunk lo)) (lo_itoc_offset lo) (chunk_len (lo_itoc_chunk lo))
       (alignment options) (lo_file_count lo) profile)" by blast
  have "length (ht_rows ht) = 1"
    using sh by (simp add: table_shows_def header_builder_def utf_table_builder_new_def)
  then have "ht_rows ht \<noteq> []" by auto
  with t have "read_header sjis rd = Inr (parse_metadata ht, s')" by (simp add: read_header_def)
  with t(2) show ?thesis by (simp add: header_metadata [OF sh])
qed

section \<open>Archives with a table of contents\<close>

lemma toc_strings:
  assumes "\<forall>f \<in> set files. pool_strings_ok [in_directory f, in_file_name f, in_user_string f]"
    and "length offsets = length files"
  shows "pool_strings_ok (builder_strings (toc_builder files offsets))"
proof -
  let ?names = "[''CpkTocInfo'', ''DirName'', ''FileName'', ''FileSize'', ''ExtractSize'', ''FileOffset'',
    ''ID'', ''UserString'']"
  let ?cells = "strings_of (concat (map toc_table_row (zip files offsets)))"
  have "builder_strings (toc_builder files offsets) = map ascii ?names @ ?cells"
    by (simp add: builder_strings_def toc_builder_def utf_table_builder_new_def toc_table_columns_def
        utf_column_new_def)
  moreover have "list_all ascii_text ?names" by (simp add: ascii_text_def)
  then have "pool_strings_ok (map ascii ?names)" by (rule pool_strings_ok_ascii)
  moreover have "pool_strings_ok ?cells"
    using assms(1)
    by (force simp: strings_of_def pool_strings_ok_def toc_table_row_def dest!: set_zip_leftD)
  ultimately show ?thesis by (simp only: pool_strings_ok_simps(3) simp_thms)
qed

lemma read_toc_back:
  assumes plan: "plan_archive files options profile = Inr lo" and toc: "has_toc (index_mode profile)"
    and small: "unat (lo_content_offset lo) < 2 ^ 32" and strs: "texts_ok files profile"
    and stored: "archive_stores p5r fs files encrypt lo (contents (rd_stream rd))"
    and start: "rd_start_pos rd = 0" and md: "md_toc_offset md = lo_toc_offset lo"
  shows "lo_toc_offset lo \<noteq> 0 \<and> (\<exists>s'. read_toc sjis md rd = Inr (map2 listed_file files (lo_offsets lo), s') \<and>
    contents s' = contents (rd_stream rd))"
proof -
  from plan_archive_Inr [OF plan] toc obtain offs table where
    rel: "relative_offsets (lo_offsets lo) = Inr offs" and b: "build_toc_table files offs = Inr table"
    and ch: "lo_toc_chunk lo = Some (build_chunk Toc table)"
    by (auto simp: result_iff)
  from plan_archive_ok [OF plan] have lo: "layout_ordered lo" and len: "length (lo_offsets lo) = length files"
    and off: "lo_toc_offset lo = ENGINE_INDEX_BASE"
    unfolding planned_def by (auto simp: ch)
  have "length (build_chunk Toc table) \<le> unat (lo_content_offset lo)"
    using lo chunk_end_ge [of "lo_itoc_offset lo" "lo_itoc_chunk lo" "unat (lo_toc_offset lo) + length (build_chunk Toc table)"]
    unfolding layout_ordered_def by (simp add: ch chunk_end_def)
  then have tsize: "length table < 2 ^ 32" using small by (simp add: build_chunk_def)
  note R = relative_offsets_Inr [OF rel]
  have names: "\<forall>f \<in> set files. in_file_name f \<noteq> []"
    and S: "pool_strings_ok (builder_strings (toc_builder files offs))"
    using strs R len by (auto simp: texts_ok_def intro!: toc_strings)
  let ?s = "seek_start (unat (lo_toc_offset lo)) (rd_stream rd)"
  have "\<exists>ht s'. table_container_new ?s = Inr (\<lparr>tc_kind = Toc, tc_table = table\<rparr>, s') \<and>
      contents s' = contents ?s \<and> high_table_new sjis table = Inr ht \<and> table_shows ht (toc_builder files offs)"
    using tsize stored
    by (intro chunk_read_back [OF b [unfolded build_toc_table_def] S])
      (simp_all add: header_area_ok_def archive_stores_def ch)
  then obtain ht s' where t: "table_container_new ?s = Inr (\<lparr>tc_kind = Toc, tc_table = table\<rparr>, s')"
      "contents s' = contents ?s" "high_table_new sjis table = Inr ht"
    and sh: "table_shows ht (toc_builder files offs)" by blast
  have "toc_files ht = Inr (map2 listed_file files (lo_offsets lo))"
    using R len by (intro toc_files_shown [OF sh _ names]) simp_all
  then have "read_toc sjis md rd = Inr (map2 listed_file files (lo_offsets lo), s')"
    using t(1,3) start md by (simp add: read_toc_def)
  moreover have "lo_toc_offset lo \<noteq> 0" by (simp add: off ENGINE_INDEX_BASE_def)
  ultimately show ?thesis using t(2) by simp
qed

text \<open>A payload is read back by any entry that carries its offset and size.\<close>

lemma read_packed_back:
  assumes st: "stored_at (unat (absolute_offset entry)) bs (contents (rd_stream rd))"
    and len: "length bs = unat (file_size entry)" and start: "rd_start_pos rd = 0"
    and md: "rd_metadata rd \<noteq> None"
  shows "\<exists>rd'. read_packed_file rd entry = Inr (bs, rd')"
proof -
  let ?o = "unat (absolute_offset entry)"
  have "read_exact (length bs) (seek_start ?o (rd_stream rd)) =
      Inr (bs, (seek_start ?o (rd_stream rd))\<lparr>position := ?o + length bs\<rparr>)"
    using st by (auto simp: read_exact_def stored_at_def slice_def seek_start_def)
  then show ?thesis
    using start md by (simp add: read_packed_file_def len Let_def)
qed

text \<open>
  An archive reads back when its files are listed by exactly the given entries and every entry's
  packed bytes are the payload of its input.
\<close>

definition archive_reads_back ::
  "(bytes \<Rightarrow> rust_string) \<Rightarrow> bytes \<Rightarrow> target option \<Rightarrow> (path \<rightharpoonup> bytes) \<Rightarrow> bool \<Rightarrow> cpk_input_file list \<Rightarrow> cpk_file list \<Rightarrow> bool" where
  "archive_reads_back sjis archive p5r fs encrypt files entries \<longleftrightarrow>
     (\<forall>slab. let (listed, rd) = get_files sjis (cpk_reader_new slab \<lparr>contents = archive, position = 0\<rparr>)
        in listed = Inr entries \<and> length entries = length files \<and>
           (\<forall>i < length files. \<exists>bs rd'. read_packed_file rd (entries ! i) = Inr (bs, rd') \<and>
              packed_payload p5r fs encrypt (files ! i) = Some bs))"

lemma fields_of_listed_file [simp]:
  "absolute_offset (listed_file f off) = off" "file_size (listed_file f off) = in_size f"
  by (simp_all add: listed_file_def cpk_file_new_def)

lemma get_files_reads:
  assumes hd: "read_header sjis rd = Inr (md, s)" and start: "rd_start_pos rd = 0"
    and listing: "(if md_toc_offset md \<noteq> 0 then read_toc sjis md (rd\<lparr>rd_stream := s, rd_metadata := Some md\<rparr>)
      else if md_itoc_offset md \<noteq> 0 then read_itoc sjis md (rd\<lparr>rd_stream := s, rd_metadata := Some md\<rparr>)
      else Inl (reader_error MissingTocAndItoc)) = Inr (entries, s')"
    and stored: "archive_stores p5r fs files encrypt lo (contents s')"
    and entries: "length entries = length ixs"
      "\<And>k. k < length ixs \<Longrightarrow> ixs ! k < length files \<and> absolute_offset (entries ! k) = lo_offsets lo ! (ixs ! k) \<and>
        file_size (entries ! k) = in_size (files ! (ixs ! k))"
    and fs': "map ((!) files) ixs = fs'"
  shows "let (listed, rd) = get_files sjis rd
    in listed = Inr entries \<and> length entries = length fs' \<and>
       (\<forall>i < length fs'. \<exists>bs rd'. read_packed_file rd (entries ! i) = Inr (bs, rd') \<and>
          packed_payload p5r fs encrypt (fs' ! i) = Some bs)"
proof -
  let ?rd = "rd\<lparr>rd_stream := s', rd_metadata := Some md\<rparr>"
  have get: "get_files sjis rd = (Inr entries, ?rd)"
    by (simp add: get_files_def hd Let_def listing del: if_not_P)
  have "\<exists>bs rd'. read_packed_file ?rd (entries ! i) = Inr (bs, rd') \<and>
      packed_payload p5r fs encrypt (fs' ! i) = Some bs" if i: "i < length fs'" for i
  proof -
    have k: "i < length ixs" using i by (simp flip: fs')
    note e = entries(2) [OF k]
    with stored obtain bs where bs: "packed_payload p5r fs encrypt (files ! (ixs ! i)) = Some bs"
      "length bs = unat (in_size (files ! (ixs ! i)))" "stored_at (unat (lo_offsets lo ! (ixs ! i))) bs (contents s')"
      unfolding archive_stores_def by blast
    have "\<exists>rd'. read_packed_file ?rd (entries ! i) = Inr (bs, rd')"
      using bs e start by (intro read_packed_back) simp_all
    with bs(1) show ?thesis using k by (simp flip: fs')
  qed
  then show ?thesis using entries(1) by (simp add: get flip: fs')
qed

lemma toc_archive_reads_back:
  assumes w: "write_with_profile p5r fs out files options profile = Inr (report, out')"
    and empty: "contents out = []" and sane: "files_sane fs" and toc: "has_toc (index_mode profile)"
    and small: "unat (rep_content_offset report) < 2 ^ 32" and strs: "texts_ok files profile"
  shows "\<exists>offsets. archive_reads_back sjis (contents out') p5r fs (p5r_encryption options) files
    (map2 listed_file files offsets) \<and> length offsets = length files"
proof -
  from write_with_profile_stores [OF w empty sane] obtain lo where
    plan: "plan_archive files options profile = Inr lo"
    and pl: "planned files (unat (alignment options)) lo"
    and stored: "archive_stores p5r fs files (p5r_encryption options) lo (contents out')"
    and rep: "rep_content_offset report = lo_content_offset lo" by auto
  have len: "length (lo_offsets lo) = length files" using pl by (simp add: planned_def)
  let ?entries = "map2 listed_file files (lo_offsets lo)"
  have "let (listed, rd) = get_files sjis (cpk_reader_new slab \<lparr>contents = contents out', position = 0\<rparr>)
        in listed = Inr ?entries \<and> length ?entries = length files \<and>
           (\<forall>i < length files. \<exists>bs rd'. read_packed_file rd (?entries ! i) = Inr (bs, rd') \<and>
              packed_payload p5r fs (p5r_encryption options) (files ! i) = Some bs)" for slab
  proof -
    let ?rd = "cpk_reader_new slab \<lparr>contents = contents out', position = 0\<rparr>"
    have rd: "rd_start_pos ?rd = 0" "contents (rd_stream ?rd) = contents out'"
      by (simp_all add: cpk_reader_new_def)
    have "pool_strings_ok [tvers profile, comment profile]"
      "stored_at 0 (lo_header_chunk lo) (contents (rd_stream ?rd))"
      using strs stored by (simp_all add: texts_ok_def archive_stores_def rd(2))
    from read_header_back [OF plan this rd(1), of sjis] obtain md s where
      hd: "read_header sjis ?rd = Inr (md, s)" and cs: "contents s = contents out'"
      and md: "md_toc_offset md = lo_toc_offset lo" unfolding rd(2) by blast
    let ?rd1 = "?rd\<lparr>rd_stream := s, rd_metadata := Some md\<rparr>"
    have "lo_toc_offset lo \<noteq> 0 \<and> (\<exists>s'. read_toc sjis md ?rd1 = Inr (?entries, s') \<and>
        contents s' = contents (rd_stream ?rd1))"
      using small rep stored cs rd by (intro read_toc_back [OF plan toc _ strs _ _ md]) simp_all
    then obtain s' where nz: "lo_toc_offset lo \<noteq> 0" and rt: "read_toc sjis md ?rd1 = Inr (?entries, s')"
      and cs': "contents s' = contents out'" using cs by auto
    show ?thesis
      by (rule get_files_reads [OF hd rd(1) _ _ _ _ map_nth, where lo = lo and s' = s'])
        (use nz md rt stored cs' len in simp_all)
  qed
  then have "archive_reads_back sjis (contents out') p5r fs (p5r_encryption options) files ?entries"
    unfolding archive_reads_back_def by blast
  with len show ?thesis by blast
qed

section \<open>The ID table\<close>

definition itoc_row_of :: "cpk_input_file \<Rightarrow> itoc_row" where
  "itoc_row_of f =
     \<lparr>ir_id = in_id f, ir_file_size = in_size f, ir_extract_size = in_extract_size f, ir_file_crc = None\<rparr>"

lemma narrow_widen: "try_from_word (w :: u32) = Some (i :: u16) \<Longrightarrow> try_from_word (ucast i :: u64) = Some w"
proof -
  assume "try_from_word w = Some i"
  then have "unat w < 2 ^ 16" and i: "i = ucast w" by (auto simp: try_from_word_def split: if_splits)
  then have "unat i = unat w" by (simp add: unat_ucast_le)
  then have "unat (ucast i :: u64) = unat w" by (simp add: unat_ucast_wide)
  then show ?thesis
    using unat_lt2p [of w] by (simp add: try_from_word_def word_unat_eq_iff unat_ucast_le)
qed

lemma itoc_table_row_Inr:
  assumes "itoc_table_row low f = Inr row"
  shows "\<exists>i s e. row = [i, s, e] \<and>
    (\<exists>n. utf_number i = Some n \<and> try_from_word n = Some (in_id f)) \<and>
    (\<exists>n. utf_number s = Some n \<and> try_from_word n = Some (in_size f)) \<and>
    (\<exists>n. utf_number e = Some n \<and> try_from_word n = Some (in_extract_size f))"
  using assms by (auto simp: itoc_table_row_def result_iff try_from_word_def [symmetric]
      simp del: try_from_word_Some intro!: narrow_widen split: if_splits)

lemma itoc_row_shown:
  assumes sh: "table_shows ht (utf_table_builder_new name (itoc_columns low) rows)" and r: "r < length rows"
    and row: "itoc_table_row low f = Inr (rows ! r)"
  shows "itoc_row_at ht r = Inr (itoc_row_of f)"
proof -
  have col: "column_index ht n = column_position n (itoc_columns low)" for n
    using shown_column [OF sh] by (simp add: utf_table_builder_new_def column_position_def)
  have cols: "column_index ht ''ID'' = Some 0" "column_index ht ''FileSize'' = Some 1"
    "column_index ht ''ExtractSize'' = Some 2" "column_index ht ''FileCrc'' = None"
    unfolding col by (simp_all add: itoc_columns_def Let_def)
  from itoc_table_row_Inr [OF row] obtain i s e where e: "rows ! r = [i, s, e]"
    and n: "\<exists>n. utf_number i = Some n \<and> try_from_word n = Some (in_id f)"
      "\<exists>n. utf_number s = Some n \<and> try_from_word n = Some (in_size f)"
      "\<exists>n. utf_number e = Some n \<and> try_from_word n = Some (in_extract_size f)" by blast
  have "numeric_at ht r c = Some v" if "c < 3" "utf_number (rows ! r ! c) = Some v" for c v
    using that r by (intro shown_utf_number [OF sh])
      (simp_all add: utf_table_builder_new_def itoc_columns_def Let_def)
  from this [of 0] this [of 1] this [of 2] n show ?thesis
    by (auto simp: itoc_row_at_def Let_def cols e itoc_row_of_def simp del: One_nat_def)
qed

lemma itoc_strings:
  assumes "ascii_text name" and "map_result f indices = Inr rows" and "\<And>x row. f x = Inr row \<Longrightarrow> strings_of row = []"
  shows "pool_strings_ok (builder_strings (utf_table_builder_new name (itoc_columns low) rows))"
proof -
  have "strings_of (concat rows) = []"
    using assms(2)
  proof (induction indices arbitrary: rows)
    case (Cons x xs)
    then show ?case using assms(3) by (auto simp: result_iff strings_of_def)
  qed (simp add: strings_of_def)
  then have "builder_strings (utf_table_builder_new name (itoc_columns low) rows) =
      map ascii [name, ''ID'', ''FileSize'', ''ExtractSize'']"
    by (simp add: builder_strings_def utf_table_builder_new_def itoc_columns_def Let_def utf_column_new_def)
  moreover have "list_all ascii_text [name, ''ID'', ''FileSize'', ''ExtractSize'']"
    using assms(1) by (simp add: ascii_text_def)
  ultimately show ?thesis by (simp only: pool_strings_ok_ascii)
qed

lemma itoc_row_no_strings: "itoc_table_row low f = Inr row \<Longrightarrow> strings_of row = []"
  by (auto simp: itoc_table_row_def result_iff strings_of_def split: if_splits)

lemma itoc_table_rows_back:
  assumes b: "build_itoc_rows files indices low name = Inr t" and name: "ascii_text name"
  shows "\<exists>bld. build bld = Inr t \<and> pool_strings_ok (builder_strings bld) \<and>
    (\<forall>ht rows. table_shows ht bld \<longrightarrow>
       collect_itoc_rows ht rows = Inr (rows @ map (\<lambda>i. itoc_row_of (files ! i)) indices))"
proof -
  from b obtain rs where rs: "map_result (\<lambda>index. itoc_table_row low (files ! index)) indices = Inr rs"
    and t: "build (utf_table_builder_new name (itoc_columns low) rs) = Inr t"
    by (auto simp: build_itoc_rows_def result_iff)
  let ?b = "utf_table_builder_new name (itoc_columns low) rs"
  have "pool_strings_ok (builder_strings ?b)"
    by (rule itoc_strings [OF name rs itoc_row_no_strings])
  moreover have "collect_itoc_rows ht rows = Inr (rows @ map (\<lambda>i. itoc_row_of (files ! i)) indices)"
    if sh: "table_shows ht ?b" for ht rows
  proof -
    have len: "length (ht_rows ht) = length indices" "length rs = length indices"
      using sh map_result_length [OF rs] by (simp_all add: table_shows_def utf_table_builder_new_def)
    have "map_result (itoc_row_at ht) [0..<length indices] =
        Inr (map (\<lambda>r. itoc_row_of (files ! (indices ! r))) [0..<length indices])"
      using map_result_nth [OF rs] len by (intro map_result_all_Inr itoc_row_shown [OF sh]) simp_all
    moreover have "map (\<lambda>r. itoc_row_of (files ! (indices ! r))) [0..<length indices] =
        map (\<lambda>i. itoc_row_of (files ! i)) indices"
      by (intro nth_equalityI) simp_all
    ultimately show ?thesis by (simp add: collect_itoc_rows_def len)
  qed
  ultimately show ?thesis using t by blast
qed

lemma nested_table_back:
  assumes b: "build_itoc_rows files indices low name = Inr t" and name: "ascii_text name"
    and small: "length t < 2 ^ 32"
  shows "\<exists>ht. high_table_new sjis t = Inr ht \<and>
    (\<forall>rows. collect_itoc_rows ht rows = Inr (rows @ map (\<lambda>i. itoc_row_of (files ! i)) indices))"
  using itoc_table_rows_back [OF b name] build_read_back_shows [OF _ _ small, of _ sjis] by blast

lemma built_table_nonempty:
  assumes "build b = Inr t" and "pool_strings_ok (builder_strings b)" and "length t < 2 ^ 32"
  shows "t \<noteq> []"
  using build_read_back_shows [OF assms, of "\<lambda>bs. bs"] table_accepted by (fastforce simp: HEADER_SIZE_def)

text \<open>An outer table leads to the rows of the two tables in its cells.\<close>

lemma itoc_outer_texts: "pool_strings_ok (builder_strings (itoc_outer_builder lt hgt))"
proof -
  have "builder_strings (itoc_outer_builder lt hgt) = map ascii [''CpkItocInfo'', ''DataL'', ''DataH'']"
    by (simp add: builder_strings_def itoc_outer_builder_def utf_table_builder_new_def utf_column_new_def strings_of_def)
  moreover have "list_all ascii_text [''CpkItocInfo'', ''DataL'', ''DataH'']" by (simp add: ascii_text_def)
  ultimately show ?thesis by (simp only: pool_strings_ok_ascii)
qed

lemma itoc_outer_rows:
  assumes l: "build_itoc_rows files low True ''CpkItocL'' = Inr lt"
    and h: "build_itoc_rows files high False ''CpkItocH'' = Inr hgt"
    and sh: "table_shows ht (itoc_outer_builder lt hgt)" and eid: "md_eid md = 0"
  shows "itoc_rows sjis md ht = Inr (map (\<lambda>i. itoc_row_of (files ! i)) (low @ high))"
proof -
  let ?b = "itoc_outer_builder lt hgt" and ?row = "\<lambda>i. itoc_row_of (files ! i)"
  have B: "tb_columns ?b = [utf_column_new ''DataL'' U_Data, utf_column_new ''DataH'' U_Data]"
    "tb_rows ?b = [[UV_Data lt, UV_Data hgt]]"
    by (simp_all add: itoc_outer_builder_def utf_table_builder_new_def)
  from shown_cell [OF sh, of 0 0] shown_cell [OF sh, of 0 1] B obtain v w :: data_value where
    "unat (dv_length v) = length lt" "unat (dv_length w) = length hgt" by (auto simp: utf_table_builder_new_def)
  then have small: "length lt < 2 ^ 32" "length hgt < 2 ^ 32"
    using unat_lt2p [of "dv_length v"] unat_lt2p [of "dv_length w"] by simp_all
  have names: "ascii_text ''CpkItocL''" "ascii_text ''CpkItocH''" by (simp_all add: ascii_text_def)
  have ne: "lt \<noteq> []" "hgt \<noteq> []"
    using itoc_table_rows_back [OF l names(1)] itoc_table_rows_back [OF h names(2)] small
    by (metis built_table_nonempty)+
  have col: "column_index ht n = column_position n (tb_columns ?b)" for n
    using shown_column [OF sh] by (simp add: column_position_def)
  have "data_by_name ht 0 ''DataL'' = Some lt" "data_by_name ht 0 ''DataH'' = Some hgt"
    using shown_data [OF sh, of 0 "''DataL''" 0 lt] shown_data [OF sh, of 0 "''DataH''" 1 hgt] B ne
    by (simp_all add: col)
  moreover from nested_table_back [OF l names(1) small(1), of sjis] obtain hl where
    "high_table_new sjis lt = Inr hl" "\<forall>rows. collect_itoc_rows hl rows = Inr (rows @ map ?row low)" by blast
  moreover from nested_table_back [OF h names(2) small(2), of sjis] obtain hh where
    "high_table_new sjis hgt = Inr hh" "\<forall>rows. collect_itoc_rows hh rows = Inr (rows @ map ?row high)" by blast
  ultimately show ?thesis using eid by (simp add: itoc_rows_def)
qed

text \<open>The rows an ID table holds, whichever way they are stored.\<close>

lemma itoc_rows_back:
  assumes b: "build_itoc_table files order direct = Inr t" and eid: "md_eid md \<noteq> 0 \<longleftrightarrow> direct"
  shows "\<exists>bld. build bld = Inr t \<and> pool_strings_ok (builder_strings bld) \<and>
    (\<forall>ht. table_shows ht bld \<longrightarrow>
       (\<exists>rows. itoc_rows sjis md ht = Inr rows \<and>
          mset rows = mset (map (\<lambda>i. itoc_row_of (files ! i)) order)))"
proof (cases direct)
  case True
  with b have "build_itoc_rows files order False ''CpkExtendId'' = Inr t" by (simp add: build_itoc_table_def)
  from itoc_table_rows_back [OF this] obtain bld where
    bld: "build bld = Inr t" "pool_strings_ok (builder_strings bld)"
    and rows: "\<forall>ht rows. table_shows ht bld \<longrightarrow>
       collect_itoc_rows ht rows = Inr (rows @ map (\<lambda>i. itoc_row_of (files ! i)) order)"
    by (auto simp: ascii_text_def)
  have "itoc_rows sjis md ht = Inr (map (\<lambda>i. itoc_row_of (files ! i)) order)" if "table_shows ht bld" for ht
    using rows that True eid by (simp add: itoc_rows_def)
  then show ?thesis using bld by blast
next
  case False
  let ?row = "\<lambda>i. itoc_row_of (files ! i)"
  let ?low = "filter (\<lambda>index. fits_low_width (files ! index)) order"
  let ?high = "filter (\<lambda>index. \<not> fits_low_width (files ! index)) order"
  from False b obtain lt hgt where l: "build_itoc_rows files ?low True ''CpkItocL'' = Inr lt"
    and h: "build_itoc_rows files ?high False ''CpkItocH'' = Inr hgt"
    and t: "build (itoc_outer_builder lt hgt) = Inr t"
    by (auto simp: build_itoc_table_def Let_def result_iff)
  have "mset (map ?row (?low @ ?high)) = mset (map ?row order)"
    by (simp flip: image_mset_union multiset_partition)
  with itoc_outer_rows [OF l h] False eid t itoc_outer_texts show ?thesis by metis
qed

section \<open>The listing of the ID table\<close>

lemma materialize_loop_ok:
  "unat content_offset + unat off + packed_before (unat a) rows < 2 ^ 64 \<Longrightarrow>
   \<exists>fs. materialize_loop content_offset a off rows = Inr fs"
proof (induction rows arbitrary: off)
  case Nil
  then show ?case by simp
next
  case (Cons r rows)
  let ?n = "round_up (unat a) (unat (ir_file_size r))"
  have sz: "unat (ucast (ir_file_size r) :: u64) = unat (ir_file_size r)" by (simp add: unat_ucast_wide)
  have n: "unat content_offset + unat off + ?n + packed_before (unat a) rows < 2 ^ 64"
    using Cons.prems by (simp add: add.assoc)
  then have un: "unat (of_nat ?n :: u64) = ?n" by (simp add: unat_of_nat_fits)
  have u: "unat (off + of_nat ?n) = unat off + ?n"
    using n un by (subst unat_add_fits) simp_all
  have "\<exists>fs. materialize_loop content_offset a (off + of_nat ?n) rows = Inr fs"
    using n by (intro Cons.IH) (simp add: u add.assoc)
  then show ?case using n by (auto simp: reader_align_up_eq sz checked_add_def un)
qed

lemma sort_unique:
  assumes "mset xs = mset ys" and "sorted (map f ys)" and "distinct (map f ys)"
  shows "sort_key f xs = ys"
proof (rule sort_key_inj_key_eq [OF assms(1) _ assms(2)])
  show "inj_on f (set xs)" using assms(1,3) by (metis distinct_map mset_eq_setD)
qed

text \<open>The entry an ID table lists for an input file stored at an absolute offset.\<close>

definition listed_by_id :: "u64 \<Rightarrow> cpk_input_file \<Rightarrow> u64 \<Rightarrow> cpk_file" where
  "listed_by_id content_offset f offset =
     cpk_file_new [] (itoc_file_name (in_id f)) (offset - content_offset) offset (in_size f)
       (in_extract_size f) (Some (in_id f)) [] None"

lemma packed_before_files:
  "packed_before a (map (\<lambda>i. itoc_row_of (files ! i)) is) = sum_list (map (packed_size a files) is)"
  by (simp add: packed_before_def packed_size_def [abs_def] itoc_row_of_def comp_def)

lemma order_sorts:
  assumes o: "build_physical_order files profile = Inr order" and itoc: "has_itoc (index_mode profile)"
  shows "map ((!) files) order = sort_key in_id files \<and> distinct (map (\<lambda>i. in_id (files ! i)) order)"
proof -
  from build_physical_order_Inr [OF o] itoc have d: "distinct order" "set order = {..<length files}"
    "sorted (map (\<lambda>i. in_id (files ! i)) order)" "distinct (map in_id files)" "length order = length files"
    by auto
  have "mset order = mset [0..<length files]"
    using d(1,2) set_eq_iff_mset_eq_distinct [of order "[0..<length files]"]
    by (simp add: atLeast_upt del: mset_upt)
  then have m: "mset (map ((!) files) order) = mset files"
    by (metis map_nth mset_map)
  then have "mset (map in_id (map ((!) files) order)) = mset (map in_id files)"
    by (simp only: mset_map)
  then have dis: "distinct (map in_id (map ((!) files) order))"
    using d(4) by (metis mset_eq_imp_distinct_iff)
  have "sort_key in_id files = map ((!) files) order"
    using m d(3) dis by (intro sort_unique) (simp_all add: comp_def)
  with dis show ?thesis by (simp add: comp_def)
qed

lemma itoc_files_back:
  assumes pl: "planned files (unat (alignment options)) lo"
    and o: "build_physical_order files profile = Inr (lo_order lo)" and itoc: "has_itoc (index_mode profile)"
    and al: "0 < unat (alignment options)"
    and md: "md_content_offset md = lo_content_offset lo" "md_align md = alignment options"
    and rows: "itoc_rows sjis md ht = Inr rows" "mset rows = mset (map (\<lambda>i. itoc_row_of (files ! i)) (lo_order lo))"
  shows "itoc_files sjis md ht =
    Inr (map (\<lambda>i. listed_by_id (lo_content_offset lo) (files ! i) (lo_offsets lo ! i)) (lo_order lo))"
proof -
  let ?rows = "map (\<lambda>i. itoc_row_of (files ! i)) (lo_order lo)"
  let ?c = "lo_content_offset lo" and ?a = "unat (alignment options)"
  let ?al = "ucast (max (md_align md) 1) :: u64"
  have ids: "map ir_id ?rows = map (\<lambda>i. in_id (files ! i)) (lo_order lo)"
    by (simp add: itoc_row_of_def)
  have dis: "distinct (map ir_id ?rows)" "sorted (map ir_id ?rows)"
    using order_sorts [OF o itoc] build_physical_order_Inr [OF o] itoc unfolding ids by blast+
  then have sort: "sort_key ir_id rows = ?rows" using rows(2) by (intro sort_unique)
  have len: "length (lo_order lo) = length files" using pl by (simp add: planned_def)
  have ua: "unat ?al = ?a" using al unat_itoc_alignment [of md] by (simp add: itoc_alignment_def md)
  have fin: "unat ?c + packed_before ?a ?rows = unat (lo_archive_size lo)"
    using pl len unfolding planned_def packed_before_files physical_offset_def by simp
  then have "\<exists>fs. materialize_loop ?c ?al 0 ?rows = Inr fs"
    using unat_lt2p [of "lo_archive_size lo"] by (intro materialize_loop_ok) (simp add: ua)
  then obtain fs where fs: "materialize_loop ?c ?al 0 ?rows = Inr fs" by blast
  from materialize_loop_eq [OF this] have flen: "length fs = length ?rows"
    and at: "\<And>k. k < length ?rows \<Longrightarrow> fs ! k = file_at ?c (packed_before ?a (take k ?rows)) (?rows ! k)"
    by (simp_all add: ua)
  have "fs = map (\<lambda>i. listed_by_id ?c (files ! i) (lo_offsets lo ! i)) (lo_order lo)"
  proof (intro nth_equalityI)
    show "length fs = length (map (\<lambda>i. listed_by_id ?c (files ! i) (lo_offsets lo ! i)) (lo_order lo))"
      using flen by simp
    fix k assume "k < length fs"
    then have k: "k < length (lo_order lo)" using flen by simp
    let ?i = "lo_order lo ! k"
    let ?before = "packed_before ?a (take k ?rows)"
    have "?before = sum_list (map (packed_size ?a files) (take k (lo_order lo)))"
      unfolding take_map packed_before_files ..
    then have off: "unat (lo_offsets lo ! ?i) = unat ?c + ?before"
      using pl k len unfolding planned_def physical_offset_def by simp
    then have "unat (of_nat ?before :: u64) = ?before"
      using unat_lt2p [of "lo_offsets lo ! ?i"] by (intro unat_of_nat_fits) simp
    then have o: "?c + of_nat ?before = lo_offsets lo ! ?i"
      using off unat_lt2p [of "lo_offsets lo ! ?i"]
      by (subst word_unat_eq_iff, subst unat_add_fits) simp_all
    have "of_nat ?before = lo_offsets lo ! ?i - ?c" by (simp add: o [symmetric])
    then show "fs ! k = map (\<lambda>i. listed_by_id ?c (files ! i) (lo_offsets lo ! i)) (lo_order lo) ! k"
      using at [of k] k o by (simp add: file_at_def listed_by_id_def itoc_row_of_def)
  qed
  with fs adjacent_ids_equal_iff [OF dis(2)] dis(1) show ?thesis
    by (simp add: itoc_files_def rows(1) sort Let_def materialize_itoc_rows_def md(1))
qed

lemma read_itoc_back:
  assumes plan: "plan_archive files options profile = Inr lo" and itoc: "has_itoc (index_mode profile)"
    and stored: "archive_stores p5r fs files encrypt lo (contents (rd_stream rd))"
    and start: "rd_start_pos rd = 0" and md: "md_itoc_offset md = lo_itoc_offset lo"
      "md_content_offset md = lo_content_offset lo" "md_align md = alignment options"
      "md_eid md \<noteq> 0 \<longleftrightarrow> direct_itoc profile"
  shows "lo_itoc_offset lo \<noteq> 0 \<and> (\<exists>s'. read_itoc sjis md rd =
      Inr (map (\<lambda>i. listed_by_id (lo_content_offset lo) (files ! i) (lo_offsets lo ! i)) (lo_order lo), s') \<and>
    contents s' = contents (rd_stream rd))"
proof -
  from plan_archive_Inr [OF plan] itoc obtain table where
    o: "build_physical_order files profile = Inr (lo_order lo)"
    and b: "build_itoc_table files (lo_order lo) (direct_itoc profile) = Inr table"
    and ch: "lo_itoc_chunk lo = Some (build_chunk Itoc table)"
    and co: "\<not> lo_content_offset lo > ucast (- 1 :: u32)"
    and al: "validate_alignment (alignment options) = Inr ()"
    by (auto simp: optional_table_def result_iff)
  from plan_archive_ok [OF plan] have lo: "layout_ordered lo" and off: "ENGINE_INDEX_BASE \<le> lo_itoc_offset lo"
    and base: "ENGINE_INDEX_BASE \<le> lo_content_offset lo"
    and pl: "planned files (unat (alignment options)) lo"
    unfolding planned_def by (auto simp: ch)
  from validate_alignment_power [OF al] have pos: "0 < unat (alignment options)" by auto
  have "length (build_chunk Itoc table) \<le> unat (lo_content_offset lo)"
    using lo unfolding layout_ordered_def by (simp add: ch chunk_end_def)
  moreover have "unat (lo_content_offset lo) < 2 ^ 32"
    using co unat_lt2p [of "- 1 :: u32"] by (simp add: word_le_nat_alt not_less unat_ucast_wide)
  ultimately have tsize: "length table < 2 ^ 32" by (simp add: build_chunk_def)
  from itoc_rows_back [OF b md(4), of sjis] obtain bld where
    bld: "build bld = Inr table" "pool_strings_ok (builder_strings bld)"
    and rows: "\<And>ht. table_shows ht bld \<Longrightarrow> \<exists>rows. itoc_rows sjis md ht = Inr rows \<and>
          mset rows = mset (map (\<lambda>i. itoc_row_of (files ! i)) (lo_order lo))" by blast
  let ?s = "seek_start (unat (lo_itoc_offset lo)) (rd_stream rd)"
  have "\<exists>ht s'. table_container_new ?s = Inr (\<lparr>tc_kind = Itoc, tc_table = table\<rparr>, s') \<and>
      contents s' = contents ?s \<and> high_table_new sjis table = Inr ht \<and> table_shows ht bld"
    using tsize stored
    by (intro chunk_read_back [OF bld]) (simp_all add: header_area_ok_def archive_stores_def ch)
  then obtain ht s' where t: "table_container_new ?s = Inr (\<lparr>tc_kind = Itoc, tc_table = table\<rparr>, s')"
      "contents s' = contents ?s" "high_table_new sjis table = Inr ht"
    and sh: "table_shows ht bld" by blast
  from rows [OF sh] obtain rs where rs: "itoc_rows sjis md ht = Inr rs"
    "mset rs = mset (map (\<lambda>i. itoc_row_of (files ! i)) (lo_order lo))" by blast
  note listing = itoc_files_back [OF pl o itoc pos md(2,3) rs]
  have "lo_content_offset lo \<noteq> 0" using base by (auto simp: ENGINE_INDEX_BASE_def)
  with co t(1,3) start md listing have "read_itoc sjis md rd =
      Inr (map (\<lambda>i. listed_by_id (lo_content_offset lo) (files ! i) (lo_offsets lo ! i)) (lo_order lo), s')"
    by (simp add: read_itoc_def)
  moreover have "lo_itoc_offset lo \<noteq> 0" using off by (auto simp: ENGINE_INDEX_BASE_def)
  ultimately show ?thesis using t(2) by simp
qed

lemma fields_of_listed_by_id [simp]:
  "absolute_offset (listed_by_id c f off) = off" "file_size (listed_by_id c f off) = in_size f"
  by (simp_all add: listed_by_id_def cpk_file_new_def)

lemma itoc_archive_reads_back:
  assumes w: "write_with_profile p5r fs out files options profile = Inr (report, out')"
    and empty: "contents out = []" and sane: "files_sane fs" and mode: "index_mode profile = Mode_Itoc"
    and strs: "pool_strings_ok [tvers profile, comment profile]"
  shows "\<exists>offsets. archive_reads_back sjis (contents out') p5r fs (p5r_encryption options) (sort_key in_id files)
    (map2 (listed_by_id (rep_content_offset report)) (sort_key in_id files) offsets) \<and>
    length offsets = length files"
proof -
  from write_with_profile_stores [OF w empty sane] obtain lo where
    plan: "plan_archive files options profile = Inr lo"
    and pl: "planned files (unat (alignment options)) lo"
    and stored: "archive_stores p5r fs files (p5r_encryption options) lo (contents out')"
    and rep: "rep_content_offset report = lo_content_offset lo" by auto
  have itoc: "has_itoc (index_mode profile)" and no_toc: "\<not> has_toc (index_mode profile)"
    by (simp_all add: mode has_itoc_def has_toc_def)
  from plan_archive_Inr [OF plan] no_toc have
    o: "build_physical_order files profile = Inr (lo_order lo)" and "lo_toc_chunk lo = None" by auto
  then have toc0: "lo_toc_offset lo = 0" using pl by (simp add: planned_def)
  note sorted = order_sorts [OF o itoc, THEN conjunct1]
  have len: "length (lo_offsets lo) = length files" "length (lo_order lo) = length files"
    "set (lo_order lo) = {..<length files}" using pl by (simp_all add: planned_def)
  let ?entry = "\<lambda>i. listed_by_id (lo_content_offset lo) (files ! i) (lo_offsets lo ! i)"
  let ?entries = "map ?entry (lo_order lo)"
  have "let (listed, rd) = get_files sjis (cpk_reader_new slab \<lparr>contents = contents out', position = 0\<rparr>)
        in listed = Inr ?entries \<and> length ?entries = length (sort_key in_id files) \<and>
           (\<forall>i < length (sort_key in_id files). \<exists>bs rd'. read_packed_file rd (?entries ! i) = Inr (bs, rd') \<and>
              packed_payload p5r fs (p5r_encryption options) (sort_key in_id files ! i) = Some bs)" for slab
  proof -
    let ?rd = "cpk_reader_new slab \<lparr>contents = contents out', position = 0\<rparr>"
    have rd: "rd_start_pos ?rd = 0" "contents (rd_stream ?rd) = contents out'"
      by (simp_all add: cpk_reader_new_def)
    have "stored_at 0 (lo_header_chunk lo) (contents (rd_stream ?rd))"
      using stored by (simp add: archive_stores_def rd(2))
    from read_header_back [OF plan strs this rd(1), of sjis] itoc obtain md s where
      hd: "read_header sjis ?rd = Inr (md, s)" and cs: "contents s = contents out'"
      and md: "md_itoc_offset md = lo_itoc_offset lo" "md_content_offset md = lo_content_offset lo"
        "md_align md = alignment options" "md_toc_offset md = lo_toc_offset lo"
        "md_eid md \<noteq> 0 \<longleftrightarrow> direct_itoc profile" unfolding rd(2) by auto
    let ?rd1 = "?rd\<lparr>rd_stream := s, rd_metadata := Some md\<rparr>"
    have "lo_itoc_offset lo \<noteq> 0 \<and> (\<exists>s'. read_itoc sjis md ?rd1 = Inr (?entries, s') \<and>
        contents s' = contents (rd_stream ?rd1))"
      using stored cs rd md by (intro read_itoc_back [OF plan itoc]) simp_all
    then obtain s' where nz: "lo_itoc_offset lo \<noteq> 0" and rt: "read_itoc sjis md ?rd1 = Inr (?entries, s')"
      and cs': "contents s' = contents out'" using cs by auto
    have "lo_order lo ! k < length files" if "k < length files" for k
      using len that nth_mem [of k "lo_order lo"] by auto
    then show ?thesis
      by (intro get_files_reads [OF hd rd(1), where ixs = "lo_order lo" and lo = lo and s' = s'])
        (use nz md rt stored cs' len toc0 sorted in \<open>simp_all\<close>)
  qed
  then have "archive_reads_back sjis (contents out') p5r fs (p5r_encryption options) (sort_key in_id files) ?entries"
    unfolding archive_reads_back_def by blast
  moreover have "?entries = map2 (listed_by_id (lo_content_offset lo)) (sort_key in_id files)
      (map ((!) (lo_offsets lo)) (lo_order lo))"
    using len by (intro nth_equalityI) (simp_all flip: sorted)
  ultimately have "archive_reads_back sjis (contents out') p5r fs (p5r_encryption options) (sort_key in_id files)
      (map2 (listed_by_id (rep_content_offset report)) (sort_key in_id files)
        (map ((!) (lo_offsets lo)) (lo_order lo)))" by (simp only: rep)
  moreover have "length (map ((!) (lo_offsets lo)) (lo_order lo)) = length files" using len by simp
  ultimately show ?thesis by blast
qed

end
