(* ===== verification/Cpk_Extract.thy ===== *)
theory Cpk_Extract
  imports Cpk_Reader Layla_Spec
begin

text \<open>
  \<open>CpkReader::extract_file\<close> of \<open>cpk/reader.rs\<close>: reading the payload of an entry, decrypting it with
  the reader's \<open>FileDecryptor\<close> and decompressing it.  A failed read is an error value, an access
  outside a buffer a memory fault.  \<open>extract_with_packed_eq\<close>, proved once for every decryptor in
  the locale \<open>file_decryptor\<close>, says what an extraction returns, and that it leaves the slab of the
  reader as it was, so that every extraction starts from an empty slab.
\<close>

definition extract_file_with_packed ::
  "(cpk_file \<Rightarrow> bytes \<Rightarrow> bool) \<Rightarrow> (bytes \<Rightarrow> bytes memory_result) \<Rightarrow> nat \<Rightarrow> (nat \<Rightarrow> u8) \<Rightarrow>
   cpk_reader \<Rightarrow> cpk_file \<Rightarrow> ((bytes \<times> bytes) \<times> cpk_reader) result memory_result" where
  "extract_file_with_packed is_encrypted_file decrypt_in_place heap memory rd file =
     (case read_packed_file rd file of
        Inl e \<Rightarrow> Inr (Inl e)
      | Inr (packed, rd) \<Rightarrow>
          and_then (if is_encrypted_file file packed then decrypt_in_place packed else Inr packed) (\<lambda>out.
          and_then (if is_compressed out
                    then LaylaDecompressor_decompress heap memory out (rd_free_list rd)
                    else Inr (out, rd_free_list rd)) (\<lambda>(out, fl).
            Inr (Inr ((packed, out), rd\<lparr>rd_free_list := fl\<rparr>)))))"

definition extract_file ::
  "(cpk_file \<Rightarrow> bytes \<Rightarrow> bool) \<Rightarrow> (bytes \<Rightarrow> bytes memory_result) \<Rightarrow> nat \<Rightarrow> (nat \<Rightarrow> u8) \<Rightarrow>
   cpk_reader \<Rightarrow> cpk_file \<Rightarrow> (bytes \<times> cpk_reader) result memory_result" where
  "extract_file is_encrypted_file decrypt_in_place heap memory rd file =
     result_map (result_map (\<lambda>((_, extracted), rd). (extracted, rd)))
       (extract_file_with_packed is_encrypted_file decrypt_in_place heap memory rd file)"

section \<open>What an extraction returns\<close>

definition unpacked :: "bytes \<Rightarrow> bytes option" where
  "unpacked bs = (if is_compressed bs then layla_unpack bs else Some bs)"

definition reader_idle :: "cpk_reader \<Rightarrow> bool" where
  "reader_idle rd \<longleftrightarrow> free_list_wf (rd_free_list rd) \<and> used (rd_free_list rd) = replicate 32 0"

lemma reader_idle_new: "reader_idle (cpk_reader_new base s)"
  by (simp add: reader_idle_def cpk_reader_new_def free_list_wf_def free_list_new_def)

lemma reader_idle_get_files: "reader_idle (snd (get_files sjis rd)) \<longleftrightarrow> reader_idle rd"
  by (auto simp: get_files_def reader_idle_def Let_def split: sum.split prod.split)

lemma read_packed_keeps_list: "read_packed_file rd file = Inr (bs, rd') \<Longrightarrow> rd_free_list rd' = rd_free_list rd"
  by (auto simp: read_packed_file_def Let_def result_iff split: if_splits)

definition decrypted ::
  "(cpk_file \<Rightarrow> bytes \<Rightarrow> bool) \<Rightarrow> (bytes \<Rightarrow> bytes memory_result) \<Rightarrow> cpk_file \<Rightarrow> bytes \<Rightarrow> bytes" where
  "decrypted is_encrypted_file decrypt_in_place file packed =
     (if is_encrypted_file file packed
      then (case decrypt_in_place packed of Inl e \<Rightarrow> packed | Inr out \<Rightarrow> out) else packed)"

context file_decryptor
begin

lemma extract_with_packed_eq:
  assumes "reader_idle rd"
  shows "extract_file_with_packed is_encrypted_file decrypt_in_place heap memory rd file =
    (case read_packed_file rd file of
       Inl e \<Rightarrow> Inr (Inl e)
     | Inr (packed, rd') \<Rightarrow>
         and_then (ok_or OutOfBounds (unpacked (decrypted is_encrypted_file decrypt_in_place file packed))) (\<lambda>out.
           Inr (Inr ((packed, out), rd'))))"
proof (cases "read_packed_file rd file")
  case (Inr r)
  obtain packed rd' where r: "r = (packed, rd')" by (cases r)
  from read_packed_keeps_list Inr r assms have idle: "reader_idle rd'"
    by (auto simp: reader_idle_def)
  have dec: "(if is_encrypted_file file packed then decrypt_in_place packed else Inr packed) =
      Inr (decrypted is_encrypted_file decrypt_in_place file packed)"
    using decrypt_defined [of packed] by (auto simp: decrypted_def)
  have same: "rd'\<lparr>rd_free_list := rd_free_list rd'\<rparr> = rd'" by simp
  show ?thesis
    unfolding extract_file_with_packed_def Inr r sum.case prod.case dec
    using LaylaDecompressor_decompress_eq [of "rd_free_list rd'" heap memory "decrypted is_encrypted_file decrypt_in_place file packed"] idle
    by (cases "layla_unpack (decrypted is_encrypted_file decrypt_in_place file packed)") (auto simp: unpacked_def reader_idle_def)
qed (simp add: extract_file_with_packed_def)

lemma extract_keeps_idle:
  assumes "reader_idle rd"
    and "extract_file_with_packed is_encrypted_file decrypt_in_place heap memory rd file = Inr (Inr (res, rd'))"
  shows "reader_idle rd'"
  using assms read_packed_keeps_list [of rd "file"]
  unfolding extract_with_packed_eq [OF assms(1)]
  by (auto simp: result_iff reader_idle_def split: sum.splits)

lemma extract_read:
  assumes "reader_idle rd" and "read_packed_file rd file = Inr (packed, rd')"
    and "unpacked (decrypted is_encrypted_file decrypt_in_place file packed) = Some out"
  shows "extract_file is_encrypted_file decrypt_in_place heap memory rd file = Inr (Inr (out, rd'))"
  using assms by (simp add: extract_file_def extract_with_packed_eq)

end

end
