(* ===== verification/Archive_Extract.thy ===== *)
theory Archive_Extract
  imports Archive_Round_Trip Cpk_Extract
begin

text \<open>
  The writer and the extracting reader together: what was packed with Persona 5 Royal encryption
  comes out as it went in, decompressed if it was a compressed file.
\<close>

definition archive_extracts ::
  "(bytes \<Rightarrow> rust_string) \<Rightarrow> bytes \<Rightarrow> (cpk_file \<Rightarrow> bytes \<Rightarrow> bool) \<Rightarrow> (bytes \<Rightarrow> bytes memory_result) \<Rightarrow>
   (path \<rightharpoonup> bytes) \<Rightarrow> cpk_input_file list \<Rightarrow> cpk_file list \<Rightarrow> bool" where
  "archive_extracts sjis archive is_encrypted_file decrypt_in_place fs files entries \<longleftrightarrow>
     (\<forall>base heap memory.
        let (listed, rd) = get_files sjis (cpk_reader_new base \<lparr>contents = archive, position = 0\<rparr>)
        in listed = Inr entries \<and> length entries = length files \<and>
           (\<forall>i < length files. \<forall>out. Option.bind (fs (source_path (files ! i))) unpacked = Some out \<longrightarrow>
              (\<exists>rd'. extract_file is_encrypted_file decrypt_in_place heap memory rd (entries ! i) =
                 Inr (Inr (out, rd')))))"

lemma decrypted_marked:
  assumes "raw_payload f = None" and "packed_payload (Some t) fs True f = Some packed"
    and "fs (source_path f) = Some plain"
    and "user_string entry = CRI_CFATTR_ENCRYPT \<longleftrightarrow> in_user_string f = CRI_CFATTR_ENCRYPT"
  shows "decrypted P5R_is_encrypted (P5R_decrypt_in_place t) entry packed = plain"
proof (cases "in_user_string f = CRI_CFATTR_ENCRYPT")
  case True
  with assms have "packed = p5r_apply t plain" by (simp add: packed_payload_def)
  then have "P5R_decrypt_in_place t plain = Inr packed"
    by (simp add: P5R_decrypt_eq p5r_apply_def)
  then have "P5R_decrypt_in_place t packed = Inr plain" by (rule p5r.decrypt_twice)
  with True assms(4) show ?thesis by (simp add: decrypted_def P5R_is_encrypted_def)
next
  case False
  with assms show ?thesis by (simp add: packed_payload_def decrypted_def P5R_is_encrypted_def)
qed

lemma decrypted_packed:
  assumes "raw_payload f = None" and "packed_payload (Some t) fs True f = Some packed"
    and "fs (source_path f) = Some plain" and "user_string entry = in_user_string f"
  shows "decrypted P5R_is_encrypted (P5R_decrypt_in_place t) entry packed = plain"
  by (rule decrypted_marked [OF assms(1-3)]) (simp add: assms(4))

lemma user_string_listed [simp]: "user_string (listed_file f off) = in_user_string f"
  by (simp add: listed_file_def cpk_file_new_def)

lemma reads_back_extracts:
  assumes reads: "archive_reads_back sjis archive (Some t) fs True files (map2 listed_file files offsets)"
    and raw: "\<forall>f \<in> set files. raw_payload f = None" and len: "length offsets = length files"
  shows "archive_extracts sjis archive P5R_is_encrypted (P5R_decrypt_in_place t) fs files
    (map2 listed_file files offsets)"
  unfolding archive_extracts_def
proof (intro allI)
  fix base heap :: nat and memory :: "nat \<Rightarrow> u8"
  let ?entries = "map2 listed_file files offsets"
  let ?rd = "cpk_reader_new base \<lparr>contents = archive, position = 0\<rparr>"
  obtain listed rd where g: "get_files sjis ?rd = (listed, rd)" by (cases "get_files sjis ?rd")
  have "listed = Inr ?entries \<and> length ?entries = length files \<and>
      (\<forall>i < length files. \<exists>bs rd'. read_packed_file rd (?entries ! i) = Inr (bs, rd') \<and>
        packed_payload (Some t) fs True (files ! i) = Some bs)"
    using reads [unfolded archive_reads_back_def, THEN spec, of base] unfolding g Let_def prod.case .
  then have l: "listed = Inr ?entries" "length ?entries = length files" and
    read: "\<And>i. i < length files \<Longrightarrow> \<exists>bs rd'. read_packed_file rd (?entries ! i) = Inr (bs, rd') \<and>
      packed_payload (Some t) fs True (files ! i) = Some bs"
    by blast+
  have idle: "reader_idle rd"
    using reader_idle_get_files [of sjis ?rd] reader_idle_new [of base "\<lparr>contents = archive, position = 0\<rparr>"] g
    by simp
  have "\<exists>rd'. extract_file P5R_is_encrypted (P5R_decrypt_in_place t) heap memory rd (?entries ! i) =
      Inr (Inr (out, rd'))"
    if i: "i < length files" and out: "Option.bind (fs (source_path (files ! i))) unpacked = Some out" for i out
  proof -
    from out obtain plain where plain: "fs (source_path (files ! i)) = Some plain" "unpacked plain = Some out"
      by (auto simp: Option.bind_eq_Some_conv)
    from read [OF i] obtain bs rd' where r: "read_packed_file rd (?entries ! i) = Inr (bs, rd')"
      "packed_payload (Some t) fs True (files ! i) = Some bs" by blast
    have "user_string (?entries ! i) = in_user_string (files ! i)" using i len by simp
    with raw i
    have "decrypted P5R_is_encrypted (P5R_decrypt_in_place t) (?entries ! i) bs = plain"
      by (intro decrypted_packed [OF _ r(2) plain(1)]) auto
    with p5r.extract_read [OF idle r(1)] plain(2) show ?thesis by auto
  qed
  with g l show "let (listed, rd) = get_files sjis ?rd
    in listed = Inr ?entries \<and> length ?entries = length files \<and>
      (\<forall>i < length files. \<forall>out. Option.bind (fs (source_path (files ! i))) unpacked = Some out \<longrightarrow>
        (\<exists>rd'. extract_file P5R_is_encrypted (P5R_decrypt_in_place t) heap memory rd (?entries ! i) =
          Inr (Inr (out, rd'))))"
    by simp
qed

end
