(* ===== verification/Listed_Names.thy ===== *)
theory Listed_Names
  imports Manifest
begin

text \<open>
  What a listing promises about its strings: Rust's \<open>String\<close> holds valid UTF-8 only, and the reader
  makes every name either by checking it, by decoding Shift-JIS or by printing an ID.  The Shift-JIS
  decoder is a parameter; that it returns a \<open>String\<close> is the hypothesis of this file.  The metadata
  of a successful listing point to one of the two tables.
\<close>

definition texts_all :: "(rust_string \<Rightarrow> bool) \<Rightarrow> cpk_file \<Rightarrow> bool" where
  "texts_all P f \<longleftrightarrow> P (directory f) \<and> P (file_name f) \<and> P (user_string f)"

definition texts_valid :: "cpk_file \<Rightarrow> bool" where
  "texts_valid f \<longleftrightarrow> utf8_valid (directory f) \<and> utf8_valid (file_name f) \<and> utf8_valid (user_string f)"

text \<open>Everything a table of strings can decode to has the property \<open>P\<close>; no string of a table has a NUL.\<close>

definition decodes_to :: "(rust_string \<Rightarrow> bool) \<Rightarrow> (bytes \<Rightarrow> rust_string) \<Rightarrow> bool" where
  "decodes_to P sjis \<longleftrightarrow>
     P [] \<and> (\<forall>i. P (itoc_file_name i)) \<and>
     (\<forall>encoding bs v. 0 \<notin> set bs \<longrightarrow> decode_string sjis encoding bs = Inr v \<longrightarrow> P v)"

definition pool_all :: "(rust_string \<Rightarrow> bool) \<Rightarrow> high_table \<Rightarrow> bool" where
  "pool_all P t \<longleftrightarrow> (\<forall>offset s. StringPoolFast_get_string (ht_strings t) offset = Some s \<longrightarrow> P s)"

lemma high_table_new_all:
  assumes "decodes_to P sjis" and "high_table_new sjis alloc = Inr t"
  shows "pool_all P t"
proof -
  from assms(2) obtain strings encoding pool where parsed: "parse_strings sjis pool encoding = Inr strings"
    and t: "ht_strings t = StringPoolFast strings"
    by (auto simp: high_table_new_def StringPoolFast_new_borrowed_def Let_def result_iff split: if_splits)
  from parsed obtain ss vs where ss: "\<forall>s \<in> set ss. 0 \<notin> set s"
    and vs: "map_result (decode_string sjis encoding) ss = Inr vs" and strings: "strings = pool_map ss vs"
    by (auto simp: parse_strings_iff_split)
  have "P v" if "v \<in> set vs" for v
    using that ss vs assms(1)
    by (fastforce simp: map_result_Inr_iff list_all2_conv_all_nth decodes_to_def in_set_conv_nth)
  moreover have "ran strings \<subseteq> set vs"
    by (auto simp: strings pool_map_def ran_def dest!: map_of_SomeD set_zip_rightD)
  ultimately show ?thesis by (simp add: t pool_all_def) (meson ranI subsetD)
qed

lemma string_at_all: "pool_all P t \<Longrightarrow> string_at t row col = Some s \<Longrightarrow> P s"
  by (cases "ht_value t row col" rule: option.exhaust)
    (auto simp: string_at_def pool_all_def split: row_value.split_asm if_splits)

lemma toc_row_all:
  assumes "pool_all P toc" and "P []" and "toc_row toc cols i = Inr f"
  shows "texts_all P f"
proof -
  have optional: "P (unwrap_or [] (Option.bind col (string_at toc i)))" for col
    using assms(2) string_at_all [OF assms(1)]
    by (cases "Option.bind col (string_at toc i)") (auto simp: bind_eq_Some_conv)
  from assms(3) string_at_all [OF assms(1)] show ?thesis
    by (auto simp: toc_row_def Let_def result_iff cpk_file_new_def texts_all_def optional)
qed

lemma itoc_files_all: "(\<And>i. P (itoc_file_name i)) \<Longrightarrow> P [] \<Longrightarrow> itoc_files sjis md itoc = Inr fs \<Longrightarrow> \<forall>f \<in> set fs. texts_all P f"
proof -
  assume P: "\<And>i. P (itoc_file_name i)" "P []" and "itoc_files sjis md itoc = Inr fs"
  then obtain rows a off where "materialize_loop (md_content_offset md) a off rows = Inr fs"
    by (auto simp: itoc_files_def materialize_itoc_rows_def Let_def result_iff split: if_splits)
  from materialize_loop_eq [OF this] P show ?thesis
    by (auto simp: in_set_conv_nth file_at_def cpk_file_new_def texts_all_def)
qed

lemma listed_texts_all:
  assumes P: "decodes_to P sjis" and files: "get_files sjis rd = (Inr files, rd')"
  shows "\<forall>f \<in> set files. texts_all P f"
proof -
  have simple: "P []" "P (itoc_file_name i)" for i using P by (simp_all add: decodes_to_def)
  from files consider md rd0 stream where "read_toc sjis md rd0 = Inr (files, stream)"
    | md rd0 stream where "read_itoc sjis md rd0 = Inr (files, stream)"
    by (auto simp: get_files_def Let_def split: sum.splits if_splits prod.splits)
  then show ?thesis
  proof cases
    case 1
    then obtain bs toc where toc: "high_table_new sjis bs = Inr toc" "toc_files toc = Inr files"
      by (auto simp: read_toc_def result_iff split: if_splits)
    from toc(2) toc_row_all [OF high_table_new_all [OF P toc(1)] simple(1)] show ?thesis
      by (fastforce simp: toc_files_def result_iff map_result_Inr_iff list_all2_conv_all_nth in_set_conv_nth)
  next
    case 2
    then obtain toc where "itoc_files sjis md toc = Inr files"
      by (auto simp: read_itoc_def result_iff split: if_splits)
    with itoc_files_all simple show ?thesis by blast
  qed
qed

section \<open>The strings of a listing\<close>

lemma itoc_file_name_ok: "utf8_valid (itoc_file_name i)" "0 \<notin> set (itoc_file_name i)"
proof -
  have digits: "b < 0x80 \<and> b \<noteq> 0" if "b \<in> set (decimal n)" for b n
    using field_text_decimal [of n] that by (auto simp: field_text_def word_less_nat_alt)
  then show "0 \<notin> set (itoc_file_name i)"
    by (auto simp: itoc_file_name_def Let_def ascii_def)
  from digits show "utf8_valid (itoc_file_name i)"
    by (intro utf8_valid_ascii) (auto simp: itoc_file_name_def Let_def ascii_def)
qed

lemma decodes_to_valid: "\<forall>bs. utf8_valid (sjis bs) \<Longrightarrow> decodes_to utf8_valid sjis"
  by (auto simp: decodes_to_def decode_string_def itoc_file_name_ok result_iff split: string_encoding.splits)

lemma decodes_to_unbroken:
  "\<forall>bs. 0 \<notin> set bs \<longrightarrow> 0 \<notin> set (sjis bs) \<Longrightarrow> decodes_to (\<lambda>s. 0 \<notin> set s) sjis"
  by (auto simp: decodes_to_def decode_string_def itoc_file_name_ok from_utf8_def split: string_encoding.splits if_splits)

lemma listed_texts_valid:
  assumes "\<forall>bs. utf8_valid (sjis bs)" and "get_files sjis rd = (Inr files, rd')"
  shows "\<forall>f \<in> set files. texts_valid f"
  using listed_texts_all [OF decodes_to_valid [OF assms(1)] assms(2)] by (simp add: texts_all_def texts_valid_def)

text \<open>So the strings of a listing can be written into another archive.\<close>

lemma listed_texts_ok:
  assumes "\<forall>bs. utf8_valid (sjis bs) \<and> (0 \<notin> set bs \<longrightarrow> 0 \<notin> set (sjis bs))" and "get_files sjis rd = (Inr files, rd')"
  shows "\<forall>f \<in> set files. pool_strings_ok [directory f, file_name f, user_string f]"
  using listed_texts_valid [of sjis, OF _ assms(2)] listed_texts_all [OF decodes_to_unbroken assms(2)] assms(1)
  by (auto simp: texts_all_def texts_valid_def pool_strings_ok_def)

lemma listed_metadata:
  assumes "get_files sjis rd = (Inr files, rd')"
  shows "\<exists>md. rd_metadata rd' = Some md \<and> (md_toc_offset md \<noteq> 0 \<or> md_itoc_offset md \<noteq> 0)"
  using assms by (auto simp: get_files_def Let_def split: sum.splits if_splits prod.splits)

end
