(* ===== verification/Cli.thy ===== *)
theory Cli
  imports Manifest_Inputs Archive_Extract Listed_Names
begin

text \<open>
  \<open>cri-cpk-cli/src/main.rs\<close>: the command line.  Arguments are byte strings, the file system is a map
  from paths to contents which a command returns changed; printing and the progress bar are left
  out.  \<open>unpack_with\<close> is written once for both decryptors, as in the source.  The archive is read
  from the contents it had when it was opened.

  The main results: everything \<open>unpack_with\<close> writes lies below the output directory
  (\<open>unpack_changes_inside\<close>), the manifest it leaves is read back, and every entry of it finds its
  file unchanged (\<open>unpacked_directory\<close>).
\<close>

section \<open>Paths\<close>

definition file_stem_of :: "rust_string \<Rightarrow> rust_string" where
  "file_stem_of name =
     (let parts = split_on 46 name in
      if name = ascii ''..'' \<or> length parts = 1 \<or> butlast parts = [[]] then name
      else joined 46 (butlast parts))"

definition path_or_dot :: "path option \<Rightarrow> path" where
  "path_or_dot p = (case p of None \<Rightarrow> ascii ''.'' | Some q \<Rightarrow> q)"

definition default_unpack_directory :: "path \<Rightarrow> path" where
  "default_unpack_directory input =
     (let stem = (case path_file_name input of None \<Rightarrow> ascii ''unpacked'' | Some n \<Rightarrow> file_stem_of n)
      in path_push (path_or_dot (path_parent input)) stem)"

definition default_pack_file :: "path \<Rightarrow> path" where
  "default_pack_file input =
     (let name = (case path_file_name input of None \<Rightarrow> ascii ''archive'' | Some n \<Rightarrow> n)
      in path_push (path_or_dot (path_parent input)) (file_stem_of name @ ascii ''.cpk''))"

section \<open>Arguments\<close>

definition parse_u16 :: "rust_string \<Rightarrow> u16 cli_result" where
  "parse_u16 v =
     ok_or (Cli InvalidInteger)
       (map_option of_nat
         (if take 2 v = ascii ''0x'' \<or> take 2 v = ascii ''0X''
          then from_str_radix 16 16 (drop 2 v) else from_str_radix 16 10 v))"

definition is_option :: "rust_string \<Rightarrow> bool" where
  "is_option v \<longleftrightarrow> v \<noteq> [] \<and> hd v = 45"

definition unpack_argument ::
  "rust_string list \<times> bool \<Rightarrow> rust_string \<Rightarrow> (rust_string list \<times> bool) cli_result" where
  "unpack_argument s v =
     (let (positional, p5r) = s in
      if v = ascii ''--p5r'' then Inr (positional, True)
      else if is_option v then Inl (Cli (UnknownOption v))
      else Inr (positional @ [v], p5r))"

definition unpack_arguments :: "rust_string list \<Rightarrow> (path \<times> path \<times> bool) cli_result" where
  "unpack_arguments args =
     and_then (fold_result unpack_argument ([], False) args) (\<lambda>(positional, p5r).
       (case positional of
          [input] \<Rightarrow> Inr (input, default_unpack_directory input, p5r)
        | [input, out] \<Rightarrow> Inr (input, out, p5r)
        | _ \<Rightarrow> Inl (Cli Usage)))"

record pack_args =
  pa_positional :: "rust_string list"
  pa_alignment :: "u16 option"
  pa_p5r :: bool
  pa_reuse :: bool

fun pack_arguments_loop :: "pack_args \<Rightarrow> rust_string list \<Rightarrow> pack_args cli_result" where
  "pack_arguments_loop s [] = Inr s"
| "pack_arguments_loop s (v # rest) =
     (if v = ascii ''--align'' then
        (case rest of
           [] \<Rightarrow> Inl (Cli AlignNeedsValue)
         | a # rest \<Rightarrow> and_then (parse_u16 a) (\<lambda>n. pack_arguments_loop (s\<lparr>pa_alignment := Some n\<rparr>) rest))
      else if take 8 v = ascii ''--align='' then
        and_then (parse_u16 (drop 8 v)) (\<lambda>n. pack_arguments_loop (s\<lparr>pa_alignment := Some n\<rparr>) rest)
      else if v = ascii ''--p5r'' then pack_arguments_loop (s\<lparr>pa_p5r := True\<rparr>) rest
      else if v = ascii ''--reuse-raw-entries'' then pack_arguments_loop (s\<lparr>pa_reuse := True\<rparr>) rest
      else if is_option v then Inl (Cli (UnknownOption v))
      else pack_arguments_loop (s\<lparr>pa_positional := pa_positional s @ [v]\<rparr>) rest)"

definition pack_arguments :: "rust_string list \<Rightarrow> (path \<times> path \<times> pack_args) cli_result" where
  "pack_arguments args =
     and_then (pack_arguments_loop
         \<lparr>pa_positional = [], pa_alignment = None, pa_p5r = False, pa_reuse = False\<rparr> args) (\<lambda>s.
       (case pa_positional s of
          [input] \<Rightarrow> Inr (input, default_pack_file input, s)
        | [input, out] \<Rightarrow> Inr (input, out, s)
        | _ \<Rightarrow> Inl (Cli Usage)))"

lemma decimal_digits: "b \<in> set (decimal n) \<Longrightarrow> unat b < 58"
proof (induction n rule: decimal.induct)
  case (1 n)
  have digit: "unat (of_nat (48 + d) :: u8) < 58" if "d < 10" for d
    using unat_digit [of "48 + d"] that by (simp del: of_nat_add)
  show ?case
  proof (cases "n < 10")
    case True
    with "1.prems" digit show ?thesis by (subst (asm) decimal.simps) (simp del: of_nat_add)
  next
    case False
    with "1.prems" "1.IH" digit [of "n mod 10"] show ?thesis
      by (subst (asm) decimal.simps) (auto simp del: of_nat_add)
  qed
qed

lemma parse_u16_prints:
  "parse_u16 (decimal (unat w)) = Inr w \<and> parse_u16 (ascii ''0x'' @ hex 4 (unat w)) = Inr w"
proof
  have x: "x \<notin> set (take 2 (decimal (unat w)))" if "58 \<le> unat x" for x
    using that decimal_digits [of x "unat w"] by (auto dest: in_set_takeD)
  have "120 \<notin> set (take 2 (decimal (unat w)))" "88 \<notin> set (take 2 (decimal (unat w)))"
    by (rule x, simp)+
  then have "take 2 (decimal (unat w)) \<noteq> ascii ''0x''" "take 2 (decimal (unat w)) \<noteq> ascii ''0X''"
    by (auto simp: ascii_def)
  then show "parse_u16 (decimal (unat w)) = Inr w"
    using parse_decimal [of "unat w" 16] unat_lt2p [of w] by (simp add: parse_u16_def)
  show "parse_u16 (ascii ''0x'' @ hex 4 (unat w)) = Inr w"
    using parse_hex [of 4 "unat w" 16] unat_lt2p [of w] by (simp add: parse_u16_def ascii_def)
qed

section \<open>Unpacking\<close>

record unpack_state =
  us_files :: "path \<rightharpoonup> bytes"
  us_reader :: cpk_reader
  us_entries :: "manifest_entry list"

definition unpacked_entry :: "nat \<Rightarrow> cpk_file \<Rightarrow> bytes \<Rightarrow> bytes \<Rightarrow> manifest_entry cli_result" where
  "unpacked_entry index file packed extracted =
     and_then (ok_or (Cli TooManyCpkFiles) (try_from_nat index)) (\<lambda>position_id.
       Inr \<lparr>me_directory = directory file, me_file_name = file_name file,
            me_id = (case id_opt file of Some i \<Rightarrow> i | None \<Rightarrow> position_id),
            me_user_string = user_string file, me_extracted_size = of_nat (length extracted),
            me_extracted_hash = hash_bytes extracted, me_packed_size = file_size file,
            me_packed_offset = absolute_offset file, me_packed_hash = hash_bytes packed\<rparr>)"

definition unpack_file ::
  "(cpk_file \<Rightarrow> bytes \<Rightarrow> bool) \<Rightarrow> (bytes \<Rightarrow> bytes memory_result) \<Rightarrow> nat \<Rightarrow> (nat \<Rightarrow> u8) \<Rightarrow> path \<Rightarrow>
   unpack_state \<Rightarrow> nat \<times> cpk_file \<Rightarrow> unpack_state cli_result" where
  "unpack_file is_encrypted_file decrypt_in_place heap memory out s x =
     (let (index, file) = x in
      case extract_file_with_packed is_encrypted_file decrypt_in_place heap memory (us_reader s) file of
        Inl fault \<Rightarrow> Inl (Memory fault)
      | Inr (Inl e) \<Rightarrow> Inl (Lib e)
      | Inr (Inr ((packed, extracted), rd)) \<Rightarrow>
          and_then (safe_output_path out (directory file) (file_name file)) (\<lambda>destination.
          if same_components destination (Manifest_path out) then Inl (Cli ReservedManifestName)
          else
            and_then (unpacked_entry index file packed extracted) (\<lambda>entry.
              Inr (s\<lparr>us_files := (us_files s)(destination \<mapsto> extracted), us_reader := rd,
                     us_entries := us_entries s @ [entry]\<rparr>))))"

definition unpacked_manifest :: "path \<Rightarrow> u64 \<Rightarrow> u64 \<Rightarrow> bool \<Rightarrow> cpk_metadata \<Rightarrow> manifest_entry list \<Rightarrow> manifest" where
  "unpacked_manifest source archive_size archive_hash p5r md entries =
     \<lparr>mf_source_archive = source, mf_archive_size = archive_size, mf_archive_hash = archive_hash,
      mf_alignment = max (md_align md) 1, mf_has_toc = (md_toc_offset md \<noteq> 0),
      mf_has_itoc = (md_itoc_offset md \<noteq> 0),
      mf_direct_itoc = (md_itoc_offset md \<noteq> 0 \<and> md_eid md \<noteq> 0), mf_p5r = p5r,
      mf_version = md_version md, mf_revision = md_revision md,
      mf_update_date_time = md_update_date_time md, mf_entries = entries\<rparr>"

definition unpack_with ::
  "(bytes \<Rightarrow> rust_string) \<Rightarrow> (nat \<Rightarrow> nat) \<Rightarrow> host \<Rightarrow> nat \<Rightarrow> nat \<Rightarrow> (nat \<Rightarrow> u8) \<Rightarrow>
   (cpk_file \<Rightarrow> bytes \<Rightarrow> bool) \<Rightarrow> (bytes \<Rightarrow> bytes memory_result) \<Rightarrow> (path \<rightharpoonup> bytes) \<Rightarrow> path \<Rightarrow> path \<Rightarrow> bool \<Rightarrow>
   (path \<rightharpoonup> bytes) cli_result" where
  "unpack_with sjis avail h slab_address heap memory is_encrypted_file decrypt_in_place fs input out p5r =
     (let source_archive = absolute_path h input in
      and_then (hash_file avail input fs) (\<lambda>(archive_size, archive_hash).
      and_then (ok_or (Lib (Io NotFound)) (fs input)) (\<lambda>archive.
      let (listed, rd) = get_files sjis (cpk_reader_new slab_address \<lparr>contents = archive, position = 0\<rparr>) in
      and_then (case listed of Inl e \<Rightarrow> Inl (Lib e) | Inr files \<Rightarrow> Inr files) (\<lambda>files.
      and_then (ok_or (Cli MetadataUnavailable) (rd_metadata rd)) (\<lambda>md.
      and_then (fold_result (unpack_file is_encrypted_file decrypt_in_place heap memory out)
          \<lparr>us_files = fs, us_reader = rd, us_entries = []\<rparr> (enumerate 0 files)) (\<lambda>s.
        Inr (Manifest_write
          (unpacked_manifest source_archive archive_size archive_hash p5r md (us_entries s))
          out (us_files s))))))))"

section \<open>Packing\<close>

definition run_pack ::
  "(nat \<Rightarrow> nat) \<Rightarrow> host \<Rightarrow> target option \<Rightarrow> (path \<rightharpoonup> bytes) \<Rightarrow> rust_string list \<Rightarrow>
   (path \<rightharpoonup> bytes) cli_result option" where
  "run_pack avail h p5r fs args =
     (case pack_arguments args of
        Inl e \<Rightarrow> Some (Inl e)
      | Inr (input, out, s) \<Rightarrow>
     (case Manifest_read input fs of
        Inl e \<Rightarrow> Some (Inl e)
      | Inr (Some m) \<Rightarrow>
          if pa_reuse s \<and> same_path h (mf_source_archive m) out then Some (Inl (Cli ReuseOverwritesSource))
          else map_option (\<lambda>inputs.
            and_then inputs (\<lambda>files.
            if files = [] then Inl (Cli NoPackableFiles)
            else
              and_then (writer_profile m) (\<lambda>profile.
                case pack_files_with_profile p5r fs out files
                    \<lparr>alignment = (case pa_alignment s of Some a \<Rightarrow> a | None \<Rightarrow> max (mf_alignment m) 1),
                     p5r_encryption = (mf_p5r m \<or> pa_p5r s)\<rparr> profile of
                  Inl e \<Rightarrow> Inl (Lib e)
                | Inr (report, fs') \<Rightarrow> Inr fs')))
            (build_inputs avail h m fs input out (pa_reuse s))
      | Inr None \<Rightarrow>
          if pa_reuse s then Some (Inl (Cli ReuseNeedsManifest))
          else map_option (\<lambda>r. case r of Inl e \<Rightarrow> Inl (Lib e) | Inr (report, fs') \<Rightarrow> Inr fs')
            (pack_directory h p5r fs input out
              \<lparr>alignment = (case pa_alignment s of Some a \<Rightarrow> a | None \<Rightarrow> 0x800),
               p5r_encryption = pa_p5r s\<rparr>)))"

section \<open>The command\<close>

definition run_unpack ::
  "(bytes \<Rightarrow> rust_string) \<Rightarrow> (nat \<Rightarrow> nat) \<Rightarrow> host \<Rightarrow> nat \<Rightarrow> nat \<Rightarrow> (nat \<Rightarrow> u8) \<Rightarrow> target \<Rightarrow>
   (path \<rightharpoonup> bytes) \<Rightarrow> rust_string list \<Rightarrow> (path \<rightharpoonup> bytes) cli_result" where
  "run_unpack sjis avail h slab_address heap memory t fs args =
     and_then (unpack_arguments args) (\<lambda>(input, out, p5r).
       if p5r
       then unpack_with sjis avail h slab_address heap memory P5R_is_encrypted (P5R_decrypt_in_place t)
              fs input out True
       else unpack_with sjis avail h slab_address heap memory Dummy_is_encrypted Dummy_decrypt_in_place
              fs input out False)"

definition to_ascii_lowercase :: "rust_string \<Rightarrow> rust_string" where
  "to_ascii_lowercase s = map (\<lambda>b. if 65 \<le> b \<and> b \<le> 90 then b + 32 else b) s"

definition ends_with :: "rust_string \<Rightarrow> rust_string \<Rightarrow> bool" where
  "ends_with s e \<longleftrightarrow> length e \<le> length s \<and> drop (length s - length e) s = e"

definition run ::
  "(bytes \<Rightarrow> rust_string) \<Rightarrow> (nat \<Rightarrow> nat) \<Rightarrow> host \<Rightarrow> nat \<Rightarrow> nat \<Rightarrow> (nat \<Rightarrow> u8) \<Rightarrow> target \<Rightarrow> target option \<Rightarrow>
   (path \<rightharpoonup> bytes) \<Rightarrow> rust_string list \<Rightarrow> (path \<rightharpoonup> bytes) cli_result option" where
  "run sjis avail h slab_address heap memory t p5r fs args =
     (case args of
        [] \<Rightarrow> Some (Inr fs)
      | command # rest \<Rightarrow>
          if command = ascii ''unpack''
          then Some (run_unpack sjis avail h slab_address heap memory t fs rest)
          else if command = ascii ''pack'' then run_pack avail h p5r fs rest
          else if command \<in> {ascii ''help'', ascii ''--help'', ascii ''-h''} then Some (Inr fs)
          else if ends_with (to_ascii_lowercase command) (ascii ''.cpk'')
          then Some (run_unpack sjis avail h slab_address heap memory t fs args)
          else Some (Inl (Cli ExpectedCommand)))"

section \<open>Where unpacking writes\<close>

text \<open>A path below a root, by its components: no \<open>..\<close>, no other root.\<close>

definition inside :: "path \<Rightarrow> path \<Rightarrow> bool" where
  "inside root p \<longleftrightarrow>
     (\<exists>vs. path_components p = path_components root @ map Normal vs \<and> (\<forall>v \<in> set vs. plain_part v))"

definition destination_of :: "path \<Rightarrow> cpk_file \<Rightarrow> path cli_result" where
  "destination_of out file = safe_output_path out (directory file) (file_name file)"

definition temporary_path :: "path \<Rightarrow> path" where
  "temporary_path out = Manifest_path out @ ascii ''.tmp''"

lemma inside_push: "plain_part v \<Longrightarrow> inside root (path_push root v)"
  unfolding inside_def by (rule exI [of _ "[v]"]) (simp add: components_push)

lemma inside_destination: "destination_of out file = Inr p \<Longrightarrow> inside out p"
  unfolding destination_of_def inside_def by (rule safe_output_components)

lemma inside_manifest: "inside out (Manifest_path out)" "inside out (temporary_path out)"
proof -
  have plain: "plain_part MANIFEST_FILE_NAME" "plain_part (MANIFEST_FILE_NAME @ ascii ''.tmp'')"
    by (simp_all add: plain_part_def MANIFEST_FILE_NAME_def ascii_def SLASH_def)
  then show "inside out (Manifest_path out)" by (simp add: Manifest_path_def inside_push)
  have "temporary_path out = path_push out (MANIFEST_FILE_NAME @ ascii ''.tmp'')"
    by (simp add: temporary_path_def Manifest_path_def path_push_def MANIFEST_FILE_NAME_def ascii_def SLASH_def)
  with plain show "inside out (temporary_path out)" by (simp add: inside_push)
qed

text \<open>One entry: what is written and what is recorded.\<close>

definition recorded_as :: "path \<Rightarrow> (path \<rightharpoonup> bytes) \<Rightarrow> nat \<times> cpk_file \<Rightarrow> manifest_entry \<Rightarrow> bool" where
  "recorded_as out fs x e \<longleftrightarrow>
     (let (index, file) = x in
      me_directory e = directory file \<and> me_file_name e = file_name file \<and>
      me_user_string e = user_string file \<and>
      me_id e = (case id_opt file of Some i \<Rightarrow> i | None \<Rightarrow> of_nat index) \<and>
      me_packed_size e = file_size file \<and> me_packed_offset e = absolute_offset file \<and>
      (\<exists>p bs. destination_of out file = Inr p \<and> \<not> same_components p (Manifest_path out) \<and>
        fs p = Some bs \<and> me_extracted_size e = of_nat (length bs) \<and> me_extracted_hash e = hash_bytes bs))"

lemma unpack_file_Inr:
  assumes "unpack_file is_encrypted_file decrypt_in_place heap memory out s (index, file) = Inr s'"
  obtains packed extracted rd p entry where
    "extract_file_with_packed is_encrypted_file decrypt_in_place heap memory (us_reader s) file =
       Inr (Inr ((packed, extracted), rd))"
    and "destination_of out file = Inr p" and "\<not> same_components p (Manifest_path out)"
    and "unpacked_entry index file packed extracted = Inr entry"
    and "s' = s\<lparr>us_files := (us_files s)(p \<mapsto> extracted), us_reader := rd, us_entries := us_entries s @ [entry]\<rparr>"
  using assms by (auto simp: unpack_file_def destination_of_def result_iff split: sum.splits if_splits)

lemma unpacked_entry_recorded:
  assumes "unpacked_entry index file packed extracted = Inr e"
    and "destination_of out file = Inr p" and "\<not> same_components p (Manifest_path out)"
    and "fs p = Some extracted"
  shows "recorded_as out fs (index, file) e"
  using assms by (auto simp: unpacked_entry_def recorded_as_def result_iff split: option.split)

lemma recorded_elsewhere:
  assumes "recorded_as out fs x e" and "destination_of out (snd x) \<noteq> Inr p"
  shows "recorded_as out (fs(p := v)) x e"
  using assms by (fastforce simp: recorded_as_def)

lemma unpack_files_Inr:
  assumes "fold_result (unpack_file is_encrypted_file decrypt_in_place heap memory out)
      \<lparr>us_files = fs, us_reader = rd, us_entries = []\<rparr> xs = Inr s"
  shows "(\<forall>p. us_files s p \<noteq> fs p \<longrightarrow> inside out p) \<and>
    (distinct (map (destination_of out \<circ> snd) xs) \<longrightarrow> list_all2 (recorded_as out (us_files s)) xs (us_entries s))"
proof (rule fold_result_invariant [OF assms, where P = "\<lambda>xs s.
    (\<forall>p. us_files s p \<noteq> fs p \<longrightarrow> inside out p) \<and>
    (distinct (map (destination_of out \<circ> snd) xs) \<longrightarrow> list_all2 (recorded_as out (us_files s)) xs (us_entries s))"])
  fix ys y zs u v
  assume IH: "(\<forall>p. us_files u p \<noteq> fs p \<longrightarrow> inside out p) \<and>
      (distinct (map (destination_of out \<circ> snd) ys) \<longrightarrow> list_all2 (recorded_as out (us_files u)) ys (us_entries u))"
    and step: "unpack_file is_encrypted_file decrypt_in_place heap memory out u y = Inr v"
  obtain index "file" where y: "y = (index, file)" by (cases y)
  from unpack_file_Inr [OF step [unfolded y]] obtain packed extracted rd' p entry where
    p: "destination_of out file = Inr p" "\<not> same_components p (Manifest_path out)"
    and entry: "unpacked_entry index file packed extracted = Inr entry"
    and v: "v = u\<lparr>us_files := (us_files u)(p \<mapsto> extracted), us_reader := rd', us_entries := us_entries u @ [entry]\<rparr>"
    by metis
  have "list_all2 (recorded_as out (us_files v)) (ys @ [y]) (us_entries v)"
    if d: "distinct (map (destination_of out \<circ> snd) (ys @ [y]))"
  proof -
    have old: "list_all2 (recorded_as out (us_files u)) ys (us_entries u)" using IH d by simp
    have away: "destination_of out (snd x) \<noteq> Inr p" if "x \<in> set ys" for x
      using d that y p(1) by (auto simp: image_iff)
    have "list_all2 (recorded_as out (us_files v)) ys (us_entries u)"
      using old away by (auto simp: v intro: recorded_elsewhere elim!: list.rel_mono_strong)
    moreover have "recorded_as out (us_files v) y entry"
      unfolding y by (rule unpacked_entry_recorded [OF entry p]) (simp add: v)
    ultimately show ?thesis by (simp add: v list_all2_appendI)
  qed
  moreover have "\<forall>q. us_files v q \<noteq> fs q \<longrightarrow> inside out q"
    using IH v inside_destination [OF p(1)] by auto
  ultimately show "(\<forall>q. us_files v q \<noteq> fs q \<longrightarrow> inside out q) \<and>
      (distinct (map (destination_of out \<circ> snd) (ys @ [y])) \<longrightarrow>
        list_all2 (recorded_as out (us_files v)) (ys @ [y]) (us_entries v))"
    by blast
qed simp

lemma unpack_with_Inr:
  assumes "unpack_with sjis avail h slab_address heap memory is_encrypted_file decrypt_in_place fs input out p5r = Inr fs'"
  obtains archive files rd md s where "fs input = Some archive"
    and "get_files sjis (cpk_reader_new slab_address \<lparr>contents = archive, position = 0\<rparr>) = (Inr files, rd)"
    and "rd_metadata rd = Some md"
    and "fold_result (unpack_file is_encrypted_file decrypt_in_place heap memory out)
      \<lparr>us_files = fs, us_reader = rd, us_entries = []\<rparr> (enumerate 0 files) = Inr s"
    and "fs' = Manifest_write (unpacked_manifest (absolute_path h input) (of_nat (length archive))
      (hash_bytes archive) p5r md (us_entries s)) out (us_files s)"
proof -
  from assms obtain archive where archive: "fs input = Some archive"
    by (auto simp: unpack_with_def result_iff hash_file_eq split: option.splits)
  obtain listed rd where g: "get_files sjis (cpk_reader_new slab_address \<lparr>contents = archive, position = 0\<rparr>) = (listed, rd)"
    by (cases "get_files sjis (cpk_reader_new slab_address \<lparr>contents = archive, position = 0\<rparr>)")
  from assms archive g obtain files where "listed = Inr files"
    by (cases listed) (auto simp: unpack_with_def result_iff hash_file_eq)
  with assms archive g that show thesis
    by (auto simp: unpack_with_def result_iff hash_file_eq)
qed

lemma unpack_changes_inside:
  assumes "unpack_with sjis avail h slab_address heap memory is_encrypted_file decrypt_in_place fs input out p5r = Inr fs'"
    and "fs' p \<noteq> fs p"
  shows "inside out p"
proof -
  from unpack_with_Inr [OF assms(1)] obtain archive files rd md s m where
    s: "fold_result (unpack_file is_encrypted_file decrypt_in_place heap memory out)
      \<lparr>us_files = fs, us_reader = rd, us_entries = []\<rparr> (enumerate 0 files) = Inr s"
    and fs': "fs' = Manifest_write m out (us_files s)"
    by metis
  show ?thesis
  proof (cases "p = Manifest_path out \<or> p = temporary_path out")
    case True
    with inside_manifest show ?thesis by blast
  next
    case False
    then have "fs' p = us_files s p"
      unfolding fs' by (intro manifest_write_elsewhere(1)) (simp_all add: temporary_path_def)
    with unpack_files_Inr [OF s] assms(2) show ?thesis by auto
  qed
qed

lemma unpack_leaves_no_temporary:
  assumes "unpack_with sjis avail h slab_address heap memory is_encrypted_file decrypt_in_place fs input out p5r = Inr fs'"
  shows "fs' (temporary_path out) = None"
  using unpack_with_Inr [OF assms] manifest_write_elsewhere(2)
  by (metis temporary_path_def)

section \<open>What unpacking leaves\<close>

lemma recorded_entry_ok: "recorded_as out fs x e \<Longrightarrow> texts_valid (snd x) \<Longrightarrow> manifest_entry_ok e"
  by (cases x) (auto simp: recorded_as_def texts_valid_def manifest_entry_ok_def)

lemma recorded_cong:
  assumes "recorded_as out fs x e" and "\<And>p. destination_of out (snd x) = Inr p \<Longrightarrow>
    \<not> same_components p (Manifest_path out) \<Longrightarrow> fs' p = fs p"
  shows "recorded_as out fs' x e"
  using assms by (fastforce simp: recorded_as_def)

lemma unpacked_directory_manifest:
  assumes un: "unpack_with sjis avail h slab_address heap memory is_encrypted_file decrypt_in_place fs input out p5r = Inr fs'"
    and archive: "fs input = Some archive"
    and files: "get_files sjis (cpk_reader_new slab_address \<lparr>contents = archive, position = 0\<rparr>) = (Inr files, rd)"
    and sjis: "\<forall>bs. utf8_valid (sjis bs)" and source: "utf8_valid (absolute_path h input)"
    and distinct: "distinct (map (destination_of out) files)"
    and no_tmp: "Inr (temporary_path out) \<notin> set (map (destination_of out) files)"
  shows "\<exists>md es. rd_metadata rd = Some md \<and>
    Manifest_read out fs' = Inr (Some (unpacked_manifest (absolute_path h input) (of_nat (length archive))
      (hash_bytes archive) p5r md es)) \<and> list_all2 (recorded_as out fs') (enumerate 0 files) es"
proof -
  let ?m = "\<lambda>md s. unpacked_manifest (absolute_path h input) (of_nat (length archive)) (hash_bytes archive) p5r md (us_entries s)"
  from unpack_with_Inr [OF un] archive files obtain md s where md: "rd_metadata rd = Some md"
    and s: "fold_result (unpack_file is_encrypted_file decrypt_in_place heap memory out)
      \<lparr>us_files = fs, us_reader = rd, us_entries = []\<rparr> (enumerate 0 files) = Inr s"
    and fs': "fs' = Manifest_write (?m md s) out (us_files s)"
    by (metis option.inject prod.inject sum.inject(2))
  have snds: "map (destination_of out \<circ> snd) (enumerate 0 files) = map (destination_of out) files"
    by (metis map_map map_snd_enumerate)
  with unpack_files_Inr [OF s] distinct
  have all: "list_all2 (recorded_as out (us_files s)) (enumerate 0 files) (us_entries s)" by simp
  have listed: "snd x \<in> set files" if "x \<in> set (enumerate 0 files)" for x
    using that by (metis image_eqI map_snd_enumerate set_map)
  have "manifest_entry_ok e" if "e \<in> set (us_entries s)" for e
  proof -
    from all that obtain x where "x \<in> set (enumerate 0 files)" "recorded_as out (us_files s) x e"
      by (metis (no_types, lifting) in_set_conv_nth list_all2_conv_all_nth)
    with listed listed_texts_valid [OF sjis files] recorded_entry_ok show ?thesis by blast
  qed
  moreover from listed_metadata [OF files] md have "md_toc_offset md \<noteq> 0 \<or> md_itoc_offset md \<noteq> 0" by simp
  ultimately have "manifest_ok (?m md s)"
    using source by (auto simp: manifest_ok_def unpacked_manifest_def list_all_iff)
  from manifest_reads_back [OF this] have "Manifest_read out fs' = Inr (Some (?m md s))"
    unfolding fs' .
  moreover have "list_all2 (recorded_as out fs') (enumerate 0 files) (us_entries s)"
  proof (rule list.rel_mono_strong [OF all])
    fix x e assume x: "x \<in> set (enumerate 0 files)" and r: "recorded_as out (us_files s) x e"
    show "recorded_as out fs' x e"
    proof (rule recorded_cong [OF r])
      fix p assume "destination_of out (snd x) = Inr p" "\<not> same_components p (Manifest_path out)"
      with no_tmp listed [OF x] have "p \<noteq> Manifest_path out" "p \<noteq> temporary_path out"
        by (auto simp: same_components_def) (metis image_eqI)
      then show "fs' p = us_files s p"
        unfolding fs' by (intro manifest_write_elsewhere(1)) (simp_all add: temporary_path_def)
    qed
  qed
  ultimately show ?thesis using md by blast
qed

lemma unpacked_directory:
  assumes "unpack_with sjis avail h slab_address heap memory is_encrypted_file decrypt_in_place fs input out p5r = Inr fs'"
    and "fs input = Some archive"
    and "get_files sjis (cpk_reader_new slab_address \<lparr>contents = archive, position = 0\<rparr>) = (Inr files, rd)"
    and "\<forall>bs. utf8_valid (sjis bs)" and "utf8_valid (absolute_path h input)"
    and "distinct (map (destination_of out) files)"
    and "Inr (temporary_path out) \<notin> set (map (destination_of out) files)"
  shows "\<exists>m. Manifest_read out fs' = Inr (Some m) \<and> mf_source_archive m = absolute_path h input \<and>
    mf_archive_size m = of_nat (length archive) \<and> mf_archive_hash m = hash_bytes archive \<and> mf_p5r m = p5r \<and>
    list_all2 (recorded_as out fs') (enumerate 0 files) (mf_entries m)"
  using unpacked_directory_manifest [OF assms] by (auto simp: unpacked_manifest_def)

text \<open>A rebuild that finds such an entry takes it as unchanged and reuses its packed bytes.\<close>

lemma recorded_reused:
  assumes "recorded_as out fs x e" and "safe_relative_path (me_directory e) (me_file_name e) = Inr r"
    and "unat (me_extracted_size e) < 2 ^ 32"
  shows "is_present fs out e" and "known_input avail m fs True e (path_push out r) =
    Inr \<lparr>in_directory = me_directory e, in_file_name = me_file_name e, source_path = path_push out r,
         in_size = me_packed_size e, in_extract_size = ucast (me_extracted_size e), in_id = me_id e,
         in_user_string = me_user_string e,
         raw_payload = Some \<lparr>archive_path = mf_source_archive m,
           raw_absolute_offset = me_packed_offset e, raw_size = me_packed_size e\<rparr>\<rparr>"
proof -
  obtain index "file" where x: "x = (index, file)" by (cases x)
  from assms(1) [unfolded x] safe_paths_agree [OF assms(2), of out]
  obtain bs where bs: "fs (path_push out r) = Some bs" "me_extracted_size e = of_nat (length bs)"
    "me_extracted_hash e = hash_bytes bs"
    by (auto simp: recorded_as_def destination_of_def)
  with assms(2) show "is_present fs out e" by (auto simp: is_present_def)
  show "known_input avail m fs True e (path_push out r) =
    Inr \<lparr>in_directory = me_directory e, in_file_name = me_file_name e, source_path = path_push out r,
         in_size = me_packed_size e, in_extract_size = ucast (me_extracted_size e), in_id = me_id e,
         in_user_string = me_user_string e,
         raw_payload = Some \<lparr>archive_path = mf_source_archive m,
           raw_absolute_offset = me_packed_offset e, raw_size = me_packed_size e\<rparr>\<rparr>"
    using assms(3) bs by (simp add: known_input_def hash_file_eq u32_or_def try_from_word_def raw_payload_of_def Let_def)
qed

end
