(* ===== verification/Unpack_Round_Trip.thy ===== *)
theory Unpack_Round_Trip
  imports Cli
begin

text \<open>
  The command line over the library: unpacking an archive that lists and reads back its files
  succeeds and puts every file, decrypted and decompressed, at its place (\<open>unpack_with_restores\<close>);
  \<open>unpack_written\<close> applies this to the archives of the writer, with any index and either decryptor.
  Reading an entry seeks first, so the reader of the source can be used for one entry after the
  other (\<open>read_packed_again\<close>).
\<close>

section \<open>One reader for all entries\<close>

definition same_archive :: "cpk_reader \<Rightarrow> cpk_reader \<Rightarrow> bool" where
  "same_archive rd rd' \<longleftrightarrow>
     contents (rd_stream rd) = contents (rd_stream rd') \<and> rd_start_pos rd = rd_start_pos rd' \<and>
     rd_metadata rd = rd_metadata rd'"

lemma same_archive_refl [simp]: "same_archive rd rd"
  by (simp add: same_archive_def)

lemma read_packed_again:
  assumes "same_archive rd0 rd" and "read_packed_file rd0 file = Inr (bs, rd')"
  shows "\<exists>rd''. read_packed_file rd file = Inr (bs, rd'') \<and> same_archive rd0 rd''"
  using assms
  by (auto simp: read_packed_file_def same_archive_def Let_def result_iff seek_start_def read_exact_def
      split: if_splits)

definition lands :: "path \<Rightarrow> cpk_file \<Rightarrow> path \<Rightarrow> bool" where
  "lands out file p \<longleftrightarrow>
     destination_of out file = Inr p \<and> \<not> same_components p (Manifest_path out) \<and> p \<noteq> temporary_path out"

context file_decryptor
begin

definition extracts_to :: "cpk_reader \<Rightarrow> cpk_file \<Rightarrow> bytes \<Rightarrow> bool" where
  "extracts_to rd file extracted \<longleftrightarrow>
     (\<exists>packed rd'. read_packed_file rd file = Inr (packed, rd') \<and>
        unpacked (decrypted is_encrypted_file decrypt_in_place file packed) = Some extracted)"

lemma unpack_file_succeeds:
  assumes idle: "reader_idle (us_reader s)" and same: "same_archive rd0 (us_reader s)"
    and ext: "extracts_to rd0 file extracted" and p: "lands out file p" and index: "index < 2 ^ 32"
  shows "\<exists>rd entry. unpack_file is_encrypted_file decrypt_in_place heap memory out s (index, file) =
      Inr (s\<lparr>us_files := (us_files s)(p \<mapsto> extracted), us_reader := rd, us_entries := us_entries s @ [entry]\<rparr>) \<and>
    reader_idle rd \<and> same_archive rd0 rd"
proof -
  from ext obtain packed rd1 where r: "read_packed_file rd0 file = Inr (packed, rd1)"
    and u: "unpacked (decrypted is_encrypted_file decrypt_in_place file packed) = Some extracted"
    by (auto simp: extracts_to_def)
  from read_packed_again [OF same r] obtain rd where r': "read_packed_file (us_reader s) file = Inr (packed, rd)"
    and same': "same_archive rd0 rd" by blast
  have x: "extract_file_with_packed is_encrypted_file decrypt_in_place heap memory (us_reader s) file =
      Inr (Inr ((packed, extracted), rd))"
    by (simp add: extract_with_packed_eq [OF idle] r' u)
  have "reader_idle rd" using idle read_packed_keeps_list [OF r'] by (simp add: reader_idle_def)
  moreover from index obtain e where "unpacked_entry index file packed extracted = Inr e"
    by (auto simp: unpacked_entry_def try_from_nat_def)
  ultimately show ?thesis
    using x p same' by (auto simp: unpack_file_def lands_def destination_of_def)
qed

lemma unpack_files_succeed:
  assumes "reader_idle (us_reader s)" and "same_archive rd0 (us_reader s)"
    and "\<forall>(i, file) \<in> set xs. i < 2 ^ 32 \<and> (\<exists>p. lands out file p) \<and> (\<exists>bs. extracts_to rd0 file bs)"
  shows "\<exists>s'. fold_result (unpack_file is_encrypted_file decrypt_in_place heap memory out) s xs = Inr s' \<and>
    (\<forall>q. Inr q \<notin> destination_of out ` snd ` set xs \<longrightarrow> us_files s' q = us_files s q) \<and>
    (distinct (map (destination_of out \<circ> snd) xs) \<longrightarrow>
      (\<forall>(i, file) \<in> set xs. \<forall>p bs. lands out file p \<longrightarrow> extracts_to rd0 file bs \<longrightarrow> us_files s' p = Some bs))"
  using assms
proof (induction xs arbitrary: s)
  case (Cons x xs)
  obtain i "file" where x: "x = (i, file)" by (cases x)
  from Cons.prems(3) obtain p extracted where i: "i < 2 ^ 32" and p: "lands out file p"
    and ext: "extracts_to rd0 file extracted"
    by (auto simp: x)
  from unpack_file_succeeds [OF Cons.prems(1,2) ext p i] obtain rd entry where
    step: "unpack_file is_encrypted_file decrypt_in_place heap memory out s x =
      Inr (s\<lparr>us_files := (us_files s)(p \<mapsto> extracted), us_reader := rd, us_entries := us_entries s @ [entry]\<rparr>)"
    and idle: "reader_idle rd" and same: "same_archive rd0 rd"
    unfolding x by blast
  let ?s = "s\<lparr>us_files := (us_files s)(p \<mapsto> extracted), us_reader := rd, us_entries := us_entries s @ [entry]\<rparr>"
  have ready: "reader_idle (us_reader ?s)" "same_archive rd0 (us_reader ?s)"
    "\<forall>(i, file) \<in> set xs. i < 2 ^ 32 \<and> (\<exists>p. lands out file p) \<and> (\<exists>bs. extracts_to rd0 file bs)"
    using idle same Cons.prems(3) by auto
  from Cons.IH [OF ready] obtain s' where
    rest: "fold_result (unpack_file is_encrypted_file decrypt_in_place heap memory out) ?s xs = Inr s'"
    and away: "\<forall>q. Inr q \<notin> destination_of out ` snd ` set xs \<longrightarrow> us_files s' q = us_files ?s q"
    and there: "distinct (map (destination_of out \<circ> snd) xs) \<longrightarrow>
      (\<forall>(i, file) \<in> set xs. \<forall>p bs. lands out file p \<longrightarrow> extracts_to rd0 file bs \<longrightarrow> us_files s' p = Some bs)"
    by blast
  have dest: "destination_of out file = Inr p" using p by (simp add: lands_def)
  have "us_files s' q = Some bs"
    if "distinct (map (destination_of out \<circ> snd) (x # xs))" "lands out file q" "extracts_to rd0 file bs" for q bs
  proof -
    have "q = p" "bs = extracted" using that(2,3) p ext by (auto simp: lands_def extracts_to_def)
    moreover have "Inr p \<notin> destination_of out ` snd ` set xs" using that(1) dest by (auto simp: x image_iff)
    ultimately show ?thesis using away by simp
  qed
  then have "distinct (map (destination_of out \<circ> snd) (x # xs)) \<longrightarrow>
      (\<forall>(i, file) \<in> set (x # xs). \<forall>p bs. lands out file p \<longrightarrow> extracts_to rd0 file bs \<longrightarrow> us_files s' p = Some bs)"
    using there by (auto simp: x)
  moreover have "\<forall>q. Inr q \<notin> destination_of out ` snd ` set (x # xs) \<longrightarrow> us_files s' q = us_files s q"
    using away dest by (auto simp: x)
  moreover have "fold_result (unpack_file is_encrypted_file decrypt_in_place heap memory out) s (x # xs) = Inr s'"
    using step rest by simp
  ultimately show ?case by blast
qed simp

lemma unpack_with_restores:
  assumes archive: "fs input = Some archive"
    and files: "get_files sjis (cpk_reader_new slab_address \<lparr>contents = archive, position = 0\<rparr>) = (Inr files, rd)"
    and few: "length files \<le> 2 ^ 32"
    and good: "\<forall>file \<in> set files. (\<exists>p. lands out file p) \<and> (\<exists>bs. extracts_to rd file bs)"
    and distinct: "distinct (map (destination_of out) files)"
  shows "\<exists>fs'. unpack_with sjis avail h slab_address heap memory is_encrypted_file decrypt_in_place fs input out p5r = Inr fs' \<and>
    (\<forall>file \<in> set files. \<forall>p bs. lands out file p \<longrightarrow> extracts_to rd file bs \<longrightarrow> fs' p = Some bs)"
proof -
  from listed_metadata [OF files] obtain md where md: "rd_metadata rd = Some md" by blast
  have idle: "reader_idle rd"
    using reader_idle_get_files [of sjis "cpk_reader_new slab_address \<lparr>contents = archive, position = 0\<rparr>"]
      reader_idle_new files by simp
  let ?s = "\<lparr>us_files = fs, us_reader = rd, us_entries = []\<rparr>"
  have "\<forall>(i, file) \<in> set (enumerate 0 files). i < 2 ^ 32 \<and> (\<exists>p. lands out file p) \<and> (\<exists>bs. extracts_to rd file bs)"
    using few good by (fastforce simp: in_set_enumerate_eq)
  moreover have snds: "map (destination_of out \<circ> snd) (enumerate 0 files) = map (destination_of out) files"
    by (metis map_map map_snd_enumerate)
  ultimately obtain s where
    s: "fold_result (unpack_file is_encrypted_file decrypt_in_place heap memory out) ?s (enumerate 0 files) = Inr s"
    and there: "\<forall>(i, file) \<in> set (enumerate 0 files). \<forall>p bs. lands out file p \<longrightarrow> extracts_to rd file bs \<longrightarrow> us_files s p = Some bs"
    using unpack_files_succeed [where s = ?s and xs = "enumerate 0 files" and ?rd0.0 = rd and out = out
        and heap = heap and memory = memory] idle distinct
    by auto
  obtain m where un: "unpack_with sjis avail h slab_address heap memory is_encrypted_file decrypt_in_place fs input out p5r =
      Inr (Manifest_write m out (us_files s))"
    using archive files md s by (simp add: unpack_with_def hash_file_eq)
  have "Manifest_write m out (us_files s) p = Some bs"
    if "file \<in> set files" and p: "lands out file p" and "extracts_to rd file bs" for "file" p bs
  proof -
    from that(1) obtain i where "(i, file) \<in> set (enumerate 0 files)"
      by (metis in_set_impl_in_set_zip2 enumerate_eq_zip length_upt add_diff_cancel_left')
    with there that have "us_files s p = Some bs" by fastforce
    moreover have "p \<noteq> Manifest_path out" "p \<noteq> temporary_path out"
      using p by (auto simp: lands_def same_components_def)
    ultimately show ?thesis by (simp add: manifest_write_elsewhere(1) temporary_path_def)
  qed
  with un show ?thesis by blast
qed

end

section \<open>The command line\<close>

text \<open>The decryptor the command line chooses, as an instance of the interface.\<close>

definition cli_is_encrypted :: "bool \<Rightarrow> cpk_file \<Rightarrow> bytes \<Rightarrow> bool" where
  "cli_is_encrypted p5r = (if p5r then P5R_is_encrypted else Dummy_is_encrypted)"

definition cli_decrypt :: "bool \<Rightarrow> target \<Rightarrow> bytes \<Rightarrow> bytes memory_result" where
  "cli_decrypt p5r t = (if p5r then P5R_decrypt_in_place t else Dummy_decrypt_in_place)"

interpretation cli: file_decryptor "cli_is_encrypted p5r" "cli_decrypt p5r t" for p5r t
proof (cases p5r)
  case True
  then show "file_decryptor (cli_decrypt p5r t)"
    using p5r.file_decryptor_axioms by (simp add: cli_decrypt_def)
next
  case False
  then show "file_decryptor (cli_decrypt p5r t)"
    using dummy.file_decryptor_axioms by (simp add: cli_decrypt_def)
qed

definition p5r_option :: "bool \<Rightarrow> rust_string list" where
  "p5r_option p5r = (if p5r then [ascii ''--p5r''] else [])"

lemma run_unpack_plain:
  "\<not> is_option input \<Longrightarrow> \<not> is_option root \<Longrightarrow>
   run_unpack sjis avail h slab_address heap memory t fs ([input, root] @ p5r_option p5r) =
     unpack_with sjis avail h slab_address heap memory (cli_is_encrypted p5r) (cli_decrypt p5r t) fs input root p5r"
  by (cases p5r) (auto simp: run_unpack_def unpack_arguments_def unpack_argument_def is_option_def ascii_def
      p5r_option_def cli_is_encrypted_def cli_decrypt_def)

lemma decrypted_plain [simp]: "decrypted (cli_is_encrypted False) d f packed = packed"
  by (simp add: decrypted_def cli_is_encrypted_def Dummy_is_encrypted_def)

lemma decrypted_again:
  assumes "packed_payload b fs p5r f = Some packed" and "raw_payload f = None" and "p5r \<Longrightarrow> b = Some t"
    and "fs (source_path f) = Some plain"
    and "p5r \<Longrightarrow> user_string entry = CRI_CFATTR_ENCRYPT \<longleftrightarrow> in_user_string f = CRI_CFATTR_ENCRYPT"
  shows "decrypted (cli_is_encrypted p5r) (cli_decrypt p5r t) entry packed = plain"
proof (cases p5r)
  case True
  with assms have "packed_payload (Some t) fs True f = Some packed" by simp
  from decrypted_marked [OF assms(2) this assms(4)] assms(5) True show ?thesis
    by (simp add: cli_is_encrypted_def cli_decrypt_def)
next
  case False
  with assms show ?thesis
    by (simp add: packed_payload_def decrypted_def cli_is_encrypted_def Dummy_is_encrypted_def)
qed

section \<open>Archives of the writer\<close>

lemma listed_names [simp]:
  "directory (listed_file f off) = in_directory f" "file_name (listed_file f off) = in_file_name f"
  by (simp_all add: listed_file_def cpk_file_new_def)

text \<open>
  An archive whose listing reads back the payloads of the inputs.  The entries are in the order of
  the inputs, carry the mark of encrypted files when they are to be decrypted, and have usable names.
\<close>

lemma unpack_reads_back:
  assumes reads: "archive_reads_back sjis archive b fs0 p5r files entries"
    and raw: "\<forall>f \<in> set files. raw_payload f = None" and build: "p5r \<longrightarrow> b = Some t"
    and marks: "\<forall>i < length files. p5r \<longrightarrow>
      (user_string (entries ! i) = CRI_CFATTR_ENCRYPT \<longleftrightarrow> in_user_string (files ! i) = CRI_CFATTR_ENCRYPT)"
    and archive: "fs input = Some archive" and few: "length files \<le> 2 ^ 32"
    and content: "\<forall>f \<in> set files. Option.bind (fs0 (source_path f)) unpacked = Some (content f)"
    and len: "length entries = length files"
    and land: "\<forall>i < length files. lands out (entries ! i) (place (files ! i))"
    and distinct: "distinct (map place files)"
  shows "\<exists>fs'. unpack_with sjis avail h slab_address heap memory (cli_is_encrypted p5r) (cli_decrypt p5r t) fs input out flag = Inr fs' \<and>
    (\<forall>f \<in> set files. fs' (place f) = Some (content f))"
proof -
  let ?rd = "cpk_reader_new slab_address \<lparr>contents = archive, position = 0\<rparr>"
  from reads [unfolded archive_reads_back_def, THEN spec, of slab_address] obtain rd where
    g: "get_files sjis ?rd = (Inr entries, rd)"
    and read: "\<forall>i < length files. \<exists>bs rd'. read_packed_file rd (entries ! i) = Inr (bs, rd') \<and>
      packed_payload b fs0 p5r (files ! i) = Some bs"
    by (auto simp: Let_def split: prod.splits)
  have ext: "cli.extracts_to p5r t rd (entries ! i) (content (files ! i))" if i: "i < length files" for i
  proof -
    from content i obtain plain where plain: "fs0 (source_path (files ! i)) = Some plain" "unpacked plain = Some (content (files ! i))"
      by (force simp: bind_eq_Some_conv)
    from read i obtain bs rd' where r: "read_packed_file rd (entries ! i) = Inr (bs, rd')"
      "packed_payload b fs0 p5r (files ! i) = Some bs" by blast
    have "decrypted (cli_is_encrypted p5r) (cli_decrypt p5r t) (entries ! i) bs = plain"
      using raw build marks i by (intro decrypted_again [OF r(2) _ _ plain(1)]) auto
    with r(1) plain(2) show ?thesis by (auto simp: cli.extracts_to_def)
  qed
  have listed: "\<exists>i < length files. e = entries ! i" if "e \<in> set entries" for e
    using that len by (metis in_set_conv_nth)
  have dests: "map (destination_of out) entries = map (Inr \<circ> place) files"
    using land len by (intro nth_equalityI) (auto simp: lands_def)
  have good: "\<forall>e \<in> set entries. (\<exists>p. lands out e p) \<and> (\<exists>bs. cli.extracts_to p5r t rd e bs)"
    using listed ext land by blast
  have "distinct (map (destination_of out) entries)"
    unfolding dests using distinct by (simp add: distinct_map comp_inj_on_iff inj_on_def)
  moreover have "length entries \<le> 2 ^ 32" using few len by simp
  ultimately obtain fs' where un: "unpack_with sjis avail h slab_address heap memory (cli_is_encrypted p5r) (cli_decrypt p5r t) fs input out flag = Inr fs'"
    and there: "\<forall>e \<in> set entries. \<forall>p bs. lands out e p \<longrightarrow> cli.extracts_to p5r t rd e bs \<longrightarrow> fs' p = Some bs"
    using cli.unpack_with_restores [where fs = fs and input = input and out = out, OF archive g] good by blast
  have "fs' (place f) = Some (content f)" if f: "f \<in> set files" for f
  proof -
    from f obtain i where i: "i < length files" "f = files ! i" by (auto simp: in_set_conv_nth)
    with len have "entries ! i \<in> set entries" by (intro nth_mem) simp
    with there land ext i show ?thesis by blast
  qed
  with un show ?thesis by blast
qed

text \<open>
  The directory and the name an archive with this profile gives a file: its own, or without a table
  of contents the name made of its ID.
\<close>

definition packed_name :: "cpk_writer_profile \<Rightarrow> cpk_input_file \<Rightarrow> rust_string \<times> rust_string" where
  "packed_name profile f =
     (if has_toc (index_mode profile) then (in_directory f, in_file_name f) else ([], itoc_file_name (in_id f)))"

definition unpacks_to :: "cpk_writer_profile \<Rightarrow> path \<Rightarrow> cpk_input_file \<Rightarrow> path \<Rightarrow> bool" where
  "unpacks_to profile out f p \<longleftrightarrow>
     (case packed_name profile f of (d, name) \<Rightarrow> safe_output_path out d name = Inr p) \<and>
     \<not> same_components p (Manifest_path out) \<and> p \<noteq> temporary_path out"

lemma lands_listed:
  "unpacks_to profile out f p \<Longrightarrow> has_toc (index_mode profile) \<Longrightarrow> lands out (listed_file f off) p"
  "unpacks_to profile out f p \<Longrightarrow> \<not> has_toc (index_mode profile) \<Longrightarrow> lands out (listed_by_id base f off) p"
  by (simp_all add: unpacks_to_def packed_name_def lands_def destination_of_def listed_by_id_def cpk_file_new_def)

lemma unmarked_by_id [simp]: "user_string (listed_by_id base f off) \<noteq> CRI_CFATTR_ENCRYPT"
  by (simp add: listed_by_id_def cpk_file_new_def CRI_CFATTR_ENCRYPT_def ascii_def)

lemma unpack_written:
  assumes w: "write_with_profile b disk out0 files options profile = Inr (report, out')"
    and out0: "contents out0 = []" and sane: "files_sane disk"
    and small: "unat (rep_content_offset report) < 2 ^ 32" and texts: "texts_ok files profile"
    and build: "p5r_encryption options \<longrightarrow> b = Some t" and raw: "\<forall>f \<in> set files. raw_payload f = None"
    and marks: "p5r_encryption options \<and> \<not> has_toc (index_mode profile) \<longrightarrow>
      (\<forall>f \<in> set files. in_user_string f \<noteq> CRI_CFATTR_ENCRYPT)"
    and archive: "fs input = Some (contents out')" and few: "length files \<le> 2 ^ 32"
    and content: "\<forall>f \<in> set files. Option.bind (disk (source_path f)) unpacked = Some (content f)"
    and place: "\<forall>f \<in> set files. unpacks_to profile out f (place f)" and distinct: "distinct (map place files)"
  shows "\<exists>fs'. unpack_with sjis avail h slab_address heap memory (cli_is_encrypted (p5r_encryption options))
      (cli_decrypt (p5r_encryption options) t) fs input out flag = Inr fs' \<and>
    (\<forall>f \<in> set files. fs' (place f) = Some (content f))"
proof (cases "has_toc (index_mode profile)")
  case True
  from toc_archive_reads_back [OF w out0 sane True small texts, of sjis] obtain offsets where
    reads: "archive_reads_back sjis (contents out') b disk (p5r_encryption options) files (map2 listed_file files offsets)"
    and len: "length offsets = length files" by blast
  have "lands out (listed_file (files ! i) (offsets ! i)) (place (files ! i))" if "i < length files" for i
    using lands_listed(1) [OF _ True] place nth_mem [OF that] by blast
  then show ?thesis
    by (intro unpack_reads_back [where fs = fs and input = input and content = content and place = place, OF reads raw build _ archive few content _ _ distinct])
      (simp_all add: len)
next
  case False
  then have mode: "index_mode profile = Mode_Itoc" by (cases "index_mode profile") (simp_all add: has_toc_def)
  have "pool_strings_ok [tvers profile, comment profile]" using texts by (simp add: texts_ok_def)
  from itoc_archive_reads_back [OF w out0 sane mode this, of sjis] obtain offsets where
    reads: "archive_reads_back sjis (contents out') b disk (p5r_encryption options) (sort_key in_id files)
      (map2 (listed_by_id (rep_content_offset report)) (sort_key in_id files) offsets)"
    and len: "length offsets = length (sort_key in_id files)" by auto
  have unmarked: "in_user_string (sort_key in_id files ! i) \<noteq> CRI_CFATTR_ENCRYPT"
    if "p5r_encryption options" "i < length (sort_key in_id files)" for i
    using marks that(1) False nth_mem [OF that(2)] by simp
  have lands: "lands out (listed_by_id base (sort_key in_id files ! i) off) (place (sort_key in_id files ! i))"
    if "i < length (sort_key in_id files)" for i base off
    using lands_listed(2) [OF _ False] place nth_mem [OF that] by simp
  have "mset (map place (sort_key in_id files)) = mset (map place files)" by simp
  with distinct have distinct': "distinct (map place (sort_key in_id files))" by (metis mset_eq_imp_distinct_iff)
  have "\<exists>fs'. unpack_with sjis avail h slab_address heap memory (cli_is_encrypted (p5r_encryption options))
      (cli_decrypt (p5r_encryption options) t) fs input out flag = Inr fs' \<and>
    (\<forall>f \<in> set (sort_key in_id files). fs' (place f) = Some (content f))"
    by (rule unpack_reads_back [where fs = fs and input = input and content = content and place = place, OF reads _ build _ archive _ _ _ _ distinct'])
      (use len raw few content lands unmarked in simp_all)
  then show ?thesis by simp
qed

text \<open>
  Without a table of contents there are no user strings, but the writer still encrypts the files that
  carry the mark: the reader does not know them and returns the encrypted bytes.
\<close>

lemma encryption_lost_by_id:
  assumes w: "write_with_profile (Some t) disk out0 files options profile = Inr (report, out')"
    and out0: "contents out0 = []" and sane: "files_sane disk" and mode: "index_mode profile = Mode_Itoc"
    and texts: "pool_strings_ok [tvers profile, comment profile]" and p5r: "p5r_encryption options"
    and f: "f \<in> set files" "raw_payload f = None" "in_user_string f = CRI_CFATTR_ENCRYPT" "disk (source_path f) = Some plain"
  shows "\<exists>entries rd entry packed rd'.
    get_files sjis (cpk_reader_new slab_address \<lparr>contents = contents out', position = 0\<rparr>) = (Inr entries, rd) \<and>
    entry \<in> set entries \<and> id_opt entry = Some (in_id f) \<and> read_packed_file rd entry = Inr (packed, rd') \<and>
    decrypted P5R_is_encrypted (P5R_decrypt_in_place t) entry packed = p5r_apply t plain"
proof -
  let ?files = "sort_key in_id files"
  from itoc_archive_reads_back [OF w out0 sane mode texts, of sjis] p5r obtain offsets where
    reads: "archive_reads_back sjis (contents out') (Some t) disk True ?files
      (map2 (listed_by_id (rep_content_offset report)) ?files offsets)"
    and len: "length offsets = length files" by auto
  let ?entries = "map2 (listed_by_id (rep_content_offset report)) ?files offsets"
  from reads [unfolded archive_reads_back_def, THEN spec, of slab_address] obtain rd where
    g: "get_files sjis (cpk_reader_new slab_address \<lparr>contents = contents out', position = 0\<rparr>) = (Inr ?entries, rd)"
    and read: "\<forall>i < length ?files. \<exists>bs rd'. read_packed_file rd (?entries ! i) = Inr (bs, rd') \<and>
      packed_payload (Some t) disk True (?files ! i) = Some bs"
    by (auto simp: Let_def split: prod.splits)
  from f(1) obtain i where i: "i < length ?files" "?files ! i = f" by (metis in_set_conv_nth set_sort)
  with read obtain bs rd' where r: "read_packed_file rd (?entries ! i) = Inr (bs, rd')"
    "packed_payload (Some t) disk True f = Some bs" by blast
  from i len have entry: "?entries ! i = listed_by_id (rep_content_offset report) f (offsets ! i)" by simp
  have "bs = p5r_apply t plain" using r(2) f(2-4) by (simp add: packed_payload_def)
  then have "decrypted P5R_is_encrypted (P5R_decrypt_in_place t) (?entries ! i) bs = p5r_apply t plain"
    by (simp add: decrypted_def P5R_is_encrypted_def entry)
  moreover have "id_opt (?entries ! i) = Some (in_id f)"
    unfolding entry by (simp add: listed_by_id_def cpk_file_new_def)
  moreover have "?entries ! i \<in> set ?entries" using i(1) len by (intro nth_mem) simp
  ultimately show ?thesis using g r(1) by blast
qed

end
