(* ===== verification/Archive_Success.thy ===== *)
theory Archive_Success
  imports Archive_Layout
begin

text \<open>
  When the writer succeeds.  \<open>build_ok\<close>: a table whose rows have the types of its columns is built
  whenever its sections stay below 4 GiB, and \<open>table_length\<close> is its length, which does not depend
  on the numbers in it; so the writer's probe of a table's size is exact.  \<open>emit_archive_iff\<close>: given
  a plan, writing succeeds exactly when every payload can be read with the announced size.
  \<open>write_with_profile_ok\<close> puts both together for inputs of moderate size.
\<close>

section \<open>Interning and placing never fail below 4 GiB\<close>

lemma length_nul_terminated: "length (nul_terminated ss) = sum_list (map (\<lambda>s. length s + 1) ss)"
  by (induction ss) simp_all

lemma pool_grows: "length (nul_terminated ss) \<le> length (nul_terminated (foldl add_string ss xs))"
  using add_string_extends [of ss xs] by (auto simp: length_nul_terminated)

lemma intern_string_ok:
  assumes "interned pool offsets ss" and "length (nul_terminated ss) < 2 ^ 32"
  shows "\<exists>o' pool' offsets'. intern_string s pool offsets = Inr (o', pool', offsets') \<and>
    interned pool' offsets' (add_string ss s)"
proof -
  have "length pool < 2 ^ 32" using assms by (simp add: interned_def)
  then have "\<exists>o' pool' offsets'. intern_string s pool offsets = Inr (o', pool', offsets')"
    by (auto simp: intern_string_def try_from_nat_def split: option.split)
  then show ?thesis using intern_string_interned [OF assms(1)] by blast
qed

lemma intern_columns_ok:
  assumes "interned pool offsets ss" and "length (nul_terminated (foldl add_string ss (map uc_name cs))) < 2 ^ 32"
  shows "\<exists>os pool' offsets'. intern_columns cs pool offsets = Inr (os, pool', offsets')"
  using assms
proof (induction cs arbitrary: pool offsets ss)
  case Nil
  then show ?case by simp
next
  case (Cons c cs)
  have "length (nul_terminated ss) < 2 ^ 32"
    using pool_grows [of ss "map uc_name (c # cs)"] Cons.prems(2) by linarith
  from intern_string_ok [OF Cons.prems(1) this] obtain o1 p1 f1 where
    s: "intern_string (uc_name c) pool offsets = Inr (o1, p1, f1)" "interned p1 f1 (add_string ss (uc_name c))"
    by blast
  from Cons.IH [OF s(2)] Cons.prems(2) show ?case by (auto simp: s(1))
qed

lemma intern_values_ok:
  assumes "interned pool offsets ss" and "length (nul_terminated (foldl add_string ss (strings_of vs))) < 2 ^ 32"
  shows "\<exists>pool' offsets'. fold_result intern_value (pool, offsets) vs = Inr (pool', offsets')"
  using assms
proof (induction vs arbitrary: pool offsets ss)
  case Nil
  then show ?case by simp
next
  case (Cons v vs)
  show ?case
  proof (cases v)
    case (UV_String s)
    have "length (nul_terminated ss) < 2 ^ 32"
      using pool_grows [of ss "strings_of (v # vs)"] Cons.prems(2) by linarith
    from intern_string_ok [OF Cons.prems(1) this] obtain o1 p1 f1 where
      s: "intern_string s pool offsets = Inr (o1, p1, f1)" "interned p1 f1 (add_string ss s)" by blast
    from Cons.IH [OF s(2)] Cons.prems(2) show ?thesis
      by (auto simp: UV_String intern_value_def s(1) strings_of_def)
  qed (use Cons in \<open>auto simp: strings_of_def\<close>)
qed

definition data_of :: "utf_value list \<Rightarrow> bytes" where
  "data_of vs = concat (map (\<lambda>v. case v of UV_Data d \<Rightarrow> d | _ \<Rightarrow> []) vs)"

lemma data_of_simps [simp]:
  "data_of [] = []"
  "data_of (v # vs) = (case v of UV_Data d \<Rightarrow> d | _ \<Rightarrow> []) @ data_of vs"
  "data_of (vs @ ws) = data_of vs @ data_of ws"
  by (simp_all add: data_of_def)

lemma place_data_length:
  "fold_result place_data st cs = Inr st' \<Longrightarrow> fst st' = fst st @ data_of (map snd cs)"
proof (induction cs arbitrary: st)
  case Nil
  then show ?case by simp
next
  case (Cons c cs)
  from Cons.prems obtain s where s: "place_data st c = Inr s" and r: "fold_result place_data s cs = Inr st'"
    by (auto simp: result_iff)
  from s have "fst s = fst st @ (case snd c of UV_Data d \<Rightarrow> d | _ \<Rightarrow> [])"
    by (auto simp: place_data_def result_iff split: utf_value.splits)
  with Cons.IH [OF r] show ?case by simp
qed

lemma place_data_ok:
  "length (fst st) + length (data_of (map snd cs)) < 2 ^ 32 \<Longrightarrow> \<exists>st'. fold_result place_data st cs = Inr st'"
proof (induction cs arbitrary: st)
  case Nil
  then show ?case by simp
next
  case (Cons c cs)
  have "\<exists>s. place_data st c = Inr s \<and> fst s = fst st @ (case snd c of UV_Data d \<Rightarrow> d | _ \<Rightarrow> [])"
    using Cons.prems by (cases st) (auto simp: place_data_def try_from_nat_def split: utf_value.split)
  then obtain s where s: "place_data st c = Inr s" "fst s = fst st @ (case snd c of UV_Data d \<Rightarrow> d | _ \<Rightarrow> [])"
    by blast
  have "length (fst s) + length (data_of (map snd cs)) < 2 ^ 32" using Cons.prems by (simp add: s(2))
  from Cons.IH [OF this] show ?case by (simp add: s(1))
qed

lemma place_data_keeps:
  "fold_result place_data st cs = Inr st' \<Longrightarrow> k \<in> dom (snd st) \<or> (\<exists>d. (k, UV_Data d) \<in> set cs) \<Longrightarrow>
   k \<in> dom (snd st')"
proof (induction cs arbitrary: st)
  case Nil
  then show ?case by auto
next
  case (Cons c cs)
  from Cons.prems(1) obtain s where s: "place_data st c = Inr s" and r: "fold_result place_data s cs = Inr st'"
    by (auto simp: result_iff)
  from s Cons.prems(2) have "k \<in> dom (snd s) \<or> (\<exists>d. (k, UV_Data d) \<in> set cs)"
    by (cases c) (auto simp: place_data_def result_iff split: utf_value.splits)
  from Cons.IH [OF r this] show ?case .
qed

lemma map_snd_cells: "map snd (cells rows) = concat rows"
proof -
  have "map snd (row_cells r) = snd r" for r :: "nat \<times> 'a list"
    by (simp add: row_cells_def comp_def case_prod_beta)
  then have "map snd (concat (map row_cells rs)) = concat (map snd rs)" for rs :: "(nat \<times> 'a list) list"
    by (induction rs) simp_all
  then show ?thesis by (simp add: cells_def)
qed

section \<open>Building a table\<close>

definition row_width :: "utf_column list \<Rightarrow> nat" where
  "row_width cs = sum_list (map (\<lambda>c. utf_type_size (uc_type c)) cs)"

definition table_length :: "utf_table_builder \<Rightarrow> nat" where
  "table_length b =
     0x20 + length (tb_columns b) * 5 + row_width (tb_columns b) * length (tb_rows b) +
     length (nul_terminated (foldl add_string [[]] (builder_strings b))) + length (data_of (concat (tb_rows b)))"

definition well_typed :: "utf_table_builder \<Rightarrow> bool" where
  "well_typed b \<longleftrightarrow>
     (\<forall>row \<in> set (tb_rows b). length row = length (tb_columns b) \<and>
        (\<forall>c < length (tb_columns b). utf_value_type (row ! c) = uc_type (tb_columns b ! c)))"

lemma length_concat_const:
  "(\<And>x. x \<in> set xs \<Longrightarrow> length (f x) = n) \<Longrightarrow> length (concat (map f xs)) = n * length xs"
  by (induction xs) simp_all

text \<open>The cells of a table: each can be emitted, and a row takes its width.\<close>

lemma well_typed_rows_pass:
  assumes "well_typed b"
  shows "fold_result (check_row (tb_columns b)) () (tb_rows b) = Inr ()"
proof -
  have chk: "check_row (tb_columns b) u row = Inr ()" if "row \<in> set (tb_rows b)" for u row
    using that assms by (auto simp: check_row_def well_typed_def list_all_length)
  have "fold_result (check_row (tb_columns b)) () rs = Inr ()" if "set rs \<subseteq> set (tb_rows b)" for rs
    using that by (induction rs) (auto simp: chk)
  then show ?thesis by simp
qed

lemma emit_cells_ok:
  assumes strings: "\<forall>s \<in> set (strings_of (concat rows)). f s \<noteq> None"
    and d: "fold_result place_data ([], Map.empty) (cells rows) = Inr (dat, locs)"
  shows "\<exists>row_data. map_result (emit_value f locs) (cells rows) = Inr row_data"
proof -
  have emit: "\<exists>bs. emit_value f locs cell = Inr bs" if "cell \<in> set (cells rows)" for cell
  proof (cases "snd cell")
    case (UV_String s)
    have "snd cell \<in> set (concat rows)" using that by (metis image_eqI list.set_map map_snd_cells)
    then have "s \<in> set (strings_of (concat rows))" by (force simp: strings_of_def UV_String)
    with strings show ?thesis by (auto simp: emit_value_def UV_String)
  next
    case (UV_Data x)
    have "fst cell \<in> dom locs" using place_data_keeps [OF d] that UV_Data by (metis prod.collapse snd_conv)
    then show ?thesis by (auto simp: emit_value_def UV_Data)
  qed (auto simp: emit_value_def)
  have "\<exists>row_data. map_result (emit_value f locs) cs = Inr row_data" if "set cs \<subseteq> set (cells rows)" for cs
    using that by (induction cs) (use emit in force)+
  then show ?thesis by blast
qed

lemma emitted_length:
  assumes "well_typed b" and r: "map_result (emit_value f locs) (cells (tb_rows b)) = Inr row_data"
  shows "length (concat row_data) = row_width (tb_columns b) * length (tb_rows b)"
proof -
  let ?cs = "tb_columns b" and ?rows = "tb_rows b"
  have "length (row_bytes row) = row_width ?cs" if "row \<in> set (encode_rows f locs ?rows)" for row
  proof -
    from that obtain i where i: "i < length ?rows" "row = encode_rows f locs ?rows ! i"
      by (auto simp: in_set_conv_nth)
    have "length (?rows ! i) = length ?cs" "\<forall>c < length ?cs. utf_value_type (?rows ! i ! c) = uc_type (?cs ! c)"
      using assms(1) nth_mem [OF i(1)] unfolding well_typed_def by blast+
    from encoded_row_length [OF this] show ?thesis using i by (simp add: encode_rows_nth row_width_def)
  qed
  then show ?thesis unfolding emitted_rows [OF r] by (simp add: length_concat_const)
qed

lemma build_ok:
  assumes typed: "well_typed b" and cols: "length (tb_columns b) \<le> 13000"
    and width: "row_width (tb_columns b) < 2 ^ 16" and rows: "length (tb_rows b) < 2 ^ 32"
    and small: "table_length b < 2 ^ 32"
  shows "\<exists>t. build b = Inr t \<and> length t = table_length b"
proof -
  let ?cs = "tb_columns b" and ?rows = "tb_rows b"
  let ?n = "length ?cs" and ?rs = "row_width ?cs"
  let ?s1 = "foldl add_string [[]] [tb_name b]"
  let ?s2 = "foldl add_string ?s1 (map uc_name ?cs)"
  let ?s3 = "foldl add_string ?s2 (strings_of (concat ?rows))"
  have s3: "foldl add_string [[]] (builder_strings b) = ?s3" by (simp add: builder_strings_def)
  have pool: "length (nul_terminated ?s3) < 2 ^ 32" using small by (simp add: table_length_def s3)
  then have p2: "length (nul_terminated ?s2) < 2 ^ 32" using pool_grows [of ?s2] by (rule le_less_trans [rotated])
  from intern_string_ok [OF interned_start, of "tb_name b"] obtain name p1 f1 where
    i1: "intern_string (tb_name b) [0] [[] \<mapsto> 0] = Inr (name, p1, f1)" "interned p1 f1 ?s1" by auto
  from intern_columns_ok [OF i1(2) p2] obtain os p2 f2 where
    i2: "intern_columns ?cs p1 f1 = Inr (os, p2, f2)" by blast
  note I2 = intern_columns_interned [OF i1(2) i2]
  from intern_values_ok [OF conjunct1 [OF I2] pool] obtain p3 f3 where
    i3: "fold_result intern_value (p2, f2) (concat ?rows) = Inr (p3, f3)" by blast
  from intern_values_interned [OF conjunct1 [OF I2] i3] have I3: "interned p3 f3 ?s3" .
  then have p3: "p3 = nul_terminated ?s3" by (simp add: interned_def)
  have "length (data_of (map snd (cells ?rows))) < 2 ^ 32" using small by (simp add: table_length_def map_snd_cells)
  then obtain dat locs where d: "fold_result place_data ([], Map.empty) (cells ?rows) = Inr (dat, locs)"
    using place_data_ok [of "([], Map.empty)" "cells ?rows"] by auto
  have dat: "dat = data_of (concat ?rows)"
    using place_data_length [OF d] by (simp add: map_snd_cells)
  have "\<forall>s \<in> set (strings_of (concat ?rows)). f3 s \<noteq> None"
    using I3 by (simp add: interned_def set_foldl_add_string)
  from emit_cells_ok [OF this d]
  obtain row_data where r: "map_result (emit_value f3 locs) (cells ?rows) = Inr row_data" by blast
  note check = well_typed_rows_pass [OF typed]
  let ?t = "0x20 + ?n * 5 + ?rs * length ?rows"
  have total: "?t + length p3 + length dat < 2 ^ 32"
    using small by (simp add: table_length_def s3 p3 dat)
  have fits: "?n < 2 ^ 16" "0x20 + ?n * 5 < 2 ^ 16" using cols by simp_all
  have "\<exists>ts rf sf df nc rs nr. build b = Inr (header_layout UTF_MAGIC ts 0 1 rf sf df name nc rs nr @
      concat (map emit_column (zip ?cs os)) @ concat row_data @ p3 @ dat)"
    unfolding build_def Let_def
    using fits width rows total
    by (simp add: try_from_nat_def check i1(1) i2 i3 d r usize_checked_mul_def usize_checked_add_def
        row_width_def [symmetric]) blast
  then obtain ts rf sf df nc rs nr where t: "build b = Inr (header_layout UTF_MAGIC ts 0 1 rf sf df name nc rs nr @
      concat (map emit_column (zip ?cs os)) @ concat row_data @ p3 @ dat)" by blast
  have "length (header_layout UTF_MAGIC ts 0 1 rf sf df name nc rs nr @
      concat (map emit_column (zip ?cs os)) @ concat row_data @ p3 @ dat) = table_length b"
    using I2 emitted_length [OF typed r]
    by (simp add: length_emit_columns table_length_def s3 p3 dat UTF_MAGIC_def)
  with t show ?thesis by blast
qed

section \<open>Writing the payloads\<close>

definition payload_ready :: "target option \<Rightarrow> (path \<rightharpoonup> bytes) \<Rightarrow> bool \<Rightarrow> cpk_input_file \<Rightarrow> bool" where
  "payload_ready p5r fs encrypt f \<longleftrightarrow>
     (\<exists>bs. packed_payload p5r fs encrypt f = Some bs \<and> length bs = unat (in_size f)) \<and>
     (\<forall>raw. raw_payload f = Some raw \<longrightarrow> raw_size raw = in_size f)"

lemma of_nat_unat_wide: "of_nat (unat w) = (ucast w :: u64)" for w :: u32
  using unat_lt2p [of w] by (simp add: word_unat_eq_iff unat_ucast_wide unat_of_nat_fits)

lemma write_file_payload_ready:
  assumes "payload_ready p5r fs encrypt f" and "at_end out"
  shows "\<exists>bs. write_file_payload p5r fs f encrypt out = Inr (ucast (in_size f), append_to out bs) \<and>
    length bs = unat (in_size f)"
proof (cases "raw_payload f")
  case (Some raw)
  with assms(1) obtain input where input: "fs (archive_path raw) = Some input" "raw_size raw = in_size f"
    and len: "length (slice (unat (raw_absolute_offset raw)) (unat (in_size f)) input) = unat (in_size f)"
    by (auto simp: payload_ready_def packed_payload_def)
  then have "write_file_payload p5r fs f encrypt out = Inr (of_nat (unat (in_size f)),
      append_to out (slice (unat (raw_absolute_offset raw)) (unat (in_size f)) input))"
    using Some assms(2)
    by (simp only: write_file_payload_def write_raw_payload_def open_file_def option.case ok_or_simps
        and_then_simps Let_def write_all_append len simp_thms if_False)
  then show ?thesis using len unfolding of_nat_unat_wide by blast
next
  case None
  with assms show ?thesis
    by (auto simp: payload_ready_def packed_payload_def write_file_payload_def write_encrypted_payload_def
        open_file_def write_all_append P5R_decrypt_eq p5r_apply_def bind_eq_Some_conv
        split: if_splits option.splits)
qed

lemma write_payload_ready:
  assumes "payload_ready p5r fs encrypt (files ! i)" and out: "at_end out" "length (contents out) < 2 ^ 64"
    and le: "length (contents out) \<le> unat (offsets ! i)"
  shows "\<exists>out'. write_payload p5r fs files encrypt offsets out i = Inr out' \<and> at_end out' \<and>
    length (contents out') = unat (offsets ! i) + unat (in_size (files ! i))"
proof -
  let ?out = "append_to out (replicate (unat (offsets ! i) - length (contents out)) 0)"
  have fill: "fill_to (offsets ! i) out = ?out" by (rule fill_to_append [OF out])
  from write_file_payload_ready [OF assms(1) at_end_append_to] obtain bs where
    bs: "write_file_payload p5r fs (files ! i) encrypt ?out = Inr (ucast (in_size (files ! i)), append_to ?out bs)"
      "length bs = unat (in_size (files ! i))" by blast
  have "unat (of_nat (position out) :: u64) = length (contents out)"
    using out by (simp add: at_end_def unat_of_nat_fits)
  then have "\<not> (of_nat (position out) :: u64) > offsets ! i" using le by (simp add: word_less_nat_alt)
  then show ?thesis
    using le by (simp add: write_payload_def Let_def fill bs)
qed

text \<open>Places in order: every payload ends before the next one starts.\<close>

fun in_place :: "cpk_input_file list \<Rightarrow> u64 list \<Rightarrow> nat \<Rightarrow> nat list \<Rightarrow> bool" where
  "in_place files offsets n [] \<longleftrightarrow> True"
| "in_place files offsets n (i # is) \<longleftrightarrow>
     n \<le> unat (offsets ! i) \<and> unat (offsets ! i) + unat (in_size (files ! i)) < 2 ^ 64 \<and>
     in_place files offsets (unat (offsets ! i) + unat (in_size (files ! i))) is"

lemma payload_loop_ready:
  assumes "\<forall>i \<in> set order. payload_ready p5r fs encrypt (files ! i)"
    and "at_end out" "length (contents out) < 2 ^ 64" and "in_place files offsets (length (contents out)) order"
  shows "\<exists>out'. fold_result (write_payload p5r fs files encrypt offsets) out order = Inr out'"
  using assms
proof (induction order arbitrary: out)
  case Nil
  then show ?case by simp
next
  case (Cons i order)
  then have "payload_ready p5r fs encrypt (files ! i)" "length (contents out) \<le> unat (offsets ! i)" by simp_all
  from write_payload_ready [OF this(1) Cons.prems(2,3) this(2)] obtain out1 where
    o: "write_payload p5r fs files encrypt offsets out i = Inr out1" "at_end out1"
      "length (contents out1) = unat (offsets ! i) + unat (in_size (files ! i))" by blast
  from Cons.IH [OF _ o(2)] Cons.prems show ?case by (simp add: o)
qed

lemma planned_in_place:
  assumes pl: "planned files a lo" and k: "k \<le> length files"
    and n: "n \<le> physical_offset a (unat (lo_content_offset lo)) files (lo_order lo) k"
  shows "in_place files (lo_offsets lo) n (drop k (lo_order lo))"
  using k n
proof (induction "length files - k" arbitrary: k n)
  case 0
  with pl show ?case by (simp add: planned_def)
next
  case (Suc m)
  then have k: "k < length files" by simp
  have len: "length (lo_order lo) = length files" using pl by (simp add: planned_def)
  let ?i = "lo_order lo ! k"
  have off: "unat (lo_offsets lo ! ?i) = physical_offset a (unat (lo_content_offset lo)) files (lo_order lo) k"
    "unat (lo_offsets lo ! ?i) + unat (in_size (files ! ?i)) < 2 ^ 64"
    using pl k unfolding planned_def by blast+
  have "unat (lo_offsets lo ! ?i) + unat (in_size (files ! ?i)) \<le>
      physical_offset a (unat (lo_content_offset lo)) files (lo_order lo) (Suc k)"
    using k round_up_ge [of "unat (in_size (files ! ?i))" a]
    by (simp add: off(1) physical_offset_def take_Suc_conv_app_nth len packed_size_def)
  moreover have "m = length files - Suc k" "Suc k \<le> length files" using Suc by simp_all
  ultimately have "in_place files (lo_offsets lo) (unat (lo_offsets lo ! ?i) + unat (in_size (files ! ?i)))
      (drop (Suc k) (lo_order lo))" using Suc.hyps(1) by blast
  moreover have "drop k (lo_order lo) = ?i # drop (Suc k) (lo_order lo)"
    using k len by (simp add: Cons_nth_drop_Suc)
  moreover have "n \<le> unat (lo_offsets lo ! ?i)" using Suc.prems(2) off(1) by simp
  ultimately show ?case using off(2) by simp
qed

lemma fold_result_each:
  "fold_result f s xs = Inr t \<Longrightarrow> x \<in> set xs \<Longrightarrow> \<exists>u v. f u x = Inr v"
  by (induction xs arbitrary: s) (auto simp: result_iff)

lemma write_payload_raw_size:
  "write_payload p5r fs files encrypt offsets u i = Inr v \<Longrightarrow> raw_payload (files ! i) = Some raw \<Longrightarrow>
   raw_size raw = in_size (files ! i)"
  by (auto simp: write_payload_def write_file_payload_def write_raw_payload_def Let_def result_iff
      split: if_splits)

lemma emit_archive_iff:
  assumes pl: "planned files a lo" and empty: "contents out = []" and sane: "files_sane fs"
  shows "(\<exists>out'. emit_archive p5r fs files encrypt lo out = Inr out') \<longleftrightarrow>
    (\<forall>f \<in> set files. payload_ready p5r fs encrypt f)"
proof -
  from pl have lo: "layout_ordered lo" and set: "set (lo_order lo) = {..<length files}"
    and len: "length (lo_order lo) = length files" unfolding planned_def by simp_all
  from write_metadata_bytes [OF lo empty] obtain m where
    m: "write_metadata lo out = Inr m" "at_end m" "contents m = metadata_bytes lo" by blast
  have mlen: "length (contents m) = unat (lo_content_offset lo)"
    using length_metadata_bytes [OF lo] by (simp add: m(3))
  then have mlt: "length (contents m) < 2 ^ 64" using unat_lt2p [of "lo_content_offset lo"] by simp
  have all: "(\<forall>i \<in> set (lo_order lo). P (files ! i)) \<longleftrightarrow> (\<forall>f \<in> set files. P f)" for P
    by (metis lessThan_iff set in_set_conv_nth)
  let ?loop = "fold_result (write_payload p5r fs files encrypt (lo_offsets lo)) m (lo_order lo)"
  have "(\<exists>out'. emit_archive p5r fs files encrypt lo out = Inr out') \<longleftrightarrow> (\<exists>o'. ?loop = Inr o')"
    by (simp add: emit_archive_def m(1) and_then_Inr)
  also have "\<dots> \<longleftrightarrow> (\<forall>i \<in> set (lo_order lo). payload_ready p5r fs encrypt (files ! i))"
  proof
    assume "\<exists>o'. ?loop = Inr o'"
    then obtain o' where o': "?loop = Inr o'" by blast
    have fits: "\<forall>i \<in> set (lo_order lo). unat (lo_offsets lo ! i) + unat (in_size (files ! i)) < 2 ^ 64"
      using pl unfolding planned_def by (metis in_set_conv_nth len)
    from payload_loop_stored [OF o' m(2) mlt sane fits] fold_result_each [OF o']
    show "\<forall>i \<in> set (lo_order lo). payload_ready p5r fs encrypt (files ! i)"
      unfolding payload_ready_def using write_payload_raw_size by blast
  next
    assume ready: "\<forall>i \<in> set (lo_order lo). payload_ready p5r fs encrypt (files ! i)"
    have "in_place files (lo_offsets lo) (length (contents m)) (drop 0 (lo_order lo))"
      by (rule planned_in_place [OF pl]) (simp_all add: mlen physical_offset_def)
    then have "in_place files (lo_offsets lo) (length (contents m)) (lo_order lo)" by simp
    with payload_loop_ready [OF ready m(2) mlt] show "\<exists>o'. ?loop = Inr o'" by blast
  qed
  finally show ?thesis unfolding all .
qed

section \<open>Planning an archive of moderate size\<close>

definition names_length :: "cpk_input_file list \<Rightarrow> nat" where
  "names_length files =
     sum_list (map (\<lambda>f. length (in_directory f) + length (in_file_name f) + length (in_user_string f)) files)"

definition moderate :: "cpk_input_file list \<Rightarrow> cpk_writer_options \<Rightarrow> cpk_writer_profile \<Rightarrow> bool" where
  "moderate files options profile \<longleftrightarrow>
     (\<exists>m < 16. unat (alignment options) = 2 ^ m) \<and> files \<noteq> [] \<and> length files \<le> 2 ^ 20 \<and>
     names_length files \<le> 2 ^ 28 \<and> length (tvers profile) + length (comment profile) \<le> 1469 \<and>
     (has_itoc (index_mode profile) \<longrightarrow>
        distinct (map in_id files) \<and> (\<forall>f \<in> set files. unat (in_id f) < 2 ^ 16))"

lemma pool_bound:
  "length (nul_terminated (foldl add_string ss xs)) \<le> length (nul_terminated ss) + length (nul_terminated xs)"
proof (induction xs arbitrary: ss)
  case Nil
  then show ?case by simp
next
  case (Cons x xs)
  from Cons.IH [of "add_string ss x"] show ?case by (simp add: add_string_def split: if_splits)
qed

lemma validate_alignment_ok:
  assumes "unat a = 2 ^ m" and "m < 16"
  shows "validate_alignment a = Inr ()"
proof -
  have v: "unat (ucast a :: u32) = 2 ^ m" by (simp add: unat_ucast_wide assms(1))
  then have nz: "(ucast a :: u32) \<noteq> 0" by auto
  have "(ucast a :: u32) = of_nat (unat (ucast a :: u32))" by simp
  then have e: "(ucast a :: u32) = 2 ^ m" by (simp only: v of_nat_power of_nat_numeral)
  have "(2 ^ m :: u32) AND mask m = 0"
    by (rule bit_word_eqI) (auto simp: bit_and_iff bit_mask_iff bit_exp_iff)
  then have "(ucast a :: u32) AND (ucast a - 1) = 0" by (simp only: e mask_eq_exp_minus_1)
  with nz show ?thesis by (simp add: validate_alignment_def Let_def is_power_of_two_def)
qed

lemma physical_order_ok:
  assumes "has_itoc (index_mode profile) \<longrightarrow>
    distinct (map in_id files) \<and> (\<forall>f \<in> set files. unat (in_id f) < 2 ^ 16)"
  shows "\<exists>order. build_physical_order files profile = Inr order"
proof -
  have "check_ids used fs = Inr ()"
    if "distinct (map in_id fs)" "in_id ` set fs \<inter> used = {}" "\<forall>f \<in> set fs. unat (in_id f) < 2 ^ 16" for used fs
    using that
    by (induction used fs rule: check_ids.induct) (auto simp: word_less_nat_alt unat_ucast_wide not_less unsigned_minus_1_eq_mask mask_eq_exp_minus_1)
  with assms show ?thesis by (auto simp: build_physical_order_def)
qed

lemma header_table_ok:
  assumes "length (tvers profile) + length (comment profile) \<le> 1469"
  shows "\<exists>t. build_header_table archive_size content_offset content_size toc_offset toc_size itoc_offset
    itoc_size align file_count profile = Inr t \<and> length t + 16 \<le> unat COPYRIGHT_MARKER_OFFSET"
proof -
  let ?b = "header_builder archive_size content_offset content_size toc_offset toc_size itoc_offset
    itoc_size align file_count profile"
  note D = header_builder_def utf_table_builder_new_def header_columns_def utf_column_new_def header_row_def
  have "length (nul_terminated (builder_strings ?b)) =
      258 + length (tvers profile) + length (comment profile)"
    by (simp add: builder_strings_def D strings_of_def)
  then have len: "table_length ?b \<le> 557 + length (tvers profile) + length (comment profile)"
    using pool_bound [of "[[]]" "builder_strings ?b"]
    by (simp add: table_length_def) (simp add: D row_width_def data_of_def)
  moreover have "well_typed ?b"
    by (simp add: well_typed_def D numeral_eq_Suc All_less_Suc)
  moreover have "length (tb_columns ?b) \<le> 13000" "row_width (tb_columns ?b) < 2 ^ 16" "length (tb_rows ?b) < 2 ^ 32"
    by (simp_all add: D row_width_def)
  ultimately have "\<exists>t. build ?b = Inr t \<and> length t = table_length ?b"
    using assms by (intro build_ok) simp_all
  with len assms show ?thesis
    by (auto simp: build_header_table_def COPYRIGHT_MARKER_OFFSET_def ENGINE_INDEX_BASE_def)
qed

lemma strings_of_simps:
  "strings_of [] = []"
  "strings_of (UV_UInt16 w2 # vs) = strings_of vs"
  "strings_of (UV_UInt32 w4 # vs) = strings_of vs"
  "strings_of (UV_UInt64 w8 # vs) = strings_of vs"
  "strings_of (UV_String s # vs) = s # strings_of vs"
  "strings_of (UV_Data d # vs) = strings_of vs"
  "strings_of (vs @ ws) = strings_of vs @ strings_of ws"
  by (simp_all add: strings_of_def)

lemma toc_row_strings:
  "strings_of (concat (map toc_table_row (zip files offsets))) =
   concat (map (\<lambda>f. [in_directory f, in_file_name f, in_user_string f]) (map fst (zip files offsets)))"
proof -
  have "strings_of (concat (map toc_table_row rs)) =
      concat (map (\<lambda>f. [in_directory f, in_file_name f, in_user_string f]) (map fst rs))" for rs
    by (induction rs) (simp_all add: strings_of_simps toc_table_row_def)
  then show ?thesis .
qed

lemma nul_terminated_toc:
  "length offsets = length files \<Longrightarrow>
   length (nul_terminated (strings_of (concat (map toc_table_row (zip files offsets))))) =
     names_length files + 3 * length files"
proof -
  have "length (nul_terminated (concat (map (\<lambda>f. [in_directory f, in_file_name f, in_user_string f]) fs))) =
      names_length fs + 3 * length fs" for fs
    by (induction fs) (simp_all add: names_length_def)
  then show "length offsets = length files \<Longrightarrow> ?thesis" by (simp add: toc_row_strings)
qed

lemma toc_strings_same:
  "length offsets = length files \<Longrightarrow> length offsets' = length files \<Longrightarrow>
   strings_of (concat (map toc_table_row (zip files offsets))) =
   strings_of (concat (map toc_table_row (zip files offsets')))"
  by (simp add: toc_row_strings)

lemma toc_data_none: "data_of (concat (map toc_table_row rs)) = []"
  by (induction rs) (simp_all add: toc_table_row_def)

lemma toc_table_ok:
  assumes "length offsets = length files" and "length files \<le> 2 ^ 20" and "names_length files \<le> 2 ^ 28"
  shows "\<exists>t. build_toc_table files offsets = Inr t \<and> length t = table_length (toc_builder files (replicate (length files) 0)) \<and>
    length t \<le> 2 ^ 29"
proof -
  let ?b = "toc_builder files offsets"
  note D = toc_builder_def utf_table_builder_new_def toc_table_columns_def utf_column_new_def
  have same: "builder_strings ?b = builder_strings (toc_builder files (replicate (length files) 0))"
    using toc_strings_same [OF assms(1), of "replicate (length files) 0"]
    by (simp add: builder_strings_def toc_builder_def utf_table_builder_new_def)
  have tl: "table_length ?b = table_length (toc_builder files (replicate (length files) 0))"
    unfolding table_length_def same using assms(1) by (simp add: toc_builder_def utf_table_builder_new_def toc_data_none)
  have "length (nul_terminated (builder_strings ?b)) = 74 + names_length files + 3 * length files"
    using nul_terminated_toc [OF assms(1)] by (simp add: builder_strings_def D)
  then have "length (nul_terminated (foldl add_string [[]] (builder_strings ?b))) \<le>
      75 + names_length files + 3 * length files"
    using pool_bound [of "[[]]" "builder_strings ?b"] by simp
  moreover have "row_width (tb_columns ?b) = 32" "length (tb_columns ?b) = 7" "length (tb_rows ?b) = length files"
    using assms(1) by (simp_all add: D row_width_def)
  moreover have "data_of (concat (tb_rows ?b)) = []" by (simp add: D toc_data_none)
  ultimately have small: "table_length ?b \<le> 142 + 35 * length files + names_length files"
    by (simp add: table_length_def)
  have "well_typed ?b"
    by (auto simp: well_typed_def D toc_table_row_def numeral_eq_Suc All_less_Suc)
  moreover have "length (tb_columns ?b) \<le> 13000" "row_width (tb_columns ?b) < 2 ^ 16" "length (tb_rows ?b) < 2 ^ 32"
    using assms(1,2) by (simp_all add: D row_width_def)
  ultimately have "\<exists>t. build ?b = Inr t \<and> length t = table_length ?b"
    using small assms(2,3) by (intro build_ok) simp_all
  then show ?thesis using small assms(2,3) by (auto simp: build_toc_table_def tl)
qed

lemma itoc_row_cells:
  assumes "itoc_table_row low f = Inr row"
  shows "strings_of row = [] \<and> data_of row = [] \<and> length row = length (itoc_columns low) \<and>
    (\<forall>c < length (itoc_columns low). utf_value_type (row ! c) = uc_type (itoc_columns low ! c))"
proof (cases low)
  case True
  with assms obtain i a b where "row = [UV_UInt16 i, UV_UInt16 a, UV_UInt16 b]"
    by (auto simp: itoc_table_row_def and_then_Inr)
  then show ?thesis
    by (simp add: strings_of_simps itoc_columns_def utf_column_new_def True less_Suc_eq numeral_3_eq_3 numeral_2_eq_2)
next
  case False
  with assms obtain i a b where "row = [UV_UInt16 i, UV_UInt32 a, UV_UInt32 b]"
    by (auto simp: itoc_table_row_def and_then_Inr)
  then show ?thesis
    by (simp add: strings_of_simps itoc_columns_def utf_column_new_def False less_Suc_eq numeral_3_eq_3 numeral_2_eq_2)
qed

lemma itoc_table_row_ok:
  assumes "unat (in_id f) < 2 ^ 16" and "low \<Longrightarrow> fits_low_width f"
  shows "\<exists>row. itoc_table_row low f = Inr row"
proof -
  have "unat w < 2 ^ 16" if "w \<le> ucast (- 1 :: u16)" for w :: u32
    using that by (simp add: word_le_nat_alt unat_ucast_wide unsigned_minus_1_eq_mask mask_eq_exp_minus_1)
  with assms show ?thesis by (auto simp: itoc_table_row_def fits_low_width_def try_from_word_def)
qed

lemma itoc_rows_ok:
  assumes ok: "\<And>i. i \<in> set ixs \<Longrightarrow> unat (in_id (files ! i)) < 2 ^ 16 \<and> (low \<longrightarrow> fits_low_width (files ! i))"
    and "length ixs \<le> 2 ^ 20" and "length name \<le> 20"
  shows "\<exists>t. build_itoc_rows files ixs low name = Inr t \<and> length t \<le> 2 ^ 24"
proof -
  have "\<exists>rows. map_result (\<lambda>i. itoc_table_row low (files ! i)) is = Inr rows" if "set is \<subseteq> set ixs" for "is"
    using that by (induction "is") (use ok itoc_table_row_ok in \<open>force simp: result_iff\<close>)+
  then obtain rows where rows: "map_result (\<lambda>i. itoc_table_row low (files ! i)) ixs = Inr rows" by blast
  have len: "length rows = length ixs" by (rule map_result_length [OF rows])
  have each: "strings_of r = [] \<and> data_of r = [] \<and> length r = length (itoc_columns low) \<and>
    (\<forall>c < length (itoc_columns low). utf_value_type (r ! c) = uc_type (itoc_columns low ! c))" if "r \<in> set rows" for r
    using that map_result_nth [OF rows] len by (metis in_set_conv_nth itoc_row_cells)
  let ?b = "utf_table_builder_new name (itoc_columns low) rows"
  have typed: "well_typed ?b" using each by (simp add: well_typed_def utf_table_builder_new_def)
  have none: "strings_of (concat rs) = [] \<and> data_of (concat rs) = []" if "set rs \<subseteq> set rows" for rs
    using that each by (induction rs) (auto simp: strings_of_simps)
  have cols: "length (itoc_columns low) = 3" "row_width (itoc_columns low) \<le> 10"
    by (simp_all add: itoc_columns_def Let_def row_width_def utf_column_new_def)
  have "length (nul_terminated (builder_strings ?b)) = length name + 25"
    using none [of rows] by (simp add: builder_strings_def utf_table_builder_new_def itoc_columns_def Let_def utf_column_new_def)
  then have "length (nul_terminated (foldl add_string [[]] (builder_strings ?b))) \<le> length name + 26"
    using pool_bound [of "[[]]" "builder_strings ?b"] by simp
  moreover have "row_width (itoc_columns low) * length ixs \<le> 10 * 2 ^ 20"
    using cols(2) assms(2) by (rule mult_le_mono)
  ultimately have small: "table_length ?b \<le> 2 ^ 24"
    using none [of rows] assms(3) cols(1)
    by (simp add: table_length_def) (simp add: utf_table_builder_new_def len)
  have "\<exists>t. build ?b = Inr t \<and> length t = table_length ?b"
    using typed small cols assms(2) len
    by (intro build_ok) (simp_all add: utf_table_builder_new_def)
  with small rows show ?thesis by (auto simp: build_itoc_rows_def)
qed

lemma itoc_table_ok:
  assumes ids: "\<And>i. i \<in> set order \<Longrightarrow> unat (in_id (files ! i)) < 2 ^ 16" and len: "length order \<le> 2 ^ 20"
  shows "\<exists>t. build_itoc_table files order direct = Inr t \<and> length t \<le> 2 ^ 26"
proof (cases direct)
  case True
  have "\<exists>t. build_itoc_rows files order False ''CpkExtendId'' = Inr t \<and> length t \<le> 2 ^ 24"
    using ids len by (intro itoc_rows_ok) simp_all
  then show ?thesis by (auto simp: build_itoc_table_def True)
next
  case False
  let ?low = "filter (\<lambda>i. fits_low_width (files ! i)) order"
  let ?high = "filter (\<lambda>i. \<not> fits_low_width (files ! i)) order"
  have sub: "length ?low \<le> 2 ^ 20" "length ?high \<le> 2 ^ 20"
    using len by (meson length_filter_le order_trans)+
  have "\<exists>t. build_itoc_rows files ?low True ''CpkItocL'' = Inr t \<and> length t \<le> 2 ^ 24"
    using ids sub by (intro itoc_rows_ok) auto
  then obtain lt where l: "build_itoc_rows files ?low True ''CpkItocL'' = Inr lt" "length lt \<le> 2 ^ 24" by blast
  have "\<exists>t. build_itoc_rows files ?high False ''CpkItocH'' = Inr t \<and> length t \<le> 2 ^ 24"
    using ids sub by (intro itoc_rows_ok) auto
  then obtain ht where h: "build_itoc_rows files ?high False ''CpkItocH'' = Inr ht" "length ht \<le> 2 ^ 24" by blast
  let ?b = "itoc_outer_builder lt ht"
  note D = itoc_outer_builder_def utf_table_builder_new_def utf_column_new_def
  have "length (nul_terminated (foldl add_string [[]] (builder_strings ?b))) \<le> 25"
    using pool_bound [of "[[]]" "builder_strings ?b"]
    by (simp add: builder_strings_def D strings_of_simps)
  then have small: "table_length ?b \<le> 2 ^ 26"
    using l(2) h(2) by (simp add: table_length_def) (simp add: D row_width_def)
  have "well_typed ?b" by (simp add: well_typed_def D numeral_eq_Suc All_less_Suc)
  then have "\<exists>t. build ?b = Inr t \<and> length t = table_length ?b"
    using small by (intro build_ok) (simp_all add: D row_width_def)
  with small l(1) h(1) show ?thesis by (auto simp: build_itoc_table_def False)
qed

text \<open>An index chunk of at most \<open>n\<close> bytes moves the cursor by at most \<open>n + 16\<close> and an alignment.\<close>

lemma align_up_ok:
  assumes a: "unat a = 2 ^ m" "m < 16" and "unat v < 2 ^ 63"
  shows "\<exists>w. align_up v a = Inr w \<and> unat w = round_up (unat a) (unat v) \<and> unat w < unat v + 2 ^ 15 + 1"
proof -
  have p: "(2 :: nat) ^ m \<le> 2 ^ 15" using a(2) by (intro power_increasing) simp_all
  then have "unat v + (unat a - 1) < 2 ^ 64" using assms(1,3) by simp
  then have w: "align_up v a = Inr (of_nat (round_up (unat a) (unat v)))" using align_up_eq [OF a] by simp
  have "0 < unat a" using a(1) by simp
  from align_up_Inr(1) [OF a w] round_up_lt [OF this, of "unat v"] p a(1) w show ?thesis by auto
qed

lemma place_index_ok:
  assumes a: "unat a = 2 ^ m" "m < 16" and c: "unat c < 2 ^ 40"
    and t: "\<And>t. table = Some t \<Longrightarrow> length t \<le> 2 ^ 29"
  shows "\<exists>off c'. place_index a table c = Inr (off, c') \<and> unat c' \<le> unat c + 2 ^ 29 + 2 ^ 16"
proof (cases table)
  case None
  then show ?thesis by (simp add: place_index_def)
next
  case (Some t)
  with assms(4) have len: "length t \<le> 2 ^ 29" by blast
  let ?n = "of_nat CPK_CHUNK_HEADER_SIZE + of_nat (length t) :: u64"
  have ut: "unat (of_nat (length t) :: u64) = length t" using len by (simp add: unat_of_nat_fits)
  have un: "unat ?n = 16 + length t"
    using len ut by (subst unat_add_fits) (simp_all add: CPK_CHUNK_HEADER_SIZE_def)
  have n: "chunk_size t = Inr ?n"
    using len ut by (simp add: chunk_size_def try_from_nat_def checked_add_def CPK_CHUNK_HEADER_SIZE_def)
  have ue: "unat (c + ?n) = unat c + 16 + length t"
    using len c un by (subst unat_add_fits) simp_all
  have e: "checked_add c ?n = Some (c + ?n)" using len c un by (simp add: checked_add_def)
  have "unat (c + ?n) < 2 ^ 63" unfolding ue using len c by simp
  from align_up_ok [OF a this] obtain w where w: "align_up (c + ?n) a = Inr w" "unat w < unat (c + ?n) + 2 ^ 15 + 1"
    by blast
  have "place_index a table c = Inr (c, w)" by (simp add: place_index_def Some n e w(1))
  moreover have "unat w \<le> unat c + 2 ^ 29 + 2 ^ 16" using w(2) len ue by simp
  ultimately show ?thesis by blast
qed

lemma place_payloads_ok:
  assumes a: "unat a = 2 ^ m" "m < 16"
  shows "unat c + length order * 2 ^ 33 < 2 ^ 62 \<Longrightarrow>
    \<exists>offs end_off. fold_result (place_payload files a) (offs0, c) order = Inr (offs, end_off)"
proof (induction order arbitrary: offs0 c)
  case Nil
  then show ?case by simp
next
  case (Cons i order)
  let ?s = "ucast (in_size (files ! i)) :: u64"
  have us: "unat ?s < 2 ^ 32" using unat_lt2p [of "in_size (files ! i)"] by (simp add: unat_ucast_wide)
  have c: "unat c < 2 ^ 62" using Cons.prems by simp
  have ue: "unat (c + ?s) = unat c + unat ?s" using us c by (subst unat_add_fits) simp_all
  have e: "checked_add c ?s = Some (c + ?s)" using us c by (simp add: checked_add_def)
  have "unat (c + ?s) < 2 ^ 63" unfolding ue using us c by simp
  from align_up_ok [OF a this] obtain w where w: "align_up (c + ?s) a = Inr w" "unat w < unat (c + ?s) + 2 ^ 15 + 1"
    by blast
  have step: "place_payload files a (offs0, c) i = Inr (offs0[i := c], w)"
    by (simp add: place_payload_def Let_def e w(1))
  have "unat w \<le> unat c + 2 ^ 33" using w(2) ue us by simp
  then have "unat w + length order * 2 ^ 33 < 2 ^ 62" using Cons.prems by simp
  from Cons.IH [OF this] show ?case by (simp add: step)
qed

text \<open>The three steps of a plan: the index chunks, the payloads, the offsets the table of contents holds.\<close>

lemma place_indexes_ok:
  assumes a: "unat a = 2 ^ m" "m < 16"
    and toc: "\<And>t. toc = Some t \<Longrightarrow> length t \<le> 2 ^ 29" and itoc: "\<And>t. itoc = Some t \<Longrightarrow> length t \<le> 2 ^ 29"
  obtains off1 c1 off2 c2 c where "place_index a toc ENGINE_INDEX_BASE = Inr (off1, c1)"
    and "place_index a itoc c1 = Inr (off2, c2)" and "align_up c2 a = Inr c"
    and "0x800 \<le> unat c" and "unat c < 2 ^ 31"
proof -
  have base: "unat ENGINE_INDEX_BASE = 0x800" by (simp add: ENGINE_INDEX_BASE_def)
  have "unat ENGINE_INDEX_BASE < 2 ^ 40" by (simp add: base)
  with toc obtain off1 c1 where p1: "place_index a toc ENGINE_INDEX_BASE = Inr (off1, c1)"
      "unat c1 \<le> 0x800 + 2 ^ 29 + 2 ^ 16"
    using place_index_ok [OF a, of ENGINE_INDEX_BASE toc] unfolding base by blast
  from place_index_ok [OF a, of c1 itoc] itoc p1(2) obtain off2 c2 where
    p2: "place_index a itoc c1 = Inr (off2, c2)" "unat c2 \<le> unat c1 + 2 ^ 29 + 2 ^ 16" by auto
  have "unat c2 < 2 ^ 63" using p1(2) p2(2) by simp
  from align_up_ok [OF a this] obtain c where c: "align_up c2 a = Inr c" "unat c < unat c2 + 2 ^ 15 + 1"
    "unat c = round_up (unat a) (unat c2)" by blast
  have "0x800 \<le> unat c1" using place_index_Inr [OF a p1(1) refl, of Toc] by (simp add: base)
  moreover have "unat c1 \<le> unat c2" using place_index_Inr [OF a p2(1) refl, of Itoc] by simp
  ultimately have "0x800 \<le> unat c" using round_up_ge [of "unat c2" "unat a"] c(3) by simp
  moreover have "unat c < 2 ^ 31" using c(2) p1(2) p2(2) by simp
  ultimately show thesis using that p1(1) p2(1) c(1) by blast
qed

lemma payload_offsets_ok:
  assumes a: "unat a = 2 ^ m" "m < 16" and c: "0x800 \<le> unat c" "unat c < 2 ^ 31" "unat a dvd unat c"
    and order: "distinct order" "set order = {..<length files}" "length order = length files" and n: "length files \<le> 2 ^ 20"
  obtains offs e where "fold_result (place_payload files a) (replicate (length files) 0, c) order = Inr (offs, e)"
    and "length offs = length files" and "c \<le> e" and "\<forall>off \<in> set offs. ENGINE_INDEX_BASE \<le> off"
proof -
  have "unat c + length order * 2 ^ 33 < 2 ^ 62" using c(2) n order(3) by simp
  from place_payloads_ok [OF a this] obtain offs e where
    pp: "fold_result (place_payload files a) (replicate (length files) 0, c) order = Inr (offs, e)" by blast
  from place_payloads_Inr [OF a pp c(3)] order have
    L: "length offs = length files" "unat e = physical_offset (unat a) (unat c) files order (length files)"
      "\<And>k. k < length files \<Longrightarrow> unat (offs ! (order ! k)) = physical_offset (unat a) (unat c) files order k" by auto
  have ge: "unat c \<le> physical_offset (unat a) (unat c) files order k" for k by (simp add: physical_offset_def)
  have "ENGINE_INDEX_BASE \<le> offs ! i" if "i < length files" for i
  proof -
    have "i \<in> set order" using that order by simp
    then obtain k where "k < length files" "order ! k = i" using order(3) by (metis in_set_conv_nth)
    with L(3) [of k] ge [of k] c(1) show ?thesis by (simp add: word_le_nat_alt ENGINE_INDEX_BASE_def)
  qed
  then have "\<forall>off \<in> set offs. ENGINE_INDEX_BASE \<le> off" using L(1) by (auto simp: in_set_conv_nth)
  moreover have "c \<le> e" using L(2) ge [of "length files"] by (simp add: word_le_nat_alt)
  ultimately show thesis using that pp L(1) by blast
qed

lemma relative_offsets_ok:
  "\<forall>off \<in> set offs. ENGINE_INDEX_BASE \<le> off \<Longrightarrow>
   relative_offsets offs = Inr (map (\<lambda>off. off - ENGINE_INDEX_BASE) offs)"
  unfolding relative_offsets_def by (intro map_result_all_Inr) (auto simp: checked_sub_def)

lemma plan_archive_moderate:
  assumes mod: "moderate files options profile"
  shows "\<exists>lo. plan_archive files options profile = Inr lo \<and> unat (lo_content_offset lo) < 2 ^ 32"
proof -
  let ?a = "ucast (alignment options) :: u64" and ?mode = "index_mode profile" and ?n = "length files"
  from mod obtain m where al: "unat (alignment options) = 2 ^ m" "m < 16"
    and ne: "files \<noteq> []" and n: "?n \<le> 2 ^ 20" and names: "names_length files \<le> 2 ^ 28"
    and strs: "length (tvers profile) + length (comment profile) \<le> 1469"
    and ids: "has_itoc ?mode \<longrightarrow> distinct (map in_id files) \<and> (\<forall>f \<in> set files. unat (in_id f) < 2 ^ 16)"
    unfolding moderate_def by blast
  have a: "unat ?a = 2 ^ m" "m < 16" using al by (simp_all add: unat_ucast_wide)
  note va = validate_alignment_ok [OF al]
  from physical_order_ok [OF ids] obtain order where o: "build_physical_order files profile = Inr order" by blast
  note O = build_physical_order_Inr [OF o]
  from toc_table_ok [of "replicate ?n 0", OF _ n names] obtain toc0 where
    toc0: "build_toc_table files (replicate ?n 0) = Inr toc0" "length toc0 \<le> 2 ^ 29"
      "length toc0 = table_length (toc_builder files (replicate ?n 0))" by auto
  have "\<exists>it. optional_table (has_itoc ?mode) (build_itoc_table files order (direct_itoc profile)) = Inr it \<and>
      (\<forall>t. it = Some t \<longrightarrow> length t \<le> 2 ^ 29)"
  proof (cases "has_itoc ?mode")
    case True
    have "\<exists>t. build_itoc_table files order (direct_itoc profile) = Inr t \<and> length t \<le> 2 ^ 26"
      using ids True O n by (intro itoc_table_ok) auto
    then show ?thesis by (auto simp: optional_table_def True)
  qed (simp add: optional_table_def)
  then obtain it where it: "optional_table (has_itoc ?mode) (build_itoc_table files order (direct_itoc profile)) = Inr it"
    and itl: "\<And>t. it = Some t \<Longrightarrow> length t \<le> 2 ^ 29" by blast
  let ?toc = "if has_toc ?mode then Some toc0 else None"
  have tp: "optional_table (has_toc ?mode) (build_toc_table files (replicate ?n 0)) = Inr ?toc"
    by (simp add: optional_table_def toc0)
  have tocl: "length t \<le> 2 ^ 29" if "?toc = Some t" for t using that toc0(2) by (auto split: if_splits)
  from place_indexes_ok [OF a tocl itl] obtain off1 c1 off2 c2 c where
    p1: "place_index ?a ?toc ENGINE_INDEX_BASE = Inr (off1, c1)" and p2: "place_index ?a it c1 = Inr (off2, c2)"
    and c: "align_up c2 ?a = Inr c" and cbase: "0x800 \<le> unat c" and c32: "unat c < 2 ^ 31" .
  from c32 have no_big: "\<not> c > ucast (- 1 :: u32)"
    by (simp add: word_le_nat_alt not_less unat_ucast_wide unsigned_minus_1_eq_mask mask_eq_exp_minus_1)
  from payload_offsets_ok [OF a cbase c32 align_up_Inr(2) [OF a c] _ _ _ n, of order] O obtain offs e where
    pp: "fold_result (place_payload files ?a) (replicate ?n 0, c) order = Inr (offs, e)"
    and L: "length offs = ?n" "c \<le> e" "\<forall>off \<in> set offs. ENGINE_INDEX_BASE \<le> off" by blast
  from L(2) have cs: "checked_sub e c = Some (e - c)" by (simp add: checked_sub_def)
  note relative_offsets_ok [OF L(3)]
  moreover from toc_table_ok [of "map (\<lambda>off. off - ENGINE_INDEX_BASE) offs", OF _ n names] L(1) obtain toc where
    toc: "build_toc_table files (map (\<lambda>off. off - ENGINE_INDEX_BASE) offs) = Inr toc"
      "length toc = length toc0" by (auto simp: toc0(3))
  ultimately have tt: "(if has_toc ?mode
      then and_then (relative_offsets offs) (\<lambda>offs. result_map Some (build_toc_table files offs))
      else Inr None) = Inr (if has_toc ?mode then Some toc else None)" by simp
  have fc: "try_from_nat ?n = Some (of_nat ?n :: u32)" using n by (simp add: try_from_nat_def)
  note H = header_table_ok [OF strs]
  let ?tc = "map_option (build_chunk Toc) (if has_toc ?mode then Some toc else None)"
  let ?ic = "map_option (build_chunk Itoc) it"
  from H obtain h where h: "build_header_table e c (e - c) off1 (chunk_len ?tc) off2 (chunk_len ?ic)
      (alignment options) (of_nat ?n) profile = Inr h" "length h + 16 \<le> unat COPYRIGHT_MARKER_OFFSET" by blast
  have hl: "\<not> length (build_chunk Cpk h) > unat COPYRIGHT_MARKER_OFFSET"
    using h(2) by (simp add: build_chunk_def)
  have same: "map_option length ?toc = map_option length (if has_toc ?mode then Some toc else None)"
    using toc(2) by simp
  have "\<exists>lo. plan_archive files options profile = Inr lo \<and> lo_content_offset lo = c"
    unfolding plan_archive_def Let_def
    by (simp only: va ne fc o tp it p1 p2 c no_big pp cs tt h(1) hl and_then_simps ok_or_simps
        prod.case if_False simp_thms same ex_simps sum.inject) simp
  with c32 show ?thesis by auto
qed

lemma write_with_profile_ok:
  assumes mod: "moderate files options profile" and empty: "contents out = []" and sane: "files_sane fs"
    and ready: "\<forall>f \<in> set files. payload_ready p5r fs (p5r_encryption options) f"
  shows "\<exists>report out'. write_with_profile p5r fs out files options profile = Inr (report, out') \<and>
    unat (rep_content_offset report) < 2 ^ 32"
proof -
  from plan_archive_moderate [OF mod] obtain lo where
    lo: "plan_archive files options profile = Inr lo" "unat (lo_content_offset lo) < 2 ^ 32" by blast
  from emit_archive_iff [OF plan_archive_ok [OF lo(1)] empty sane] ready obtain out' where
    "emit_archive p5r fs files (p5r_encryption options) lo out = Inr out'" by blast
  with lo show ?thesis by (simp add: write_with_profile_def)
qed

end
