(* ===== verification/Rebuild.thy ===== *)
theory Rebuild
  imports Unpack_Round_Trip Archive_Success
begin

text \<open>
  Packing the directory an archive was unpacked to.  \<open>unpacked_contents\<close>: after a successful unpack
  every file holds what the library extracts from its entry.  \<open>unchanged_inputs\<close>: the inputs the
  manifest leads to are then the entries of the archive, in order.  \<open>packs_again\<close>: \<open>pack\<close> succeeds on
  them, with the index the archive had, and its archive lists the inputs in the same order.
\<close>

section \<open>What the unpacked files hold\<close>

lemma same_archive_sym: "same_archive rd rd' \<Longrightarrow> same_archive rd' rd"
  by (simp add: same_archive_def)

lemma read_packed_same:
  assumes "same_archive rd0 rd" and "read_packed_file rd file = Inr (bs, rd')"
  shows "\<exists>rd''. read_packed_file rd0 file = Inr (bs, rd'') \<and> same_archive rd0 rd'"
proof -
  from read_packed_again [OF same_archive_sym [OF assms(1)] assms(2)] obtain rd'' where
    r: "read_packed_file rd0 file = Inr (bs, rd'')" by blast
  from read_packed_again [OF assms(1) r] assms(2) r show ?thesis by simp
qed

context file_decryptor
begin

lemma unpack_file_extracts:
  assumes "reader_idle (us_reader s)" and "same_archive rd0 (us_reader s)"
    and "unpack_file is_encrypted_file decrypt_in_place heap memory out s (index, file) = Inr s'"
  obtains p extracted where "destination_of out file = Inr p" and "extracts_to rd0 file extracted"
    and "us_files s' = (us_files s)(p \<mapsto> extracted)"
    and "reader_idle (us_reader s')" and "same_archive rd0 (us_reader s')"
proof -
  from unpack_file_Inr [OF assms(3)] obtain packed extracted rd p entry where
    x: "extract_file_with_packed is_encrypted_file decrypt_in_place heap memory (us_reader s) file =
       Inr (Inr ((packed, extracted), rd))"
    and p: "destination_of out file = Inr p"
    and s': "s' = s\<lparr>us_files := (us_files s)(p \<mapsto> extracted), us_reader := rd, us_entries := us_entries s @ [entry]\<rparr>"
    by metis
  from x have r: "read_packed_file (us_reader s) file = Inr (packed, rd)"
    and u: "unpacked (decrypted is_encrypted_file decrypt_in_place file packed) = Some extracted"
    unfolding extract_with_packed_eq [OF assms(1)] by (auto simp: result_iff split: sum.splits)
  from read_packed_same [OF assms(2) r] u that [OF p] s' extract_keeps_idle [OF assms(1) x] show thesis
    by (auto simp: extracts_to_def)
qed

lemma unpacked_contents:
  assumes run: "fold_result (unpack_file is_encrypted_file decrypt_in_place heap memory out) s xs = Inr s'"
    and idle: "reader_idle (us_reader s)" and same: "same_archive rd0 (us_reader s)"
    and distinct: "distinct (map (destination_of out \<circ> snd) xs)"
  shows "\<forall>x \<in> set xs. \<forall>p. destination_of out (snd x) = Inr p \<longrightarrow>
    (\<exists>bs. us_files s' p = Some bs \<and> extracts_to rd0 (snd x) bs)"
proof -
  let ?P = "\<lambda>(xs :: (nat \<times> cpk_file) list) s. reader_idle (us_reader s) \<and> same_archive rd0 (us_reader s) \<and>
    (distinct (map (destination_of out \<circ> snd) xs) \<longrightarrow> (\<forall>x \<in> set xs. \<forall>p. destination_of out (snd x) = Inr p \<longrightarrow>
      (\<exists>bs. us_files s p = Some bs \<and> extracts_to rd0 (snd x) bs)))"
  have "?P xs s'"
  proof (rule fold_result_invariant [OF run, where P = ?P])
    fix ys y zs u v
    assume IH: "?P ys u" and step: "unpack_file is_encrypted_file decrypt_in_place heap memory out u y = Inr v"
    obtain index "file" where y: "y = (index, file)" by (cases y)
    from IH unpack_file_extracts [OF _ _ step [unfolded y], of rd0] obtain p extracted where
      p: "destination_of out file = Inr p" and e: "extracts_to rd0 file extracted"
      and v: "us_files v = (us_files u)(p \<mapsto> extracted)"
      and rest: "reader_idle (us_reader v)" "same_archive rd0 (us_reader v)" by blast
    have "\<exists>bs. us_files v q = Some bs \<and> extracts_to rd0 (snd x) bs"
      if d: "distinct (map (destination_of out \<circ> snd) (ys @ [y]))" and x: "x \<in> set (ys @ [y])"
        and q: "destination_of out (snd x) = Inr q" for x q
    proof (cases "x \<in> set ys")
      case True
      with d q p y have "q \<noteq> p" by (auto simp: image_iff)
      with IH d True q show ?thesis by (simp add: v)
    next
      case False
      with x q p e y show ?thesis by (simp add: v)
    qed
    with rest show "?P (ys @ [y]) v" by blast
  qed (simp add: idle same)
  with distinct show ?thesis by blast
qed

end

section \<open>The inputs of the rebuild\<close>

definition relative_of :: "manifest_entry \<Rightarrow> path" where
  "relative_of e = (case safe_relative_path (me_directory e) (me_file_name e) of Inr r \<Rightarrow> r | Inl _ \<Rightarrow> [])"

definition entry_input :: "(path \<rightharpoonup> bytes) \<Rightarrow> path \<Rightarrow> manifest_entry \<Rightarrow> cpk_input_file" where
  "entry_input fs root e =
     (let n = of_nat (length (case fs (path_push root (relative_of e)) of Some bs \<Rightarrow> bs | None \<Rightarrow> [])) in
      \<lparr>in_directory = me_directory e, in_file_name = me_file_name e, source_path = path_push root (relative_of e),
       in_size = n, in_extract_size = n, in_id = me_id e, in_user_string = me_user_string e, raw_payload = None\<rparr>)"

text \<open>The file of an entry is at its place and has a size an archive can hold.\<close>

definition entry_there :: "(path \<rightharpoonup> bytes) \<Rightarrow> path \<Rightarrow> manifest_entry \<Rightarrow> bool" where
  "entry_there fs root e \<longleftrightarrow>
     safe_relative_path (me_directory e) (me_file_name e) = Inr (relative_of e) \<and>
     (\<exists>bs. fs (path_push root (relative_of e)) = Some bs \<and> length bs < 2 ^ 32)"

lemma gather_entry_there:
  assumes "entry_there fs root e"
  shows "gather_entry avail m fs root False g e =
    Inr (g\<lparr>g_files := g_files g @ [entry_input fs root e], g_known_paths := relative_of e # g_known_paths g,
           g_used_ids := me_id e # g_used_ids g\<rparr>)"
proof -
  from assms obtain bs where r: "safe_relative_path (me_directory e) (me_file_name e) = Inr (relative_of e)"
    and bs: "fs (path_push root (relative_of e)) = Some bs" "length bs < 2 ^ 32"
    by (auto simp: entry_there_def)
  have "unat (of_nat (length bs) :: u64) = length bs" using bs(2) by (intro unat_of_nat_fits) simp
  then have "u32_or TooLargeForCpk (of_nat (length bs)) = Inr (of_nat (length bs))"
    using bs(2) by (simp add: u32_or_def try_from_word_def) (metis of_nat_unat)
  then have "known_input avail m fs False e (path_push root (relative_of e)) = Inr (entry_input fs root e)"
    using bs(1) by (simp add: known_input_def hash_file_eq raw_payload_of_def Let_def entry_input_def)
  with r bs(1) show ?thesis by (simp add: gather_entry_def domIff)
qed

lemma gather_entries_there:
  "\<forall>e \<in> set es. entry_there fs root e \<Longrightarrow>
   fold_result (gather_entry avail m fs root False) g es =
     Inr (g\<lparr>g_files := g_files g @ map (entry_input fs root) es,
            g_known_paths := rev (map relative_of es) @ g_known_paths g,
            g_used_ids := rev (map me_id es) @ g_used_ids g\<rparr>)"
  by (induction es arbitrary: g) (simp_all add: gather_entry_there)

lemma start_ids_succeeds:
  fixes taken :: "u32 list"
  assumes "- 1 \<notin> set taken"
  shows "\<exists>s. start_ids itoc taken = Inr s"
proof (cases "taken = [] \<or> itoc")
  case False
  then have "Max (set taken) \<in> set taken" by simp
  with assms have "Max (set taken) \<noteq> - 1" by metis
  then have "unat (Max (set taken)) \<noteq> unat (- 1 :: u32)" by (metis word_unat_eq_iff)
  with unat_lt2p [of "Max (set taken)"] have "unat (Max (set taken)) + 1 < 2 ^ 32"
    by (simp add: unsigned_minus_1_eq_mask mask_eq_exp_minus_1)
  with False show ?thesis by (simp add: start_ids_def checked_add_def)
qed (auto simp: start_ids_def)

lemma unchanged_inputs:
  assumes there: "\<forall>e \<in> set (mf_entries m). entry_there fs root e"
    and ids: "- 1 \<notin> set (map me_id (mf_entries m))"
    and walk: "collect_relative_files h root target = Some (Inr found)"
    and found: "\<forall>r \<in> set found. \<exists>e \<in> set (mf_entries m). same_components (relative_of e) r"
  shows "build_inputs avail h m fs root target False = Some (Inr (map (entry_input fs root) (mf_entries m)))"
proof -
  have "new_paths (rev (map relative_of (mf_entries m))) found = []"
    using found by (auto simp: new_paths_def filter_empty_conv)
  moreover from ids obtain s where "start_ids (mf_has_itoc m) (rev (map me_id (mf_entries m))) = Inr s"
    using start_ids_succeeds [of "rev (map me_id (mf_entries m))"] by auto
  ultimately show ?thesis
    using walk by (simp add: build_inputs_def gather_entries_there [OF there])
qed

section \<open>Two facts about the writer\<close>

text \<open>It reads no other files than its inputs.\<close>

definition payload_path :: "cpk_input_file \<Rightarrow> path" where
  "payload_path f = (case raw_payload f of Some raw \<Rightarrow> archive_path raw | None \<Rightarrow> source_path f)"

lemma fold_result_cong: "(\<And>x s. x \<in> set xs \<Longrightarrow> f s x = g s x) \<Longrightarrow> fold_result f s xs = fold_result g s xs"
proof (induction xs arbitrary: s)
  case (Cons x xs)
  then show ?case by (cases "g s x") simp_all
qed simp

lemma write_reads_inputs:
  assumes "\<forall>f \<in> set files. fs (payload_path f) = fs' (payload_path f)"
  shows "write_with_profile p5r fs out files options profile = write_with_profile p5r fs' out files options profile"
proof (cases "plan_archive files options profile")
  case (Inr lo)
  have "write_payload p5r fs files e (lo_offsets lo) s x = write_payload p5r fs' files e (lo_offsets lo) s x"
    if "x \<in> set (lo_order lo)" for e s x
  proof -
    have "x < length files" using that plan_archive_ok [OF Inr] by (auto simp: planned_def)
    with assms have "fs (payload_path (files ! x)) = fs' (payload_path (files ! x))" by simp
    then have "write_file_payload p5r fs (files ! x) e t = write_file_payload p5r fs' (files ! x) e t" for t
      by (cases p5r; cases "raw_payload (files ! x)")
        (simp_all add: payload_path_def write_file_payload_def write_raw_payload_def write_encrypted_payload_def open_file_def)
    then show ?thesis by (simp add: write_payload_def Let_def)
  qed
  then have "emit_archive p5r fs files e lo out = emit_archive p5r fs' files e lo out" for e
    unfolding emit_archive_def by (metis (no_types, lifting) fold_result_cong)
  with Inr show ?thesis by (simp add: write_with_profile_def)
qed (simp add: write_with_profile_def)

lemma packed_payload_cong:
  "fs (payload_path f) = fs' (payload_path f) \<Longrightarrow> packed_payload p5r fs e f = packed_payload p5r fs' e f"
  by (cases "raw_payload f") (simp_all add: packed_payload_def payload_path_def)

lemma archive_reads_back_cong:
  assumes "archive_reads_back sjis archive p5r fs encrypt files entries"
    and "\<forall>f \<in> set files. packed_payload p5r fs encrypt f = packed_payload p5r fs' encrypt f"
  shows "archive_reads_back sjis archive p5r fs' encrypt files entries"
  using assms by (fastforce simp: archive_reads_back_def Let_def split: prod.splits)

text \<open>Its archives show the reader their index and their alignment.\<close>

lemma written_metadata:
  assumes w: "write_with_profile p5r fs out files options profile = Inr (report, out')"
    and empty: "contents out = []" and sane: "files_sane fs"
    and strs: "pool_strings_ok [tvers profile, comment profile]"
    and files: "get_files sjis (cpk_reader_new slab_address \<lparr>contents = contents out', position = 0\<rparr>) = (Inr entries, rd)"
  shows "\<exists>md. rd_metadata rd = Some md \<and> md_align md = alignment options \<and>
    (md_itoc_offset md \<noteq> 0 \<longleftrightarrow> has_itoc (index_mode profile)) \<and> (md_toc_offset md \<noteq> 0 \<longleftrightarrow> has_toc (index_mode profile))"
proof -
  from write_with_profile_stores [OF w empty sane] obtain lo where
    plan: "plan_archive files options profile = Inr lo"
    and stored: "archive_stores p5r fs files (p5r_encryption options) lo (contents out')" by auto
  let ?rd = "cpk_reader_new slab_address \<lparr>contents = contents out', position = 0\<rparr>"
  have "stored_at 0 (lo_header_chunk lo) (contents (rd_stream ?rd))" "rd_start_pos ?rd = 0"
    using stored by (simp_all add: archive_stores_def cpk_reader_new_def)
  from read_header_back [OF plan strs this, of sjis] obtain md s where
    hd: "read_header sjis ?rd = Inr (md, s)" and md: "md_toc_offset md = lo_toc_offset lo"
      "md_itoc_offset md = lo_itoc_offset lo" "md_align md = alignment options" by blast
  from plan_archive_Inr [OF plan] have "lo_toc_chunk lo \<noteq> None \<longleftrightarrow> has_toc (index_mode profile)"
    "lo_itoc_chunk lo \<noteq> None \<longleftrightarrow> has_itoc (index_mode profile)"
    by (auto simp: result_iff optional_table_def split: if_splits)
  moreover have "lo_itoc_offset lo \<noteq> 0" if "ENGINE_INDEX_BASE \<le> lo_itoc_offset lo"
    using that by (auto simp: ENGINE_INDEX_BASE_def)
  moreover have "ENGINE_INDEX_BASE \<noteq> 0" by (simp add: ENGINE_INDEX_BASE_def)
  ultimately have "(lo_toc_offset lo \<noteq> 0 \<longleftrightarrow> has_toc (index_mode profile)) \<and>
      (lo_itoc_offset lo \<noteq> 0 \<longleftrightarrow> has_itoc (index_mode profile))"
    using plan_archive_ok [OF plan] unfolding planned_def by metis
  moreover have "rd_metadata rd = Some md"
    using files hd by (auto simp: get_files_def Let_def split: sum.splits if_splits prod.splits)
  ultimately show ?thesis using md by auto
qed

section \<open>Packing again\<close>

text \<open>The ID an entry has, or gets from its position.\<close>

definition given_id :: "nat \<Rightarrow> cpk_file \<Rightarrow> u32" where
  "given_id i f = (case id_opt f of Some k \<Rightarrow> k | None \<Rightarrow> of_nat i)"

text \<open>
  What the archive and the directory have to be like: IDs that fit an ID table when there is one, an
  alignment the writer accepts, names that are paths and lead to different files, none of them the
  new archive, files an archive can hold, an unused largest ID, and no file the manifest does not
  know.
\<close>

definition rebuildable :: "path \<Rightarrow> path \<Rightarrow> (path \<rightharpoonup> bytes) \<Rightarrow> path list \<Rightarrow> cpk_metadata \<Rightarrow> cpk_file list \<Rightarrow> bool" where
  "rebuildable root target fs found md files \<longleftrightarrow>
     (md_itoc_offset md \<noteq> 0 \<longrightarrow>
        distinct (map2 given_id [0..<length files] files) \<and>
        (\<forall>i < length files. unat (given_id i (files ! i)) < 2 ^ 16)) \<and>
     (\<exists>k < 16. unat (max (md_align md) 1) = 2 ^ k) \<and>
     files \<noteq> [] \<and> length files \<le> 2 ^ 20 \<and>
     sum_list (map (\<lambda>f. length (directory f) + length (file_name f) + length (user_string f)) files) \<le> 2 ^ 28 \<and>
     distinct (map (destination_of root) files) \<and>
     (\<forall>f \<in> set files. file_name f \<noteq> [] \<and> id_opt f \<noteq> Some (- 1) \<and>
        (\<exists>r. safe_relative_path (directory f) (file_name f) = Inr r \<and> path_push root r \<noteq> target \<and>
           path_push root r \<noteq> temporary_path root \<and>
           (\<forall>bs. fs (path_push root r) = Some bs \<longrightarrow> length bs < 2 ^ 32))) \<and>
     (\<forall>r \<in> set found. \<exists>f \<in> set files. \<exists>q.
        safe_relative_path (directory f) (file_name f) = Inr q \<and> same_components q r)"

text \<open>
  What holds of a listing by its index: there is one, and without a table of contents the entries are
  in the order of their IDs, which give their names.
\<close>

definition listed_under :: "cpk_metadata \<Rightarrow> cpk_file list \<Rightarrow> bool" where
  "listed_under md files \<longleftrightarrow>
     (md_toc_offset md \<noteq> 0 \<or> md_itoc_offset md \<noteq> 0) \<and>
     (md_toc_offset md = 0 \<longrightarrow>
        (\<forall>f \<in> set files. directory f = [] \<and> user_string f = [] \<and>
           (\<exists>k. id_opt f = Some k \<and> file_name f = itoc_file_name k)) \<and>
        sorted (map (\<lambda>f. the (id_opt f)) files))"

lemma get_files_listed_under:
  assumes "get_files sjis rd = (Inr files, rd')" and "rd_metadata rd' = Some md"
  shows "listed_under md files"
proof -
  have itoc: "(\<forall>f \<in> set fs. directory f = [] \<and> user_string f = [] \<and>
      (\<exists>k. id_opt f = Some k \<and> file_name f = itoc_file_name k)) \<and> sorted (map (\<lambda>f. the (id_opt f)) fs)"
    if "itoc_files sjis md itoc = Inr fs" for itoc fs
  proof -
    have "directory f = [] \<and> user_string f = [] \<and> (\<exists>k. id_opt f = Some k \<and> file_name f = itoc_file_name k)"
      if "f \<in> set fs" for f
    proof -
      from that obtain k where k: "k < length fs" "f = fs ! k" by (auto simp: in_set_conv_nth)
      obtain off row where "f = file_at (md_content_offset md) off row"
        by (rule itoc_files_layout [OF \<open>itoc_files sjis md itoc = Inr fs\<close>]) (use k in auto)
      then show ?thesis by (simp add: file_at_def cpk_file_new_def)
    qed
    moreover have "sorted (map (\<lambda>f. the (id_opt f)) fs)"
      using itoc_files_disjoint(1) [OF that, THEN less_imp_le] by (auto simp: sorted_iff_nth_mono_less)
    ultimately show ?thesis by blast
  qed
  from assms obtain stream rd0 where
    "md_toc_offset md \<noteq> 0 \<or> md_itoc_offset md \<noteq> 0"
    "md_toc_offset md = 0 \<Longrightarrow> read_itoc sjis md rd0 = Inr (files, stream)"
    by (auto simp: get_files_def Let_def split: sum.splits if_splits prod.splits)
  moreover have "\<exists>itoc. itoc_files sjis md itoc = Inr files" if "read_itoc sjis md rd0 = Inr (files, stream)"
    using that by (auto simp: read_itoc_def result_iff split: if_splits)
  ultimately show ?thesis unfolding listed_under_def using itoc by blast
qed

text \<open>The new archive has the index and the alignment of the old one.\<close>

definition same_profile :: "cpk_metadata \<Rightarrow> cpk_metadata \<Rightarrow> bool" where
  "same_profile md md' \<longleftrightarrow>
     (md_toc_offset md' \<noteq> 0 \<longleftrightarrow> md_toc_offset md \<noteq> 0) \<and> (md_itoc_offset md' \<noteq> 0 \<longleftrightarrow> md_itoc_offset md \<noteq> 0) \<and>
     md_align md' = max (md_align md) 1"

lemma not_option_plain:
  "\<not> is_option v \<Longrightarrow> v \<noteq> ascii ''--align'' \<and> take 8 v \<noteq> ascii ''--align='' \<and> v \<noteq> ascii ''--p5r'' \<and>
    v \<noteq> ascii ''--reuse-raw-entries''"
  by (cases v) (auto simp: is_option_def ascii_def)

lemma pack_arguments_plain:
  "\<not> is_option root \<Longrightarrow> \<not> is_option target \<Longrightarrow> pack_arguments [root, target] =
     Inr (root, target, \<lparr>pa_positional = [root, target], pa_alignment = None, pa_p5r = False, pa_reuse = False\<rparr>)"
  using not_option_plain [of root] not_option_plain [of target] by (simp add: pack_arguments_def)

lemma pack_arguments_reuse:
  "\<not> is_option root \<Longrightarrow> \<not> is_option target \<Longrightarrow> pack_arguments [root, target, ascii ''--reuse-raw-entries''] =
     Inr (root, target, \<lparr>pa_positional = [root, target], pa_alignment = None, pa_p5r = False, pa_reuse = True\<rparr>)"
  using not_option_plain [of root] not_option_plain [of target] by (simp add: pack_arguments_def ascii_def)

lemma recorded_names:
  assumes "list_all2 (recorded_as root fs) (enumerate 0 files) es"
  shows "length es = length files"
    and "i < length files \<Longrightarrow> recorded_as root fs (i, files ! i) (es ! i)"
proof -
  show "length es = length files" using assms by (auto dest: list_all2_lengthD)
  show "recorded_as root fs (i, files ! i) (es ! i)" if "i < length files"
    using list_all2_nthD [OF assms, of i] that by (simp add: nth_enumerate_eq)
qed

lemma recorded_there:
  assumes rec: "recorded_as root fs (i, f) e" and path: "safe_relative_path (directory f) (file_name f) = Inr r"
    and small: "\<forall>bs. fs (path_push root r) = Some bs \<longrightarrow> length bs < 2 ^ 32"
  shows "entry_there fs root e" and "relative_of e = r" and "destination_of root f = Inr (path_push root r)"
proof -
  have names: "me_directory e = directory f" "me_file_name e = file_name f" using rec by (simp_all add: recorded_as_def)
  then show rel: "relative_of e = r" using path by (simp add: relative_of_def)
  show dest: "destination_of root f = Inr (path_push root r)"
    using safe_paths_agree [OF path] by (simp add: destination_of_def)
  with rec obtain bs where "fs (path_push root r) = Some bs" by (auto simp: recorded_as_def)
  with names path rel small show "entry_there fs root e" by (simp add: entry_there_def)
qed

text \<open>What holds of the entries of the manifest when the listing is \<open>rebuildable\<close>.\<close>

lemma rebuilt_entry:
  assumes rec: "list_all2 (recorded_as root fs) (enumerate 0 files) es"
    and ok: "rebuildable root target fs found md files" and i: "i < length files"
  shows "entry_there fs root (es ! i)" and "path_push root (relative_of (es ! i)) \<noteq> target"
    and "me_id (es ! i) \<noteq> - 1" and "file_name (files ! i) \<noteq> []"
    and "me_directory (es ! i) = directory (files ! i)" and "me_file_name (es ! i) = file_name (files ! i)"
    and "me_user_string (es ! i) = user_string (files ! i)"
proof -
  note rec = recorded_names(2) [OF rec i]
  from ok i obtain r where r: "safe_relative_path (directory (files ! i)) (file_name (files ! i)) = Inr r"
    "path_push root r \<noteq> target" "\<forall>bs. fs (path_push root r) = Some bs \<longrightarrow> length bs < 2 ^ 32"
    and f: "file_name (files ! i) \<noteq> []" "id_opt (files ! i) \<noteq> Some (- 1)"
    unfolding rebuildable_def by (meson nth_mem)
  with recorded_there [OF rec r(1,3)] show "entry_there fs root (es ! i)"
    "path_push root (relative_of (es ! i)) \<noteq> target" "file_name (files ! i) \<noteq> []" by simp_all
  show "me_directory (es ! i) = directory (files ! i)" "me_file_name (es ! i) = file_name (files ! i)"
    "me_user_string (es ! i) = user_string (files ! i)" using rec by (simp_all add: recorded_as_def)
  have "i < 2 ^ 20" using i ok by (simp add: rebuildable_def)
  then have "unat (of_nat i :: u32) < 2 ^ 20" by (simp add: unat_of_nat_fits)
  then have "(of_nat i :: u32) \<noteq> - 1" by (auto simp: unsigned_minus_1_eq_mask mask_eq_exp_minus_1)
  with f(2) rec show "me_id (es ! i) \<noteq> - 1" by (auto simp: recorded_as_def split: option.splits)
qed

lemma rebuilt_index:
  assumes "list_all2 (recorded_as root fs) (enumerate 0 files) es" and "e \<in> set es"
  shows "\<exists>i < length files. e = es ! i"
  using assms(2) recorded_names(1) [OF assms(1)] by (metis in_set_conv_nth)

lemma rebuilt_found:
  assumes rec: "list_all2 (recorded_as root fs) (enumerate 0 files) es"
    and ok: "rebuildable root target fs found md files" and r: "r \<in> set found"
  shows "\<exists>e \<in> set es. same_components (relative_of e) r"
proof -
  from ok r obtain f q where f: "f \<in> set files" "safe_relative_path (directory f) (file_name f) = Inr q" "same_components q r"
    unfolding rebuildable_def by meson
  then obtain i where i: "i < length files" "f = files ! i" by (auto simp: in_set_conv_nth)
  with f rebuilt_entry(5,6) [OF rec ok] have "relative_of (es ! i) = q" by (simp add: relative_of_def)
  with f(3) i recorded_names(1) [OF rec] show ?thesis by (intro bexI [of _ "es ! i"]) simp_all
qed

lemma rebuilt_inputs:
  assumes rec: "list_all2 (recorded_as root fs) (enumerate 0 files) es"
    and walk: "collect_relative_files h root target = Some (Inr found)"
    and ok: "rebuildable root target fs found md files"
  shows "build_inputs avail h (unpacked_manifest source bytes_read hash flag md es) fs root target False =
    Some (Inr (map (entry_input fs root) es))"
proof -
  let ?m = "unpacked_manifest source bytes_read hash flag md es"
  note entry = rebuilt_entry [OF rec ok]
  have "\<forall>r \<in> set found. \<exists>e \<in> set es. same_components (relative_of e) r"
    using rebuilt_found [OF rec ok] by blast
  moreover have "mf_entries ?m = es" by (simp add: unpacked_manifest_def)
  moreover have "\<forall>e \<in> set es. entry_there fs root e" "- 1 \<notin> set (map me_id es)"
    using rebuilt_index [OF rec] entry(1,3) by fastforce+
  ultimately show ?thesis using unchanged_inputs [of ?m fs root h target found avail] walk by simp
qed

definition rebuild_profile :: "cpk_metadata \<Rightarrow> cpk_writer_profile" where
  "rebuild_profile md =
     default_profile\<lparr>index_mode := (if md_toc_offset md \<noteq> 0 then if md_itoc_offset md \<noteq> 0 then Mode_TocAndItoc else Mode_Toc
         else Mode_Itoc), direct_itoc := (md_itoc_offset md \<noteq> 0 \<and> md_eid md \<noteq> 0),
       version := md_version md, revision := md_revision md, update_date_time := md_update_date_time md\<rparr>"

lemma rebuild_profile_simps [simp]:
  "tvers (rebuild_profile md) = tvers default_profile" "comment (rebuild_profile md) = comment default_profile"
  "has_toc (index_mode (rebuild_profile md)) \<longleftrightarrow> md_toc_offset md \<noteq> 0"
  "has_itoc (index_mode (rebuild_profile md)) \<longleftrightarrow> md_toc_offset md = 0 \<or> md_itoc_offset md \<noteq> 0"
  by (simp_all add: rebuild_profile_def has_toc_def has_itoc_def)

lemma writer_profile_unpacked:
  "md_toc_offset md \<noteq> 0 \<or> md_itoc_offset md \<noteq> 0 \<Longrightarrow>
   writer_profile (unpacked_manifest source bytes_read hash flag md es) = Inr (rebuild_profile md)"
  by (simp add: writer_profile_def unpacked_manifest_def rebuild_profile_def)

abbreviation rebuild_options :: "cpk_metadata \<Rightarrow> bool \<Rightarrow> cpk_writer_options" where
  "rebuild_options md flag \<equiv> \<lparr>alignment = max (md_align md) 1, p5r_encryption = flag\<rparr>"

text \<open>The identities of the inputs are those of the listing.\<close>

lemma rebuilt_identity:
  assumes rec: "list_all2 (recorded_as root fs) (enumerate 0 files) es"
    and keep: "list_all2 keeps_identity es inputs" and i: "i < length files"
  shows "in_directory (inputs ! i) = directory (files ! i)" and "in_file_name (inputs ! i) = file_name (files ! i)"
    and "in_user_string (inputs ! i) = user_string (files ! i)" and "in_id (inputs ! i) = given_id i (files ! i)"
  using recorded_names [OF rec] list_all2_nthD [OF keep, of i] i
  by (auto simp: keeps_identity_def recorded_as_def given_id_def)

lemma rebuilt_moderate:
  assumes rec: "list_all2 (recorded_as root fs) (enumerate 0 files) es"
    and ok: "rebuildable root target fs found md files" and under: "listed_under md files"
    and keep: "list_all2 keeps_identity es inputs"
  shows "moderate inputs (rebuild_options md flag) (rebuild_profile md)"
proof -
  have len: "length inputs = length files" using recorded_names(1) [OF rec] list_all2_lengthD [OF keep] by simp
  note same = rebuilt_identity [OF rec keep]
  have "map (\<lambda>f. length (in_directory f) + length (in_file_name f) + length (in_user_string f)) inputs =
    map (\<lambda>f. length (directory f) + length (file_name f) + length (user_string f)) files"
    using len same by (intro nth_equalityI) simp_all
  then have "names_length inputs \<le> 2 ^ 28"
    using ok unfolding names_length_def rebuildable_def by metis
  moreover have "distinct (map in_id inputs) \<and> (\<forall>f \<in> set inputs. unat (in_id f) < 2 ^ 16)"
    if "has_itoc (index_mode (rebuild_profile md))"
  proof -
    have "md_itoc_offset md \<noteq> 0" using that under by (auto simp: listed_under_def)
    with ok have ids: "distinct (map2 given_id [0..<length files] files)"
      "\<forall>i < length files. unat (given_id i (files ! i)) < 2 ^ 16" by (simp_all add: rebuildable_def)
    have "map in_id inputs = map2 given_id [0..<length files] files"
      using len same(4) by (intro nth_equalityI) simp_all
    with ids len same(4) show ?thesis by (auto simp: in_set_conv_nth)
  qed
  moreover have "\<exists>k < 16. unat (max (md_align md) 1) = 2 ^ k" using ok by (simp add: rebuildable_def)
  moreover have "length inputs \<le> 2 ^ 20" "inputs \<noteq> []" using ok len by (auto simp: rebuildable_def)
  moreover have "length (tvers default_profile) + length (comment default_profile) \<le> 1469"
    by (simp add: default_profile_def ascii_def)
  ultimately show ?thesis by (simp add: moderate_def)
qed

lemma rebuilt_texts:
  assumes rec: "list_all2 (recorded_as root fs) (enumerate 0 files) es"
    and ok: "rebuildable root target fs found md files" and keep: "list_all2 keeps_identity es inputs"
    and texts: "\<forall>f \<in> set files. pool_strings_ok [directory f, file_name f, user_string f]"
  shows "texts_ok inputs (rebuild_profile md)"
proof -
  note len = recorded_names(1) [OF rec] list_all2_lengthD [OF keep]
  have "pool_strings_ok [tvers (rebuild_profile md), comment (rebuild_profile md)]"
    by (simp add: pool_strings_ok_def, simp add: default_profile_def ascii_def)
  moreover have "pool_strings_ok [in_directory f, in_file_name f, in_user_string f] \<and> in_file_name f \<noteq> []"
    if "f \<in> set inputs" for f
  proof -
    from that len obtain i where i: "i < length files" "f = inputs ! i" by (metis in_set_conv_nth)
    with texts rebuilt_entry(4-7) [OF rec ok i(1)] list_all2_nthD [OF keep, of i] len
    show ?thesis by (simp add: keeps_identity_def)
  qed
  ultimately show ?thesis by (simp add: texts_ok_def)
qed

text \<open>
  The writer on these inputs.  Only the inputs are read, so only their sizes matter: the files of the
  rest of the system may be as large as they like.
\<close>

definition input_ready :: "target option \<Rightarrow> (path \<rightharpoonup> bytes) \<Rightarrow> bool \<Rightarrow> manifest_entry \<Rightarrow> cpk_input_file \<Rightarrow> bool" where
  "input_ready p5r fs flag e f \<longleftrightarrow>
     keeps_identity e f \<and> payload_ready p5r fs flag f \<and>
     (\<forall>bs. fs (payload_path f) = Some bs \<longrightarrow> length bs < 2 ^ 64)"

text \<open>An entry of the new archive against its input.\<close>

definition relisted :: "cpk_input_file \<Rightarrow> cpk_file \<Rightarrow> bool" where
  "relisted f e \<longleftrightarrow>
     directory e = in_directory f \<and> file_name e = in_file_name f \<and> user_string e = in_user_string f \<and>
     id_opt e = Some (in_id f)"

lemma relisted_by_name:
  "length offsets = length inputs \<Longrightarrow> list_all2 relisted inputs (map2 listed_file inputs offsets)"
  by (simp add: list_all2_conv_all_nth relisted_def listed_file_def cpk_file_new_def)

text \<open>Without a table of contents the inputs are in the order of their IDs, and named by them.\<close>

lemma relisted_by_id:
  assumes rec: "list_all2 (recorded_as root fs) (enumerate 0 files) es" and keep: "list_all2 keeps_identity es inputs"
    and under: "listed_under md files" and no_toc: "md_toc_offset md = 0"
  shows "sort_key in_id inputs = inputs"
    and "length offsets = length inputs \<Longrightarrow> list_all2 relisted inputs (map2 (listed_by_id base) inputs offsets)"
proof -
  have len: "length inputs = length files" using recorded_names(1) [OF rec] list_all2_lengthD [OF keep] by simp
  have entry: "directory (files ! i) = [] \<and> user_string (files ! i) = [] \<and>
      (\<exists>k. id_opt (files ! i) = Some k \<and> file_name (files ! i) = itoc_file_name k)" if "i < length files" for i
    using under no_toc that by (simp add: listed_under_def)
  have "given_id i (files ! i) = the (id_opt (files ! i))" if "i < length files" for i
    using entry [OF that] by (auto simp: given_id_def)
  then have "map in_id inputs = map (\<lambda>f. the (id_opt f)) files"
    using len rebuilt_identity(4) [OF rec keep] by (intro nth_equalityI) simp_all
  then have "sorted (map in_id inputs)" using under no_toc by (simp add: listed_under_def)
  then show "sort_key in_id inputs = inputs" by (rule sort_key_id_if_sorted)
  show "list_all2 relisted inputs (map2 (listed_by_id base) inputs offsets)" if "length offsets = length inputs"
  proof (rule list_all2_all_nthI)
    show "relisted (inputs ! i) (map2 (listed_by_id base) inputs offsets ! i)" if "i < length inputs" for i
      using that \<open>length offsets = length inputs\<close> entry [of i] len rebuilt_identity [OF rec keep, of i]
      by (auto simp: relisted_def listed_by_id_def cpk_file_new_def given_id_def)
  qed (simp add: that)
qed

lemma rebuilt_listing:
  assumes w: "write_with_profile p5r fs0 \<lparr>contents = [], position = 0\<rparr> inputs (rebuild_options md flag)
      (rebuild_profile md) = Inr (report, out)"
    and sane: "files_sane fs0" and small: "unat (rep_content_offset report) < 2 ^ 32"
    and texts: "texts_ok inputs (rebuild_profile md)"
    and rec: "list_all2 (recorded_as root fs) (enumerate 0 files) es" and keep: "list_all2 keeps_identity es inputs"
    and under: "listed_under md files"
  obtains entries where "list_all2 relisted inputs entries"
    and "archive_reads_back sjis (contents out) p5r fs0 flag inputs entries"
proof (cases "md_toc_offset md = 0")
  case False
  then have "has_toc (index_mode (rebuild_profile md))" by simp
  from toc_archive_reads_back [OF w _ sane this small texts, of sjis] obtain offsets where
    "archive_reads_back sjis (contents out) p5r fs0 flag inputs (map2 listed_file inputs offsets)"
    "length offsets = length inputs" by auto
  with that relisted_by_name show thesis by blast
next
  case True
  then have mode: "index_mode (rebuild_profile md) = Mode_Itoc" by (simp add: rebuild_profile_def)
  have "pool_strings_ok [tvers (rebuild_profile md), comment (rebuild_profile md)]"
    using texts by (simp add: texts_ok_def)
  from itoc_archive_reads_back [OF w _ sane mode this, of sjis] obtain offsets where
    "archive_reads_back sjis (contents out) p5r fs0 flag inputs
       (map2 (listed_by_id (rep_content_offset report)) inputs offsets)"
    "length offsets = length inputs" unfolding relisted_by_id(1) [OF rec keep under True] by auto
  with that relisted_by_id(2) [OF rec keep under True] show thesis by blast
qed

lemma rebuilt_write:
  assumes rec: "list_all2 (recorded_as root fs) (enumerate 0 files) es"
    and ok: "rebuildable root target fs found md files" and under: "listed_under md files"
    and texts: "\<forall>f \<in> set files. pool_strings_ok [directory f, file_name f, user_string f]"
    and inputs: "list_all2 (input_ready p5r fs0 flag) es inputs"
  obtains report out entries where
    "write_with_profile p5r fs0 \<lparr>contents = [], position = 0\<rparr> inputs (rebuild_options md flag) (rebuild_profile md) =
       Inr (report, out)"
    and "list_all2 relisted inputs entries"
    and "archive_reads_back sjis (contents out) p5r fs0 flag inputs entries"
    and "\<And>slab_address entries rd. get_files sjis (cpk_reader_new slab_address \<lparr>contents = contents out, position = 0\<rparr>) =
      (Inr entries, rd) \<Longrightarrow> \<exists>md'. rd_metadata rd = Some md' \<and> same_profile md md'"
proof -
  let ?g = "\<lambda>p. if p \<in> payload_path ` set inputs then fs0 p else None"
  have keep: "list_all2 keeps_identity es inputs"
    by (rule list.rel_mono_strong [OF inputs]) (simp add: input_ready_def)
  have ready: "payload_ready p5r fs0 flag f \<and> (\<forall>bs. fs0 (payload_path f) = Some bs \<longrightarrow> length bs < 2 ^ 64)"
    if "f \<in> set inputs" for f
    using that inputs by (metis in_set_conv_nth input_ready_def list_all2_conv_all_nth)
  then have sane: "files_sane ?g" by (auto simp: files_sane_def split: if_splits)
  have agrees: "\<forall>f \<in> set inputs. ?g (payload_path f) = fs0 (payload_path f)" by simp
  then have payloads: "\<forall>f \<in> set inputs. packed_payload p5r ?g flag f = packed_payload p5r fs0 flag f"
    by (blast intro: packed_payload_cong)
  with ready have g_ready: "\<forall>f \<in> set inputs. payload_ready p5r ?g flag f" by (simp add: payload_ready_def)
  from write_with_profile_ok [OF rebuilt_moderate [OF rec ok under keep, of flag] _ sane, of "\<lparr>contents = [], position = 0\<rparr>" p5r] g_ready
  obtain report out where w: "write_with_profile p5r ?g \<lparr>contents = [], position = 0\<rparr> inputs
      (rebuild_options md flag) (rebuild_profile md) = Inr (report, out)" "unat (rep_content_offset report) < 2 ^ 32" by auto
  note texts_ok = rebuilt_texts [OF rec ok keep texts]
  from rebuilt_listing [OF w(1) sane w(2) texts_ok rec keep under, of sjis] obtain entries where
    entries: "list_all2 relisted inputs entries" "archive_reads_back sjis (contents out) p5r ?g flag inputs entries" .
  note reads = archive_reads_back_cong [OF entries(2) payloads]
  have "\<exists>md'. rd_metadata rd = Some md' \<and> same_profile md md'"
    if "get_files sjis (cpk_reader_new slab_address \<lparr>contents = contents out, position = 0\<rparr>) = (Inr entries, rd)"
    for slab_address entries rd
  proof -
    have "pool_strings_ok [tvers (rebuild_profile md), comment (rebuild_profile md)]"
      using texts_ok by (simp add: texts_ok_def)
    from written_metadata [OF w(1) _ sane this that] under show ?thesis
      by (fastforce simp: same_profile_def listed_under_def)
  qed
  with that [OF w(1) [unfolded write_reads_inputs [OF agrees]] entries(1) reads] show thesis by blast
qed

lemma keeps_entry_input [simp]: "keeps_identity e (entry_input fs root e)"
  by (simp add: keeps_identity_def entry_input_def Let_def)

lemma entry_inputs_ready:
  assumes rec: "list_all2 (recorded_as root fs) (enumerate 0 files) es"
    and ok: "rebuildable root target fs found md files" and build: "flag \<Longrightarrow> p5r = Some t"
  shows "list_all2 (input_ready p5r (fs(target \<mapsto> [])) flag) es (map (entry_input fs root) es)"
proof -
  have "input_ready p5r (fs(target \<mapsto> [])) flag e (entry_input fs root e)" if e: "e \<in> set es" for e
  proof -
    from rebuilt_index [OF rec e] obtain i where i: "i < length files" "e = es ! i" by blast
    with rebuilt_entry(1,2) [OF rec ok i(1)] obtain cs where "fs (path_push root (relative_of e)) = Some cs" "length cs < 2 ^ 32"
      "path_push root (relative_of e) \<noteq> target"
      by (auto simp: entry_there_def)
    then show ?thesis
      using build
      by (cases flag) (simp_all add: input_ready_def payload_ready_def packed_payload_def payload_path_def entry_input_def
          keeps_identity_def Let_def unat_of_nat_fits)
  qed
  then show ?thesis by (simp add: list_all2_conv_all_nth)
qed

lemma packs_again:
  assumes read: "Manifest_read root fs = Inr (Some (unpacked_manifest source bytes_read hash flag md es))"
    and rec: "list_all2 (recorded_as root fs) (enumerate 0 files) es"
    and ok: "rebuildable root target fs found md files" and under: "listed_under md files"
    and texts: "\<forall>f \<in> set files. pool_strings_ok [directory f, file_name f, user_string f]"
    and args: "pack_arguments args = Inr (root, target, s)" "pa_alignment s = None" "\<not> pa_p5r s"
    and reuse: "\<not> (pa_reuse s \<and> same_path h source target)"
    and built: "build_inputs avail h (unpacked_manifest source bytes_read hash flag md es) fs root target (pa_reuse s) =
      Some (Inr inputs)"
    and inputs: "list_all2 (input_ready p5r (fs(target \<mapsto> [])) flag) es inputs"
  shows "\<exists>archive entries. run_pack avail h p5r fs args = Some (Inr (fs(target \<mapsto> archive))) \<and>
    list_all2 relisted inputs entries \<and>
    archive_reads_back sjis archive p5r (fs(target \<mapsto> [])) flag inputs entries \<and>
    (\<forall>slab_address entries rd. get_files sjis (cpk_reader_new slab_address \<lparr>contents = archive, position = 0\<rparr>) = (Inr entries, rd) \<longrightarrow>
       (\<exists>md'. rd_metadata rd = Some md' \<and> same_profile md md'))"
proof -
  let ?m = "unpacked_manifest source bytes_read hash flag md es"
  obtain report out entries where
    w: "write_with_profile p5r (fs(target \<mapsto> [])) \<lparr>contents = [], position = 0\<rparr> inputs
       (rebuild_options md flag) (rebuild_profile md) = Inr (report, out)"
    and reads: "list_all2 relisted inputs entries"
      "archive_reads_back sjis (contents out) p5r (fs(target \<mapsto> [])) flag inputs entries"
      "\<And>slab_address entries rd. get_files sjis (cpk_reader_new slab_address \<lparr>contents = contents out, position = 0\<rparr>) =
        (Inr entries, rd) \<Longrightarrow> \<exists>md'. rd_metadata rd = Some md' \<and> same_profile md md'"
    using rebuilt_write [OF rec ok under texts inputs, where sjis = sjis] by blast
  have "writer_profile ?m = Inr (rebuild_profile md)"
    using under by (intro writer_profile_unpacked) (simp add: listed_under_def)
  moreover have "inputs \<noteq> []"
    using ok recorded_names(1) [OF rec] list_all2_lengthD [OF inputs] by (auto simp: rebuildable_def)
  moreover have "mf_source_archive ?m = source" "max (mf_alignment ?m) 1 = max (md_align md) 1" "mf_p5r ?m = flag"
    by (simp_all add: unpacked_manifest_def)
  ultimately have "run_pack avail h p5r fs args = Some (Inr (fs(target \<mapsto> contents out)))"
    using read args reuse built w by (simp add: run_pack_def pack_files_with_profile_def)
  with reads show ?thesis by blast
qed

end
