(* ===== verification/Rebuild_Round_Trip.thy ===== *)
theory Rebuild_Round_Trip
  imports Rebuild
begin

text \<open>
  Unpacking an archive and packing the directory again.  \<open>unpack_and_pack\<close> puts the unpacker, the
  manifest, the writer and the reader together: the new archive lists the same entries with the same
  contents; \<open>unpack_and_pack_raw\<close> is the same for \<open>--reuse-raw-entries\<close>, which keeps the packed bytes.
\<close>

section \<open>Unpacking and packing\<close>

text \<open>One entry of the new archive against its entry in the old one.\<close>

definition same_entry :: "nat \<Rightarrow> cpk_file \<Rightarrow> cpk_file \<Rightarrow> bool" where
  "same_entry i f f' \<longleftrightarrow>
     directory f' = directory f \<and> file_name f' = file_name f \<and> user_string f' = user_string f \<and>
     id_opt f' = Some (given_id i f)"

text \<open>Its payload, decrypted, is what the old one, decrypted, expands to.\<close>

definition same_payload ::
  "(cpk_file \<Rightarrow> bytes \<Rightarrow> bool) \<Rightarrow> (bytes \<Rightarrow> bytes memory_result) \<Rightarrow> cpk_reader \<Rightarrow> cpk_file \<Rightarrow>
   cpk_reader \<Rightarrow> cpk_file \<Rightarrow> bool" where
  "same_payload is_encrypted_file decrypt_in_place rd f rd' f' \<longleftrightarrow>
     (\<exists>packed packed' rd1 rd2. read_packed_file rd f = Inr (packed, rd1) \<and> read_packed_file rd' f' = Inr (packed', rd2) \<and>
        unpacked (decrypted is_encrypted_file decrypt_in_place f packed) =
          Some (decrypted is_encrypted_file decrypt_in_place f' packed'))"

lemma same_entry_relisted:
  assumes "list_all2 (recorded_as root fs) (enumerate 0 files) es" and "list_all2 keeps_identity es inputs"
    and "list_all2 relisted inputs entries"
  shows "length entries = length files" and "i < length files \<Longrightarrow> same_entry i (files ! i) (entries ! i)"
    and "i < length files \<Longrightarrow> user_string (entries ! i) = in_user_string (inputs ! i)"
proof -
  have len: "length inputs = length files" "length entries = length files"
    using recorded_names(1) [OF assms(1)] list_all2_lengthD [OF assms(2)] list_all2_lengthD [OF assms(3)] by simp_all
  then show "length entries = length files" by simp
  show "same_entry i (files ! i) (entries ! i)" "user_string (entries ! i) = in_user_string (inputs ! i)"
    if "i < length files"
    using that len rebuilt_identity [OF assms(1,2) that] list_all2_nthD [OF assms(3), of i]
    by (simp_all add: same_entry_def relisted_def)
qed

text \<open>After unpacking, the file of an entry holds what the entry decrypts and expands to.\<close>

lemma unpacked_entry_contents:
  assumes un: "unpack_with sjis avail h slab_address heap memory (cli_is_encrypted p5r) (cli_decrypt p5r t) fs input root flag = Inr fs'"
    and archive: "fs input = Some archive"
    and listed: "get_files sjis (cpk_reader_new slab_address \<lparr>contents = archive, position = 0\<rparr>) = (Inr files, rd)"
    and distinct: "distinct (map (destination_of root) files)" and i: "i < length files"
    and p: "destination_of root (files ! i) = Inr p" "p \<noteq> Manifest_path root" "p \<noteq> temporary_path root"
  shows "\<exists>packed bs rd1. read_packed_file rd (files ! i) = Inr (packed, rd1) \<and> fs' p = Some bs \<and>
    unpacked (decrypted (cli_is_encrypted p5r) (cli_decrypt p5r t) (files ! i) packed) = Some bs"
proof -
  from unpack_with_Inr [OF un] archive listed obtain s m where
    s: "fold_result (unpack_file (cli_is_encrypted p5r) (cli_decrypt p5r t) heap memory root)
      \<lparr>us_files = fs, us_reader = rd, us_entries = []\<rparr> (enumerate 0 files) = Inr s"
    and fs': "fs' = Manifest_write m root (us_files s)"
    by (metis option.inject prod.inject sum.inject(2))
  have idle: "reader_idle rd"
    using reader_idle_get_files [of sjis "cpk_reader_new slab_address \<lparr>contents = archive, position = 0\<rparr>"]
      reader_idle_new listed by simp
  have snds: "map (destination_of root \<circ> snd) (enumerate 0 files) = map (destination_of root) files"
    by (metis map_map map_snd_enumerate)
  have "(i, files ! i) \<in> set (enumerate 0 files)" using i by (simp add: in_set_enumerate_eq)
  with cli.unpacked_contents [OF s, of rd] idle distinct p(1) obtain bs where
    "us_files s p = Some bs" "cli.extracts_to p5r t rd (files ! i) bs"
    unfolding snds by fastforce
  moreover from p(2,3) have "fs' p = us_files s p"
    unfolding fs' by (simp add: manifest_write_elsewhere(1) temporary_path_def)
  ultimately show ?thesis by (auto simp: cli.extracts_to_def)
qed

text \<open>The manifest that \<open>unpack\<close> leaves, for a listing that can be packed again.\<close>

lemma rebuildable_places:
  assumes "rebuildable root target fs found md files"
  shows "distinct (map (destination_of root) files)" and "Inr (temporary_path root) \<notin> set (map (destination_of root) files)"
    and "i < length files \<Longrightarrow> \<exists>r. safe_relative_path (directory (files ! i)) (file_name (files ! i)) = Inr r \<and>
      path_push root r \<noteq> target \<and> path_push root r \<noteq> temporary_path root \<and>
      (\<forall>bs. fs (path_push root r) = Some bs \<longrightarrow> length bs < 2 ^ 32) \<and> destination_of root (files ! i) = Inr (path_push root r)"
proof -
  have place: "\<exists>r. safe_relative_path (directory f) (file_name f) = Inr r \<and> path_push root r \<noteq> target \<and>
      path_push root r \<noteq> temporary_path root \<and> (\<forall>bs. fs (path_push root r) = Some bs \<longrightarrow> length bs < 2 ^ 32) \<and>
      destination_of root f = Inr (path_push root r)" if "f \<in> set files" for f
    using assms that safe_paths_agree unfolding rebuildable_def destination_of_def by meson
  show "distinct (map (destination_of root) files)" using assms by (simp add: rebuildable_def)
  show "Inr (temporary_path root) \<notin> set (map (destination_of root) files)" using place by fastforce
  show "\<exists>r. safe_relative_path (directory (files ! i)) (file_name (files ! i)) = Inr r \<and>
      path_push root r \<noteq> target \<and> path_push root r \<noteq> temporary_path root \<and>
      (\<forall>bs. fs (path_push root r) = Some bs \<longrightarrow> length bs < 2 ^ 32) \<and> destination_of root (files ! i) = Inr (path_push root r)"
    if "i < length files" using place [OF nth_mem [OF that]] .
qed

lemma unpacked_recorded:
  assumes un: "unpack_with sjis avail h slab_address heap memory is_encrypted_file decrypt_in_place fs input root flag = Inr fs'"
    and archive: "fs input = Some archive"
    and listed: "get_files sjis (cpk_reader_new slab_address \<lparr>contents = archive, position = 0\<rparr>) = (Inr files, rd)"
    and md: "rd_metadata rd = Some md"
    and sjis: "\<forall>bs. utf8_valid (sjis bs) \<and> (0 \<notin> set bs \<longrightarrow> 0 \<notin> set (sjis bs))"
    and source: "utf8_valid (absolute_path h input)" and ok: "rebuildable root target fs' found md files"
  obtains es where
    "Manifest_read root fs' = Inr (Some (unpacked_manifest (absolute_path h input) (of_nat (length archive))
      (hash_bytes archive) flag md es))"
    and "list_all2 (recorded_as root fs') (enumerate 0 files) es"
  using unpacked_directory_manifest [OF un archive listed _ source rebuildable_places(1,2) [OF ok]] sjis md that by auto

text \<open>Where the manifest looks for the file of an entry, it finds what the entry expands to.\<close>

lemma rebuilt_contents:
  assumes un: "unpack_with sjis avail h slab_address heap memory (cli_is_encrypted p5r) (cli_decrypt p5r t) fs input root flag = Inr fs'"
    and archive: "fs input = Some archive"
    and listed: "get_files sjis (cpk_reader_new slab_address \<lparr>contents = archive, position = 0\<rparr>) = (Inr files, rd)"
    and ok: "rebuildable root target fs' found md files"
    and rec: "list_all2 (recorded_as root fs') (enumerate 0 files) es" and i: "i < length files"
  obtains packed bs rd1 where "read_packed_file rd (files ! i) = Inr (packed, rd1)"
    and "unpacked (decrypted (cli_is_encrypted p5r) (cli_decrypt p5r t) (files ! i) packed) = Some bs"
    and "fs' (path_push root (relative_of (es ! i))) = Some bs" and "path_push root (relative_of (es ! i)) \<noteq> target"
proof -
  note rec = recorded_names(2) [OF rec i]
  from rebuildable_places(3) [OF ok i] obtain r where
    r: "safe_relative_path (directory (files ! i)) (file_name (files ! i)) = Inr r"
      "path_push root r \<noteq> target" "path_push root r \<noteq> temporary_path root"
      "\<forall>bs. fs' (path_push root r) = Some bs \<longrightarrow> length bs < 2 ^ 32"
      "destination_of root (files ! i) = Inr (path_push root r)" by blast
  from rec r(5) have "path_push root r \<noteq> Manifest_path root" by (auto simp: recorded_as_def same_components_def)
  from unpacked_entry_contents [OF un archive listed rebuildable_places(1) [OF ok] i r(5) this r(3)]
  show thesis using r(2) recorded_there(2) [OF rec r(1,4)] that by auto
qed

text \<open>
  What opening the new archive shows, once the writer's output is known to read back: \<open>P\<close> is what
  the packed bytes of an input say of the entry they are read from.
\<close>

lemma rebuilt_shows:
  assumes rec: "list_all2 (recorded_as root fs) (enumerate 0 files) es" and keep: "list_all2 keeps_identity es inputs"
    and relisted: "list_all2 relisted inputs files'"
    and reads: "archive_reads_back sjis archive p5r fs0 flag inputs files'"
    and profile: "\<forall>slab entries rd. get_files sjis (cpk_reader_new slab \<lparr>contents = archive, position = 0\<rparr>) =
      (Inr entries, rd) \<longrightarrow> (\<exists>md'. rd_metadata rd = Some md' \<and> same_profile md md')"
    and entry: "\<And>i rd' packed rd1. i < length files \<Longrightarrow> read_packed_file rd' (files' ! i) = Inr (packed, rd1) \<Longrightarrow>
      packed_payload p5r fs0 flag (inputs ! i) = Some packed \<Longrightarrow> P i rd' (files' ! i)"
  shows "\<forall>slab. \<exists>files' rd'. get_files sjis (cpk_reader_new slab \<lparr>contents = archive, position = 0\<rparr>) = (Inr files', rd') \<and>
    (\<exists>md'. rd_metadata rd' = Some md' \<and> same_profile md md') \<and> length files' = length files \<and>
    (\<forall>i < length files. same_entry i (files ! i) (files' ! i) \<and> P i rd' (files' ! i))"
proof
  fix slab
  note same = same_entry_relisted [OF rec keep relisted]
  have len: "length inputs = length files" using recorded_names(1) [OF rec] list_all2_lengthD [OF keep] by simp
  from reads [unfolded archive_reads_back_def, THEN spec, of slab] obtain rd' where
    g: "get_files sjis (cpk_reader_new slab \<lparr>contents = archive, position = 0\<rparr>) = (Inr files', rd')"
    and r: "\<forall>i < length files. \<exists>bs rd1. read_packed_file rd' (files' ! i) = Inr (bs, rd1) \<and>
      packed_payload p5r fs0 flag (inputs ! i) = Some bs"
    by (auto simp: Let_def len split: prod.splits)
  have "\<forall>i < length files. P i rd' (files' ! i)" using r entry by blast
  with g profile same(1,2) show "\<exists>files' rd'. get_files sjis (cpk_reader_new slab \<lparr>contents = archive, position = 0\<rparr>) = (Inr files', rd') \<and>
    (\<exists>md'. rd_metadata rd' = Some md' \<and> same_profile md md') \<and> length files' = length files \<and>
    (\<forall>i < length files. same_entry i (files ! i) (files' ! i) \<and> P i rd' (files' ! i))"
    by (intro exI [of _ files'] exI [of _ rd']) simp
qed

lemma unpack_and_pack:
  assumes unpack: "run_unpack sjis avail h slab_address heap memory t fs ([input, root] @ p5r_option p5r) = Inr fs'"
    and archive: "fs input = Some archive"
    and listed: "get_files sjis (cpk_reader_new slab_address \<lparr>contents = archive, position = 0\<rparr>) = (Inr files, rd)"
    and md: "rd_metadata rd = Some md"
    and sjis: "\<forall>bs. utf8_valid (sjis bs) \<and> (0 \<notin> set bs \<longrightarrow> 0 \<notin> set (sjis bs))"
    and source: "utf8_valid (absolute_path h input)"
    and args: "\<not> is_option input" "\<not> is_option root" "\<not> is_option target"
    and walk: "collect_relative_files h' root target = Some (Inr found)"
    and ok: "rebuildable root target fs' found md files" and build: "p5r \<Longrightarrow> b = Some t"
  shows "\<exists>archive'. run_pack avail' h' b fs' [root, target] = Some (Inr (fs'(target \<mapsto> archive'))) \<and>
    (\<forall>slab. \<exists>files' rd'. get_files sjis (cpk_reader_new slab \<lparr>contents = archive', position = 0\<rparr>) = (Inr files', rd') \<and>
       (\<exists>md'. rd_metadata rd' = Some md' \<and> same_profile md md') \<and> length files' = length files \<and>
       (\<forall>i < length files. same_entry i (files ! i) (files' ! i) \<and>
          same_payload (cli_is_encrypted p5r) (cli_decrypt p5r t) rd (files ! i) rd' (files' ! i)))"
proof -
  note un = unpack [unfolded run_unpack_plain [OF args(1,2)]]
  from unpacked_recorded [OF un archive listed md sjis source ok] obtain es where
    read: "Manifest_read root fs' = Inr (Some (unpacked_manifest (absolute_path h input) (of_nat (length archive))
      (hash_bytes archive) p5r md es))"
    and rec: "list_all2 (recorded_as root fs') (enumerate 0 files) es" .
  note names = recorded_names [OF rec]
  note under = get_files_listed_under [OF listed md]
  from packs_again [OF read rec ok under listed_texts_ok [OF sjis listed] pack_arguments_plain [OF args(2,3)] _ _ _ _
      entry_inputs_ready [OF rec ok build], of h' avail' sjis] rebuilt_inputs [OF rec walk ok]
  obtain archive' files' where
    run: "run_pack avail' h' b fs' [root, target] = Some (Inr (fs'(target \<mapsto> archive')))"
    and relisted: "list_all2 relisted (map (entry_input fs' root) es) files'"
    and again: "archive_reads_back sjis archive' b (fs'(target \<mapsto> [])) p5r (map (entry_input fs' root) es) files'"
    and profile: "\<forall>slab_address entries rd. get_files sjis (cpk_reader_new slab_address \<lparr>contents = archive', position = 0\<rparr>) =
      (Inr entries, rd) \<longrightarrow> (\<exists>md'. rd_metadata rd = Some md' \<and> same_profile md md')"
    by auto
  have keep: "list_all2 keeps_identity es (map (entry_input fs' root) es)" by (simp add: list_all2_conv_all_nth)
  note same = same_entry_relisted [OF rec keep relisted]
  have entry: "same_payload (cli_is_encrypted p5r) (cli_decrypt p5r t) rd (files ! i) rd' (files' ! i)"
    if i: "i < length files" and r: "read_packed_file rd' (files' ! i) = Inr (packed', rd1)"
      and p: "packed_payload b (fs'(target \<mapsto> [])) p5r (map (entry_input fs' root) es ! i) = Some packed'"
    for i rd' packed' rd1
  proof -
    let ?f = "entry_input fs' root (es ! i)"
    from rebuilt_contents [OF un archive listed ok rec i] obtain packed bs rd2 where
      old: "read_packed_file rd (files ! i) = Inr (packed, rd2)"
        "unpacked (decrypted (cli_is_encrypted p5r) (cli_decrypt p5r t) (files ! i) packed) = Some bs"
      and there: "fs' (path_push root (relative_of (es ! i))) = Some bs" "path_push root (relative_of (es ! i)) \<noteq> target" .
    have new: "packed_payload b (fs'(target \<mapsto> [])) p5r ?f = Some packed'" using p i names(1) by simp
    have "decrypted (cli_is_encrypted p5r) (cli_decrypt p5r t) (files' ! i) packed' = bs"
      using there same(3) [OF i] i names(1)
      by (intro decrypted_again [OF new _ build]) (simp_all add: entry_input_def Let_def)
    with old r show ?thesis unfolding same_payload_def by metis
  qed
  note shown = rebuilt_shows [where P = "\<lambda>i. same_payload (cli_is_encrypted p5r) (cli_decrypt p5r t) rd (files ! i)",
      OF rec keep relisted again profile]
  show ?thesis by (intro exI conjI, rule run, rule shown, rule entry)
qed

section \<open>Reusing packed entries\<close>

text \<open>
  With \<open>--reuse-raw-entries\<close> the packed bytes of an unchanged entry are copied from the archive the
  manifest names.  After unpacking every entry is unchanged.
\<close>

definition raw_input :: "manifest \<Rightarrow> path \<Rightarrow> manifest_entry \<Rightarrow> cpk_input_file" where
  "raw_input m root e =
     \<lparr>in_directory = me_directory e, in_file_name = me_file_name e, source_path = path_push root (relative_of e),
      in_size = me_packed_size e, in_extract_size = ucast (me_extracted_size e), in_id = me_id e,
      in_user_string = me_user_string e,
      raw_payload = Some \<lparr>archive_path = mf_source_archive m, raw_absolute_offset = me_packed_offset e,
        raw_size = me_packed_size e\<rparr>\<rparr>"

lemma gather_entries_raw:
  assumes "\<forall>e \<in> set es. \<exists>x. recorded_as root fs x e \<and> entry_there fs root e"
  shows "fold_result (gather_entry avail m fs root True) g es =
     Inr (g\<lparr>g_files := g_files g @ map (raw_input m root) es,
            g_known_paths := rev (map relative_of es) @ g_known_paths g,
            g_used_ids := rev (map me_id es) @ g_used_ids g\<rparr>)"
  using assms
proof (induction es arbitrary: g)
  case (Cons e es)
  then obtain x where rec: "recorded_as root fs x e" and there: "entry_there fs root e" by auto
  from there obtain bs where r: "safe_relative_path (me_directory e) (me_file_name e) = Inr (relative_of e)"
    and bs: "fs (path_push root (relative_of e)) = Some bs" "length bs < 2 ^ 32"
    by (auto simp: entry_there_def)
  from rec safe_paths_agree [OF r, of root] bs have "me_extracted_size e = of_nat (length bs)"
    by (cases x) (auto simp: recorded_as_def destination_of_def)
  with bs(2) have "unat (me_extracted_size e) < 2 ^ 32" by (simp add: unat_of_nat_fits)
  from recorded_reused(2) [OF rec r this] have "gather_entry avail m fs root True g e =
    Inr (g\<lparr>g_files := g_files g @ [raw_input m root e], g_known_paths := relative_of e # g_known_paths g,
           g_used_ids := me_id e # g_used_ids g\<rparr>)" for g
    using r bs(1) by (simp add: gather_entry_def domIff raw_input_def Let_def)
  with Cons show ?case by simp
qed simp

lemma raw_inputs:
  assumes rec: "list_all2 (recorded_as root fs) (enumerate 0 files) es"
    and walk: "collect_relative_files h root target = Some (Inr found)"
    and ok: "rebuildable root target fs found md files"
    and source: "fs source = Some archive"
  shows "build_inputs avail h (unpacked_manifest source (of_nat (length archive)) (hash_bytes archive) flag md es)
    fs root target True =
    Some (Inr (map (raw_input (unpacked_manifest source (of_nat (length archive)) (hash_bytes archive) flag md es) root) es))"
proof -
  let ?m = "unpacked_manifest source (of_nat (length archive)) (hash_bytes archive) flag md es"
  have "\<forall>e \<in> set es. \<exists>x. recorded_as root fs x e \<and> entry_there fs root e"
    using rebuilt_index [OF rec] recorded_names(2) [OF rec] rebuilt_entry(1) [OF rec ok] by blast
  note gathered = gather_entries_raw [OF this, of avail ?m]
  have new: "new_paths (rev (map relative_of es)) found = []"
  proof -
    have "\<exists>e \<in> set es. same_components (relative_of e) r" if r: "r \<in> set found" for r
      using rebuilt_found [OF rec ok r] .
    then show ?thesis by (auto simp: new_paths_def filter_empty_conv)
  qed
  have "- 1 \<notin> set (map me_id es)" using rebuilt_index [OF rec] rebuilt_entry(3) [OF rec ok] by fastforce
  then obtain s where "start_ids (mf_has_itoc ?m) (rev (map me_id es)) = Inr s"
    using start_ids_succeeds [of "rev (map me_id es)"] by auto
  moreover have "source_is_original avail ?m fs = Inr True"
    using source by (simp add: source_is_original_def unpacked_manifest_def domIff hash_file_eq)
  moreover have "mf_entries ?m = es" by (simp add: unpacked_manifest_def)
  ultimately show ?thesis using new walk by (simp add: build_inputs_def gathered)
qed

text \<open>Reading an entry returns the bytes of the archive at its offset.\<close>

lemma get_files_keeps_source:
  assumes "get_files sjis rd = (Inr files, rd')"
  shows "contents (rd_stream rd') = contents (rd_stream rd)" and "rd_start_pos rd' = rd_start_pos rd"
proof -
  from assms obtain md s s' where
    header: "read_header sjis rd = Inr (md, s)"
    and toc: "read_toc sjis md (rd\<lparr>rd_stream := s, rd_metadata := Some md\<rparr>) = Inr (files, s') \<or>
      read_itoc sjis md (rd\<lparr>rd_stream := s, rd_metadata := Some md\<rparr>) = Inr (files, s')"
    and rd': "rd' = rd\<lparr>rd_metadata := Some md, rd_stream := s'\<rparr>"
    by (auto simp: get_files_def Let_def split: sum.splits prod.splits if_splits)
  from header have "contents s = contents (rd_stream rd)"
    by (auto simp: read_header_def result_iff seek_start_def dest!: table_container_new_sound split: if_splits)
  moreover from toc have "contents s' = contents s"
    by (auto simp: read_toc_def read_itoc_def result_iff seek_start_def dest!: table_container_new_sound split: if_splits)
  ultimately show "contents (rd_stream rd') = contents (rd_stream rd)" and "rd_start_pos rd' = rd_start_pos rd"
    by (simp_all add: rd')
qed

lemma read_packed_slice:
  assumes "read_packed_file rd f = Inr (packed, rd')" and "rd_start_pos rd = 0"
  shows "packed = slice (unat (absolute_offset f)) (unat (file_size f)) (contents (rd_stream rd))"
    and "length packed = unat (file_size f)"
  using assms
  by (auto simp: read_packed_file_def Let_def result_iff seek_start_def checked_add_def split: if_splits)

text \<open>The same packed bytes in both archives.\<close>

definition same_packed :: "cpk_reader \<Rightarrow> cpk_file \<Rightarrow> cpk_reader \<Rightarrow> cpk_file \<Rightarrow> bool" where
  "same_packed rd f rd' f' \<longleftrightarrow>
     (\<exists>packed rd1 rd2. read_packed_file rd f = Inr (packed, rd1) \<and> read_packed_file rd' f' = Inr (packed, rd2))"

lemma keeps_raw_input [simp]: "keeps_identity e (raw_input m root e)"
  by (simp add: keeps_identity_def raw_input_def)

lemma raw_input_ready:
  assumes "recorded_as root fs0 (i, f) e" and "fs (mf_source_archive m) = Some archive" and "length archive < 2 ^ 64"
    and "length (slice (unat (absolute_offset f)) (unat (file_size f)) archive) = unat (file_size f)"
  shows "input_ready p5r fs flag e (raw_input m root e)"
    and "packed_payload p5r fs flag (raw_input m root e) = Some (slice (unat (absolute_offset f)) (unat (file_size f)) archive)"
  using assms unfolding input_ready_def
  by (simp_all add: payload_ready_def packed_payload_def payload_path_def, simp_all add: raw_input_def recorded_as_def)

lemma unpack_and_pack_raw:
  assumes unpack: "run_unpack sjis avail h slab_address heap memory t fs ([input, root] @ p5r_option p5r) = Inr fs'"
    and archive: "fs input = Some archive"
    and listed: "get_files sjis (cpk_reader_new slab_address \<lparr>contents = archive, position = 0\<rparr>) = (Inr files, rd)"
    and md: "rd_metadata rd = Some md"
    and sjis: "\<forall>bs. utf8_valid (sjis bs) \<and> (0 \<notin> set bs \<longrightarrow> 0 \<notin> set (sjis bs))"
    and source: "utf8_valid (absolute_path h input)"
    and args: "\<not> is_option input" "\<not> is_option root" "\<not> is_option target"
    and walk: "collect_relative_files h' root target = Some (Inr found)"
    and ok: "rebuildable root target fs' found md files"
    and kept: "fs' (absolute_path h input) = Some archive" "length archive < 2 ^ 64"
    and other: "\<not> same_path h' (absolute_path h input) target"
  shows "\<exists>archive'. run_pack avail' h' b fs' [root, target, ascii ''--reuse-raw-entries''] = Some (Inr (fs'(target \<mapsto> archive'))) \<and>
    (\<forall>slab. \<exists>files' rd'. get_files sjis (cpk_reader_new slab \<lparr>contents = archive', position = 0\<rparr>) = (Inr files', rd') \<and>
       (\<exists>md'. rd_metadata rd' = Some md' \<and> same_profile md md') \<and> length files' = length files \<and>
       (\<forall>i < length files. same_entry i (files ! i) (files' ! i) \<and> same_packed rd (files ! i) rd' (files' ! i)))"
proof -
  note un = unpack [unfolded run_unpack_plain [OF args(1,2)]]
  from unpacked_recorded [OF un archive listed md sjis source ok] obtain es where
    read: "Manifest_read root fs' = Inr (Some (unpacked_manifest (absolute_path h input) (of_nat (length archive))
      (hash_bytes archive) p5r md es))"
    and rec: "list_all2 (recorded_as root fs') (enumerate 0 files) es" .
  let ?m = "unpacked_manifest (absolute_path h input) (of_nat (length archive)) (hash_bytes archive) p5r md es"
    and ?fs = "fs'(target \<mapsto> [])" and ?source = "absolute_path h input"
  let ?inputs = "map (raw_input ?m root) es" and ?slice = "\<lambda>f. slice (unat (absolute_offset f)) (unat (file_size f)) archive"
  note names = recorded_names [OF rec]
  have m: "mf_source_archive ?m = ?source" by (simp add: unpacked_manifest_def)
  have "?source \<noteq> target" using other by (auto simp: same_path_def same_components_def split: option.splits)
  with kept(1) m have stored: "?fs (mf_source_archive ?m) = Some archive" by simp
  have recorded: "recorded_as root fs' (i, files ! i) (es ! i)" if "i < length files" for i using names(2) [OF that] .
  have rd: "contents (rd_stream rd) = archive" "rd_start_pos rd = 0"
    using get_files_keeps_source [OF listed] by (simp_all add: cpk_reader_new_def)
  have packed: "\<exists>rd1. read_packed_file rd (files ! i) = Inr (?slice (files ! i), rd1) \<and>
      length (?slice (files ! i)) = unat (file_size (files ! i))" if i: "i < length files" for i
  proof -
    from rebuilt_contents [OF un archive listed ok rec i] obtain packed bs rd1 where
      "read_packed_file rd (files ! i) = Inr (packed, rd1)" .
    with read_packed_slice [OF this rd(2)] rd(1) show ?thesis by metis
  qed
  have ready: "input_ready b ?fs p5r (es ! i) (raw_input ?m root (es ! i)) \<and>
      packed_payload b ?fs p5r (raw_input ?m root (es ! i)) = Some (?slice (files ! i))" if i: "i < length files" for i
    using raw_input_ready [where fs = ?fs and m = ?m, OF recorded [OF i] stored kept(2)] packed [OF i] by blast
  then have inputs: "list_all2 (input_ready b ?fs p5r) es ?inputs" by (simp add: list_all2_conv_all_nth names(1))
  note built = raw_inputs [where source = ?source, OF rec walk ok kept(1), of avail' p5r]
  from packs_again [OF read rec ok get_files_listed_under [OF listed md] listed_texts_ok [OF sjis listed]
      pack_arguments_reuse [OF args(2,3)] _ _ _ _ inputs, of h' avail' sjis] built other
  obtain archive' files' where
    run: "run_pack avail' h' b fs' [root, target, ascii ''--reuse-raw-entries''] = Some (Inr (fs'(target \<mapsto> archive')))"
    and relisted: "list_all2 relisted ?inputs files'"
    and again: "archive_reads_back sjis archive' b ?fs p5r ?inputs files'"
    and profile: "\<forall>slab_address entries rd. get_files sjis (cpk_reader_new slab_address \<lparr>contents = archive', position = 0\<rparr>) =
      (Inr entries, rd) \<longrightarrow> (\<exists>md'. rd_metadata rd = Some md' \<and> same_profile md md')"
    by auto
  have keep: "list_all2 keeps_identity es ?inputs" by (simp add: list_all2_conv_all_nth)
  have entry: "same_packed rd (files ! i) rd' (files' ! i)"
    if i: "i < length files" and r: "read_packed_file rd' (files' ! i) = Inr (packed', rd1)"
      and p: "packed_payload b ?fs p5r (?inputs ! i) = Some packed'" for i rd' packed' rd1
    using ready [OF i] packed [OF i] p r i names(1) by (auto simp: same_packed_def)
  note shown = rebuilt_shows [where P = "\<lambda>i. same_packed rd (files ! i)", OF rec keep relisted again profile]
  show ?thesis by (intro exI conjI, rule run, rule shown, rule entry)
qed

end
