(* ===== verification/Acb_Table.thy ===== *)
theory Acb_Table
  imports High_Table
begin

text \<open>
  \<open>acb/header.rs\<close>: the table type of the cue sheet reader.  It reads the same \<open>@UTF\<close> format as the
  \<open>HighTable\<close> of the archive reader with the same column, row and string parsers, but checks nothing
  first: an offset of the header that lies outside the buffer makes it panic.  A value is looked up
  by the name of its column, in an index built once.

  \<open>acb_table_panics_iff\<close> says exactly when the constructor panics, \<open>acb_table_agrees\<close> that on every
  table the archive reader accepts the two read the same rows and strings, even when more bytes
  follow the table, as they do for the tables nested in a cue sheet.
\<close>

section \<open>The table\<close>

record acb_table =
  at_alloc :: bytes
  at_header :: table_header
  at_strings :: StringPoolFast
  at_rows :: "row_value list list"
  at_indices :: "rust_string \<rightharpoonup> nat"

text \<open>\<open>&bs[a..b]\<close> and \<open>&bs[a..]\<close>.\<close>

definition range_slice :: "bytes \<Rightarrow> nat \<Rightarrow> nat \<Rightarrow> bytes result" where
  "range_slice bs a b = (if a \<le> b \<and> b \<le> length bs then Inr (slice a (b - a) bs) else Inl Panic)"

definition tail_slice :: "bytes \<Rightarrow> nat \<Rightarrow> bytes result" where
  "tail_slice bs a = (if a \<le> length bs then Inr (drop a bs) else Inl Panic)"

text \<open>\<open>HashMap::from_iter\<close>: the last pair with a key stays.\<close>

definition from_pairs :: "('k \<times> 'v) list \<Rightarrow> ('k \<rightharpoonup> 'v)" where
  "from_pairs kvs = foldl (\<lambda>m (k, v). m(k \<mapsto> v)) Map.empty kvs"

definition column_indices :: "StringPoolFast \<Rightarrow> column list \<Rightarrow> (rust_string \<rightharpoonup> nat)" where
  "column_indices strings columns =
     from_pairs (List.map_filter (\<lambda>(i, c).
       map_option (\<lambda>s. (s, i)) (StringPoolFast_get_string strings (col_string_offset c)))
       (enumerate 0 columns))"

definition acb_table_new :: "(bytes \<Rightarrow> rust_string) \<Rightarrow> bytes \<Rightarrow> acb_table result" where
  "acb_table_new sjis alloc =
     (let header = table_header_new alloc;
          cursor = \<lparr>contents = alloc, position = HEADER_SIZE\<rparr>
      in
      and_then (column_new_list cursor header) (\<lambda>(columns, cursor).
      and_then (range_slice alloc (unat (th_string_pool_offset header)) (unat (th_data_pool_offset header)))
        (\<lambda>str_raw.
      and_then (row_new_list cursor header columns) (\<lambda>(rows, cursor).
      and_then (StringPoolFast_new_borrowed sjis str_raw header) (\<lambda>strings.
        Inr \<lparr>at_alloc = alloc, at_header = header, at_strings = strings, at_rows = rows,
             at_indices = column_indices strings columns\<rparr>)))))"

text \<open>Indexing a row out of its range panics.\<close>

definition acb_get_value :: "acb_table \<Rightarrow> row_value list \<Rightarrow> string \<Rightarrow> row_value option result" where
  "acb_get_value t row name =
     (case at_indices t (ascii name) of
        None \<Rightarrow> Inr None
      | Some i \<Rightarrow> if i < length row then Inr (Some (row ! i)) else Inl Panic)"

definition acb_get_value_header :: "acb_table \<Rightarrow> string \<Rightarrow> row_value option result" where
  "acb_get_value_header t name =
     (case at_rows t of [] \<Rightarrow> Inl Panic | row # _ \<Rightarrow> acb_get_value t row name)"

section \<open>The index\<close>

lemma from_pairs_snoc: "from_pairs (kvs @ [(k, v)]) = (from_pairs kvs)(k \<mapsto> v)"
  by (simp add: from_pairs_def)

lemma from_pairs_Nil [simp]: "from_pairs [] = Map.empty"
  by (simp add: from_pairs_def)

lemma from_pairs_map_of: "from_pairs kvs = map_of (rev kvs)"
  by (induction kvs rule: rev_induct) (auto simp: from_pairs_snoc)

lemma from_pairs_SomeD: "from_pairs kvs k = Some v \<Longrightarrow> (k, v) \<in> set kvs"
  using map_of_SomeD [of "rev kvs" k v] by (simp add: from_pairs_map_of)

lemma from_pairs_None: "from_pairs kvs k = None \<longleftrightarrow> k \<notin> fst ` set kvs"
  by (simp add: from_pairs_map_of map_of_eq_None_iff)

lemma from_pairs_distinct: "distinct (map fst kvs) \<Longrightarrow> (k, v) \<in> set kvs \<Longrightarrow> from_pairs kvs k = Some v"
  by (simp add: from_pairs_map_of rev_map [symmetric])

lemma column_indices_SomeD:
  assumes "column_indices strings columns name = Some i"
  shows "i < length columns \<and> StringPoolFast_get_string strings (col_string_offset (columns ! i)) = Some name"
  using from_pairs_SomeD [OF assms [unfolded column_indices_def]]
  by (auto simp: List.map_filter_def in_set_enumerate_eq split: option.splits)

text \<open>Every value lookup in a row of the table is in range.\<close>

definition acb_table_wf :: "acb_table \<Rightarrow> bool" where
  "acb_table_wf t \<longleftrightarrow>
     (\<forall>row \<in> set (at_rows t). \<forall>i \<in> ran (at_indices t). i < length row) \<and>
     length (at_rows t) = unat (th_row_count (at_header t))"

lemma acb_table_new_wf: "acb_table_new sjis alloc = Inr t \<Longrightarrow> acb_table_wf t"
proof -
  assume "acb_table_new sjis alloc = Inr t"
  then obtain columns cursor rows cursor' strings str_raw where
    rows: "row_new_list cursor (table_header_new alloc) columns = Inr (rows, cursor')"
    and t: "t = \<lparr>at_alloc = alloc, at_header = table_header_new alloc, at_strings = strings, at_rows = rows,
             at_indices = column_indices strings columns\<rparr>"
    by (auto simp: acb_table_new_def Let_def result_iff)
  from read_rows_shape [OF rows [unfolded row_new_list_def]]
  show ?thesis by (auto simp: t acb_table_wf_def ran_def dest: column_indices_SomeD)
qed

lemma acb_get_value_in_range:
  assumes "acb_table_wf t" and "row \<in> set (at_rows t)"
  shows "acb_get_value t row name = Inr (map_option ((!) row) (at_indices t (ascii name)))"
  using assms by (auto simp: acb_get_value_def acb_table_wf_def ran_def split: option.split)

lemma acb_get_value_header_eq:
  assumes "acb_table_wf t"
  shows "acb_get_value_header t name =
    (if at_rows t = [] then Inl Panic else Inr (map_option ((!) (hd (at_rows t))) (at_indices t (ascii name))))"
  using acb_get_value_in_range [OF assms, of "hd (at_rows t)"]
  by (cases "at_rows t") (auto simp: acb_get_value_header_def)

section \<open>When the constructor panics\<close>

lemma acb_table_panics_iff:
  "acb_table_new sjis alloc = Inl Panic \<longleftrightarrow>
     (\<exists>columns cursor. column_new_list \<lparr>contents = alloc, position = HEADER_SIZE\<rparr> (table_header_new alloc) =
        Inr (columns, cursor)) \<and>
     \<not> (unat (th_string_pool_offset (table_header_new alloc)) \<le> unat (th_data_pool_offset (table_header_new alloc)) \<and>
        unat (th_data_pool_offset (table_header_new alloc)) \<le> length alloc)"
proof -
  let ?h = "table_header_new alloc"
  let ?cursor = "\<lparr>contents = alloc, position = HEADER_SIZE\<rparr>"
  have cols: "column_new_list ?cursor ?h \<noteq> Inl Panic"
    using no_panic_column_new_list [of ?cursor ?h] by (simp add: no_panic_def)
  have rows: "row_new_list c ?h cs \<noteq> Inl Panic" for c cs
    using no_panic_row_new_list [of c ?h cs] by (simp add: no_panic_def)
  have strs: "StringPoolFast_new_borrowed sjis s ?h \<noteq> Inl Panic" for s
    using no_panic_pool_new_borrowed [of sjis s ?h] by (simp add: no_panic_def)
  show ?thesis
  proof (cases "column_new_list ?cursor ?h")
    case (Inl e)
    with cols show ?thesis by (auto simp: acb_table_new_def Let_def)
  next
    case (Inr r)
    obtain columns cursor where r: "r = (columns, cursor)" by (cases r)
    show ?thesis
    proof (cases "row_new_list cursor ?h columns")
      case (Inl e)
      with Inr r rows [of cursor columns] show ?thesis
        by (auto simp: acb_table_new_def Let_def range_slice_def)
    next
      case (Inr q)
      then show ?thesis
        using \<open>column_new_list ?cursor ?h = Inr r\<close> r strs
        by (cases q) (auto simp: acb_table_new_def Let_def range_slice_def and_then_def split: sum.split)
    qed
  qed
qed

section \<open>The same table as the archive reader\<close>

text \<open>The parsers read a prefix of the stream: bytes behind it do not matter.\<close>

definition extends :: "stream \<Rightarrow> stream \<Rightarrow> bool" where
  "extends s s' \<longleftrightarrow> position s' = position s \<and> (\<exists>rest. contents s' = contents s @ rest)"

lemma extends_seek: "extends s s' \<Longrightarrow> extends (seek_start n s) (seek_start n s')"
  by (auto simp: extends_def)

lemma extends_read:
  assumes "extends s s'" and "read_exact n s = Inr (bs, t)"
  shows "\<exists>t'. read_exact n s' = Inr (bs, t') \<and> extends t t'"
proof -
  from assms obtain rest where rest: "contents s' = contents s @ rest" and p: "position s' = position s"
    by (auto simp: extends_def)
  from assms(2) have "n \<le> length (contents s) - position s"
    and bs: "bs = slice (position s) n (contents s)" and t: "t = s\<lparr>position := position s + n\<rparr>"
    by (auto simp: result_iff)
  then have "slice (position s) n (contents s @ rest) = bs" by (auto simp: slice_def)
  moreover have "n \<le> length (contents s @ rest) - position s" using \<open>n \<le> _\<close> by simp
  ultimately show ?thesis by (simp add: read_exact_def rest p t extends_def)
qed

lemma extends_read_into:
  assumes "extends s s'" and "read_into n buf s = Inr (buf', t)"
  shows "\<exists>t'. read_into n buf s' = Inr (buf', t') \<and> extends t t'"
  using assms(2) extends_read [OF assms(1)] by (fastforce simp: read_into_def result_iff simp del: read_exact_Inr)

lemma extends_column_name:
  assumes "extends s s'" and "read_column_name flag s = Inr (name, t)"
  shows "\<exists>t'. read_column_name flag s' = Inr (name, t') \<and> extends t t'"
proof (cases "flags_contain (get_flags flag) NAME")
  case True
  with assms(2) obtain bs where "read_exact 4 s = Inr (bs, t)" "from_slice_u32 BigEndian_get_u32 bs 0 = Inr name"
    by (auto simp: read_column_name_def and_then_Inr simp del: read_exact_Inr)
  with extends_read [OF assms(1), of 4 bs t] True show ?thesis by (auto simp: read_column_name_def simp del: read_exact_Inr)
next
  case False
  with assms show ?thesis by (auto simp: read_column_name_def)
qed

lemma extends_column_default:
  assumes "extends s s'" and "read_column_default flag s buf = Inr (d, t, buf')"
  shows "\<exists>t'. read_column_default flag s' buf = Inr (d, t', buf') \<and> extends t t'"
proof (cases "flags_contain (get_flags flag) DEFAULT_VALUE")
  case True
  with assms(2) obtain v where v: "read_into (unat (column_type_size (get_type flag))) buf s = Inr (buf', t)"
    "parse_row_value (get_type flag) buf' = Inr v" "d = Some v" "unat (column_type_size (get_type flag)) \<noteq> 0"
    by (auto simp: read_column_default_def Let_def and_then_Inr split: if_splits)
  from extends_read_into [OF assms(1) v(1)] v True show ?thesis
    by (auto simp: read_column_default_def Let_def)
next
  case False
  with assms show ?thesis by (auto simp: read_column_default_def)
qed

lemma extends_column:
  assumes "extends s s'" and "read_column s buf = Inr (c, t, buf')"
  shows "\<exists>t'. read_column s' buf = Inr (c, t', buf') \<and> extends t t'"
proof -
  from assms(2) obtain flag s1 name s2 d where
    r: "read_exact 1 s = Inr (flag, s1)" "read_column_name (flag ! 0) s1 = Inr (name, s2)"
    "read_column_default (flag ! 0) s2 buf = Inr (d, t, buf')"
    and c: "c = \<lparr>col_flag = flag ! 0, col_string_offset = name, col_default = d\<rparr>"
    by (auto simp: read_column_def and_then_Inr simp del: read_exact_Inr)
  from extends_read [OF assms(1) r(1)] obtain s1' where s1: "read_exact 1 s' = Inr (flag, s1')" "extends s1 s1'" by blast
  from extends_column_name [OF s1(2) r(2)] obtain s2' where s2: "read_column_name (flag ! 0) s1' = Inr (name, s2')" "extends s2 s2'" by blast
  from extends_column_default [OF s2(2) r(3)] s1 s2 show ?thesis
    by (auto simp: read_column_def c simp del: read_exact_Inr)
qed

lemma extends_columns:
  assumes "extends s s'" and "read_columns n s buf = Inr (cs, t)"
  shows "\<exists>t'. read_columns n s' buf = Inr (cs, t') \<and> extends t t'"
  using assms
proof (induction n arbitrary: s s' buf cs t)
  case (Suc n)
  from Suc.prems(2) obtain c s1 buf1 cs1 where
    r: "read_column s buf = Inr (c, s1, buf1)" "read_columns n s1 buf1 = Inr (cs1, t)" and cs: "cs = c # cs1"
    by (auto simp: and_then_Inr)
  from extends_column [OF Suc.prems(1) r(1)] obtain s1' where
    s1: "read_column s' buf = Inr (c, s1', buf1)" "extends s1 s1'" by blast
  from Suc.IH [OF s1(2) r(2)] s1 cs show ?case by auto
qed simp

lemma extends_row_loop:
  assumes "extends s s'" and "create_row_loop s field cs = Inr (vs, t)"
  shows "\<exists>t'. create_row_loop s' field cs = Inr (vs, t') \<and> extends t t'"
  using assms
proof (induction cs arbitrary: s s' field vs t)
  case (Cons c cs)
  let ?ty = "get_type (col_flag c)"
  have ok: "?ty \<noteq> T_Invalid" using Cons.prems(2) by (auto simp: Let_def)
  show ?case
  proof (cases "flags_contain (get_flags (col_flag c)) ROW_STORAGE")
    case False
    with Cons.prems(2) ok obtain vs1 where r: "create_row_loop s field cs = Inr (vs1, t)" "vs = RV_None # vs1"
      by (auto simp: Let_def and_then_Inr)
    from Cons.IH [OF Cons.prems(1) r(1)] r False ok show ?thesis by (auto simp: Let_def)
  next
    case True
    with Cons.prems(2) ok obtain field1 s1 v vs1 where
      r: "read_into (unat (column_type_size ?ty)) field s = Inr (field1, s1)" "parse_row_value ?ty field1 = Inr v"
      "create_row_loop s1 field1 cs = Inr (vs1, t)" "vs = v # vs1"
      by (auto simp: Let_def and_then_Inr)
    from extends_read_into [OF Cons.prems(1) r(1)] obtain s1' where
      s1: "read_into (unat (column_type_size ?ty)) field s' = Inr (field1, s1')" "extends s1 s1'" by blast
    from Cons.IH [OF s1(2) r(3)] r s1 True ok show ?thesis by (auto simp: Let_def)
  qed
qed simp

lemma extends_rows:
  assumes "extends s s'" and "read_rows is rows_offset row_size s cs = Inr (rows, t)"
  shows "\<exists>t'. read_rows is rows_offset row_size s' cs = Inr (rows, t') \<and> extends t t'"
  using assms
proof (induction "is" arbitrary: s s' rows t)
  case (Cons i "is")
  from Cons.prems(2) obtain pos row s1 rows1 where
    pos: "Option.bind (checked_mul (of_nat i) row_size) (\<lambda>offset. checked_add rows_offset offset) = Some pos"
    and r: "create_row (seek_start (unat pos) s) cs = Inr (row, s1)"
    "read_rows is rows_offset row_size s1 cs = Inr (rows1, t)" "rows = row # rows1"
    by (auto simp: and_then_Inr split: option.splits)
  from extends_row_loop [OF extends_seek [OF Cons.prems(1)] r(1) [unfolded create_row_def]] obtain s1' where
    s1: "create_row (seek_start (unat pos) s') cs = Inr (row, s1')" "extends s1 s1'"
    unfolding create_row_def by blast
  from Cons.IH [OF s1(2) r(2)] pos r s1 show ?case by auto
qed simp

lemma slice_take: "a + n \<le> m \<Longrightarrow> slice a n (take m bs) = slice a n bs"
  by (simp add: slice_def drop_take min_def)

lemma acb_table_agrees:
  assumes "high_table_new sjis alloc = Inr t"
  shows "\<exists>a. acb_table_new sjis alloc = Inr a \<and> at_header a = ht_header t \<and> at_strings a = ht_strings t \<and>
    at_rows a = ht_rows t \<and> at_indices a = column_indices (ht_strings t) (ht_columns t)"
proof -
  let ?h = "table_header_new alloc"
  let ?n = "unat (th_size ?h) + 8"
  let ?alloc = "take ?n alloc"
  let ?strs = "unat (th_string_pool_offset ?h)" and ?data = "unat (th_data_pool_offset ?h)"
  from assms obtain columns c1 rows c2 strings where
    cols: "column_new_list \<lparr>contents = ?alloc, position = 0\<rparr> ?h = Inr (columns, c1)"
    and rows: "row_new_list c1 ?h columns = Inr (rows, c2)"
    and pool: "StringPoolFast_new_borrowed sjis (slice ?strs (?data - ?strs) ?alloc) ?h = Inr strings"
    and order: "?strs \<le> ?data" "?data \<le> ?n" "?n \<le> length alloc"
    and t: "t = \<lparr>ht_alloc = ?alloc, ht_header = ?h, ht_columns = columns, ht_strings = strings, ht_rows = rows\<rparr>"
    by (auto simp: high_table_new_def Let_def result_iff sub_slice_def not_less split: if_splits)
  let ?s = "\<lparr>contents = ?alloc, position = HEADER_SIZE\<rparr>" and ?s' = "\<lparr>contents = alloc, position = HEADER_SIZE\<rparr>"
  have ext: "extends ?s ?s'" unfolding extends_def
    by (simp, rule exI [of _ "drop ?n alloc"], simp)
  have cols': "column_new_list ?s ?h = Inr (columns, c1)"
    using cols by (simp add: column_new_list_def seek_start_def)
  from extends_columns [OF extends_seek [OF ext] cols' [unfolded column_new_list_def]] obtain c1' where
    c1: "column_new_list ?s' ?h = Inr (columns, c1')" "extends c1 c1'"
    unfolding column_new_list_def by blast
  from extends_rows [OF c1(2) rows [unfolded row_new_list_def]] obtain c2' where
    c2: "row_new_list c1' ?h columns = Inr (rows, c2')"
    unfolding row_new_list_def by blast
  have "slice ?strs (?data - ?strs) ?alloc = slice ?strs (?data - ?strs) alloc"
    using order by (intro slice_take) simp
  with pool order c1 c2 show ?thesis
    by (auto simp: acb_table_new_def Let_def range_slice_def t)
qed

end
