(* ===== verification/Acb_Reader.thy ===== *)
theory Acb_Reader
  imports Acb_Table
begin

text \<open>
  \<open>acb/reader.rs\<close>: cue sheets.  The outer table has one row; its data cells hold the table of cues
  and the table of cue names.  The reader builds two indices, from names to positions in the cue
  table (the cell \<open>CueIndex\<close>) and from IDs to positions in the cue table.

  \<open>get_cue_by_name\<close> is right for every sheet (\<open>cue_by_name_iff\<close>).  \<open>get_cue_by_id\<close> takes a position in
  the cue table for one in the name table (\<open>cue_by_id_iff\<close>): the two lookups agree when the name
  table has the order of the cue table, and only then; theory \<open>Acb_Sheets\<close> shows what both return
  for sheets written with the table builder.

  The sum of two offsets in \<open>get_table\<close> wraps, as in a build with the profiles of the repository.
\<close>

section \<open>The reader\<close>

record waveform =
  awb_index :: nat
  wf_size :: nat

record cue =
  cue_name :: rust_string
  cue_id :: u32
  waveforms :: "waveform list"

record acb_reader =
  acb_stream :: bytes
  acb_header :: acb_table
  acb_cue_tbl :: "acb_table option"
  acb_cue_name_tbl :: "acb_table option"
  acb_waveform_tbl :: "acb_table option"
  acb_sequence_tbl :: "acb_table option"
  acb_cue_name_to_index :: "rust_string \<rightharpoonup> nat"
  acb_cue_id_to_index :: "u32 \<rightharpoonup> nat"

text \<open>A string cell, resolved in the pool of its table.\<close>

definition string_value :: "acb_table \<Rightarrow> row_value option \<Rightarrow> rust_string option" where
  "string_value t v =
     (case v of Some (RV_String s) \<Rightarrow> StringPoolFast_get_string (at_strings t) s | _ \<Rightarrow> None)"

definition build_cue_names :: "acb_table \<Rightarrow> rust_string list result" where
  "build_cue_names t =
     and_then (map_result (\<lambda>row. acb_get_value t row ''CueName'') (at_rows t)) (\<lambda>vs.
       Inr (List.map_filter (string_value t) vs))"

definition get_table :: "(bytes \<Rightarrow> rust_string) \<Rightarrow> acb_table \<Rightarrow> string \<Rightarrow> acb_table option result" where
  "get_table sjis header name =
     and_then (acb_get_value_header header name) (\<lambda>value.
       case value of
         Some (RV_Data data) \<Rightarrow>
           let file_offset = unat (th_data_pool_offset (at_header header) + dv_offset data) in
           and_then (tail_slice (at_alloc header) file_offset) (\<lambda>bs.
             result_map Some (acb_table_new sjis bs))
       | _ \<Rightarrow> Inr None)"

definition index_name ::
  "acb_table \<Rightarrow> (rust_string \<rightharpoonup> nat) \<Rightarrow> row_value list \<Rightarrow> (rust_string \<rightharpoonup> nat) result" where
  "index_name t out row =
     and_then (acb_get_value t row ''CueName'') (\<lambda>v.
       case string_value t v of
         None \<Rightarrow> Inr out
       | Some name \<Rightarrow>
           and_then (acb_get_value t row ''CueIndex'') (\<lambda>v.
             case v of Some (RV_UInt16 index) \<Rightarrow> Inr (out(name \<mapsto> unat index)) | _ \<Rightarrow> Inr out))"

definition index_id ::
  "acb_table \<Rightarrow> (u32 \<rightharpoonup> nat) \<Rightarrow> nat \<times> row_value list \<Rightarrow> (u32 \<rightharpoonup> nat) result" where
  "index_id t out x =
     (let (i, row) = x in
      and_then (acb_get_value t row ''CueId'') (\<lambda>v.
        case v of Some (RV_UInt32 cue) \<Rightarrow> Inr (out(cue \<mapsto> i)) | _ \<Rightarrow> Inr out))"

definition name_index :: "acb_table option \<Rightarrow> (rust_string \<rightharpoonup> nat) result" where
  "name_index tbl =
     (case tbl of None \<Rightarrow> Inr Map.empty | Some t \<Rightarrow> fold_result (index_name t) Map.empty (at_rows t))"

definition id_index :: "acb_table option \<Rightarrow> (u32 \<rightharpoonup> nat) result" where
  "id_index tbl =
     (case tbl of None \<Rightarrow> Inr Map.empty
      | Some t \<Rightarrow> fold_result (index_id t) Map.empty (enumerate 0 (at_rows t)))"

definition acb_reader_new :: "(bytes \<Rightarrow> rust_string) \<Rightarrow> bytes \<Rightarrow> acb_reader result" where
  "acb_reader_new sjis stream =
     and_then (acb_table_new sjis stream) (\<lambda>header.
     and_then (get_table sjis header ''CueTable'') (\<lambda>cue_tbl.
     and_then (get_table sjis header ''CueNameTable'') (\<lambda>cue_name_tbl.
     and_then (get_table sjis header ''WaveformTable'') (\<lambda>waveform_tbl.
     and_then (get_table sjis header ''SequenceTable'') (\<lambda>sequence_tbl.
     and_then (name_index cue_name_tbl) (\<lambda>names.
     and_then (id_index cue_tbl) (\<lambda>ids.
       Inr \<lparr>acb_stream = stream, acb_header = header, acb_cue_tbl = cue_tbl,
            acb_cue_name_tbl = cue_name_tbl, acb_waveform_tbl = waveform_tbl,
            acb_sequence_tbl = sequence_tbl, acb_cue_name_to_index = names,
            acb_cue_id_to_index = ids\<rparr>)))))))"

definition get_name :: "acb_reader \<Rightarrow> rust_string option result" where
  "get_name a = result_map (string_value (acb_header a)) (acb_get_value_header (acb_header a) ''Name'')"

text \<open>\<open>rows[index]\<close> and \<open>unwrap()\<close> panic.\<close>

definition row_at :: "acb_table \<Rightarrow> nat \<Rightarrow> row_value list result" where
  "row_at t i = (if i < length (at_rows t) then Inr (at_rows t ! i) else Inl Panic)"

definition get_cue_by_name :: "acb_reader \<Rightarrow> rust_string \<Rightarrow> cue option result" where
  "get_cue_by_name a name =
     (case acb_cue_tbl a of
        None \<Rightarrow> Inr None
      | Some cue_tbl \<Rightarrow>
          (case acb_cue_name_to_index a name of
             None \<Rightarrow> Inr None
           | Some index \<Rightarrow>
               and_then (row_at cue_tbl index) (\<lambda>row.
               and_then (acb_get_value cue_tbl row ''CueId'') (\<lambda>v.
                 case v of
                   Some (RV_UInt32 i) \<Rightarrow> Inr (Some \<lparr>cue_name = name, cue_id = i, waveforms = []\<rparr>)
                 | _ \<Rightarrow> Inr None))))"

definition get_cue_by_id :: "acb_reader \<Rightarrow> u32 \<Rightarrow> cue option result" where
  "get_cue_by_id a i =
     (case acb_cue_id_to_index a i of
        None \<Rightarrow> Inr None
      | Some index \<Rightarrow>
          and_then (ok_or Panic (acb_cue_name_tbl a)) (\<lambda>cue_name_tbl.
          and_then (row_at cue_name_tbl index) (\<lambda>row.
          and_then (acb_get_value cue_name_tbl row ''CueName'') (\<lambda>v.
            Inr (map_option (\<lambda>name. \<lparr>cue_name = name, cue_id = i, waveforms = []\<rparr>)
              (string_value cue_name_tbl v))))))"

text \<open>The keys of a hash map, in no order.\<close>

definition get_all_cue_names :: "acb_reader \<Rightarrow> rust_string set" where
  "get_all_cue_names a = dom (acb_cue_name_to_index a)"

definition get_all_cue_ids :: "acb_reader \<Rightarrow> u32 set" where
  "get_all_cue_ids a = dom (acb_cue_id_to_index a)"

section \<open>What the tables say\<close>

definition cell :: "acb_table \<Rightarrow> row_value list \<Rightarrow> string \<Rightarrow> row_value option" where
  "cell t row name = map_option ((!) row) (at_indices t (ascii name))"

definition row_name :: "acb_table \<Rightarrow> row_value list \<Rightarrow> rust_string option" where
  "row_name t row = string_value t (cell t row ''CueName'')"

definition row_index :: "acb_table \<Rightarrow> row_value list \<Rightarrow> nat option" where
  "row_index t row = (case cell t row ''CueIndex'' of Some (RV_UInt16 i) \<Rightarrow> Some (unat i) | _ \<Rightarrow> None)"

definition row_id :: "acb_table \<Rightarrow> row_value list \<Rightarrow> u32 option" where
  "row_id t row = (case cell t row ''CueId'' of Some (RV_UInt32 i) \<Rightarrow> Some i | _ \<Rightarrow> None)"

definition name_entry :: "acb_table \<Rightarrow> row_value list \<Rightarrow> (rust_string \<times> nat) option" where
  "name_entry t row =
     Option.bind (row_name t row) (\<lambda>name. map_option (Pair name) (row_index t row))"

definition id_entry :: "acb_table \<Rightarrow> nat \<times> row_value list \<Rightarrow> (u32 \<times> nat) option" where
  "id_entry t x = map_option (\<lambda>i. (i, fst x)) (row_id t (snd x))"

lemma get_value_cell: "acb_table_wf t \<Longrightarrow> row \<in> set (at_rows t) \<Longrightarrow> acb_get_value t row name = Inr (cell t row name)"
  by (simp add: acb_get_value_in_range cell_def)

lemma index_name_eq:
  assumes "acb_table_wf t" and "row \<in> set (at_rows t)"
  shows "index_name t out row =
    Inr (case name_entry t row of None \<Rightarrow> out | Some (name, i) \<Rightarrow> out(name \<mapsto> i))"
  using assms
  by (simp add: index_name_def get_value_cell name_entry_def row_name_def row_index_def
      split: option.split row_value.split)

lemma index_id_eq:
  assumes "acb_table_wf t" and "snd x \<in> set (at_rows t)"
  shows "index_id t out x = Inr (case id_entry t x of None \<Rightarrow> out | Some (i, k) \<Rightarrow> out(i \<mapsto> k))"
  using assms
  by (cases x) (simp add: index_id_def get_value_cell id_entry_def row_id_def
      split: option.split row_value.split)

lemma fold_entries:
  assumes "\<And>x m. x \<in> set xs \<Longrightarrow> f m x = Inr (case entry x of None \<Rightarrow> m | Some (k, v) \<Rightarrow> m(k \<mapsto> v))"
  shows "fold_result f Map.empty xs = Inr (from_pairs (List.map_filter entry xs))"
  using assms
proof (induction xs rule: rev_induct)
  case (snoc x xs)
  then have "fold_result f Map.empty xs = Inr (from_pairs (List.map_filter entry xs))" by simp
  with snoc.prems [of x] show ?case
    by (cases "entry x") (auto simp: fold_result_append List.map_filter_def from_pairs_snoc)
qed (simp add: List.map_filter_def)

lemma name_index_eq:
  "acb_table_wf t \<Longrightarrow> name_index (Some t) = Inr (from_pairs (List.map_filter (name_entry t) (at_rows t)))"
  unfolding name_index_def option.case by (rule fold_entries) (rule index_name_eq)

lemma id_index_eq:
  "acb_table_wf t \<Longrightarrow> id_index (Some t) = Inr (from_pairs (List.map_filter (id_entry t) (enumerate 0 (at_rows t))))"
  unfolding id_index_def option.case
  by (rule fold_entries) (rule index_id_eq, auto simp: in_set_enumerate_eq)

text \<open>A reader that was built: its tables are well formed and its indices are those of its tables.\<close>

definition acb_reader_wf :: "acb_reader \<Rightarrow> bool" where
  "acb_reader_wf a \<longleftrightarrow>
     acb_table_wf (acb_header a) \<and> at_rows (acb_header a) \<noteq> [] \<and>
     (\<forall>t. acb_cue_tbl a = Some t \<longrightarrow> acb_table_wf t) \<and>
     (\<forall>t. acb_cue_name_tbl a = Some t \<longrightarrow> acb_table_wf t) \<and>
     name_index (acb_cue_name_tbl a) = Inr (acb_cue_name_to_index a) \<and>
     id_index (acb_cue_tbl a) = Inr (acb_cue_id_to_index a)"

lemma get_table_cases:
  assumes "get_table sjis header name = Inr r"
  obtains (absent) v where "acb_get_value_header header name = Inr v" "r = None"
  | (present) bs t where "acb_table_new sjis bs = Inr t" "r = Some t" "at_rows header \<noteq> []"
proof -
  from assms obtain v where v: "acb_get_value_header header name = Inr v"
    and r: "(case v of
         Some (RV_Data data) \<Rightarrow>
           let file_offset = unat (th_data_pool_offset (at_header header) + dv_offset data) in
           and_then (tail_slice (at_alloc header) file_offset) (\<lambda>bs.
             result_map Some (acb_table_new sjis bs))
       | _ \<Rightarrow> Inr None) = Inr r"
    unfolding get_table_def and_then_Inr by blast
  have rows: "at_rows header \<noteq> []" using v by (auto simp: acb_get_value_header_def)
  show thesis
  proof (cases "\<exists>d. v = Some (RV_Data d)")
    case True
    with r rows present show thesis by (auto simp: Let_def and_then_Inr result_map_Inr)
  next
    case False
    with r have "r = None" by (cases v) (simp, cases "the v", simp_all)
    with v absent show thesis by blast
  qed
qed

lemma get_table_wf: "get_table sjis header name = Inr (Some t) \<Longrightarrow> acb_table_wf t"
  by (erule get_table_cases) (auto dest: acb_table_new_wf)

lemma acb_reader_new_wf: "acb_reader_new sjis stream = Inr a \<Longrightarrow> acb_reader_wf a"
proof -
  assume "acb_reader_new sjis stream = Inr a"
  then obtain header cue_tbl where header: "acb_table_new sjis stream = Inr header"
    and cue: "get_table sjis header ''CueTable'' = Inr cue_tbl"
    and a: "acb_header a = header" "acb_cue_tbl a = cue_tbl"
      "get_table sjis header ''CueNameTable'' = Inr (acb_cue_name_tbl a)"
      "name_index (acb_cue_name_tbl a) = Inr (acb_cue_name_to_index a)"
      "id_index (acb_cue_tbl a) = Inr (acb_cue_id_to_index a)"
    by (auto simp: acb_reader_new_def result_iff)
  from cue have "at_rows header \<noteq> []"
    by (auto simp: get_table_def acb_get_value_header_def result_iff split: list.splits)
  with header a cue show ?thesis
    by (auto simp: acb_reader_wf_def acb_table_new_wf intro: get_table_wf)
qed

section \<open>The lookups\<close>

lemma get_name_safe: "acb_reader_wf a \<Longrightarrow> no_panic (get_name a)"
  by (simp add: get_name_def acb_reader_wf_def acb_get_value_header_eq)

lemma row_id_in_range:
  "acb_table_wf t \<Longrightarrow> k < length (at_rows t) \<Longrightarrow>
   acb_get_value t (at_rows t ! k) name = Inr (cell t (at_rows t ! k) name)"
  by (simp add: get_value_cell)

lemma cue_by_name_iff:
  assumes "acb_reader_wf a"
  shows "get_cue_by_name a name = Inr (Some c) \<longleftrightarrow>
    (\<exists>t k. acb_cue_tbl a = Some t \<and> acb_cue_name_to_index a name = Some k \<and> k < length (at_rows t) \<and>
      row_id t (at_rows t ! k) = Some (cue_id c) \<and> c = \<lparr>cue_name = name, cue_id = cue_id c, waveforms = []\<rparr>)"
proof (cases "acb_cue_tbl a")
  case (Some t)
  with assms have wf: "acb_table_wf t" by (simp add: acb_reader_wf_def)
  show ?thesis
  proof (cases "acb_cue_name_to_index a name")
    case (Some k)
    with \<open>acb_cue_tbl a = Some t\<close> wf show ?thesis
      by (auto simp: get_cue_by_name_def row_at_def row_id_in_range row_id_def
          split: option.splits row_value.splits)
  qed (auto simp: get_cue_by_name_def Some)
qed (simp add: get_cue_by_name_def)

lemma cue_by_id_iff:
  assumes "acb_reader_wf a"
  shows "get_cue_by_id a i = Inr (Some c) \<longleftrightarrow>
    (\<exists>n k. acb_cue_name_tbl a = Some n \<and> acb_cue_id_to_index a i = Some k \<and> k < length (at_rows n) \<and>
      row_name n (at_rows n ! k) = Some (cue_name c) \<and> c = \<lparr>cue_name = cue_name c, cue_id = i, waveforms = []\<rparr>)"
proof (cases "acb_cue_name_tbl a")
  case (Some n)
  with assms have wf: "acb_table_wf n" by (simp add: acb_reader_wf_def)
  show ?thesis
  proof (cases "acb_cue_id_to_index a i")
    case (Some k)
    with \<open>acb_cue_name_tbl a = Some n\<close> wf show ?thesis
      by (cases "k < length (at_rows n)") (auto simp: get_cue_by_id_def row_at_def row_id_in_range row_name_def)
  qed (simp add: get_cue_by_id_def)
qed (auto simp: get_cue_by_id_def split: option.split)

text \<open>When the lookups panic: an index that is no position of the other table, or no name table.\<close>

lemma cue_by_name_panics:
  assumes "acb_reader_wf a"
  shows "get_cue_by_name a name = Inl Panic \<longleftrightarrow>
    (\<exists>t k. acb_cue_tbl a = Some t \<and> acb_cue_name_to_index a name = Some k \<and> length (at_rows t) \<le> k)"
proof (cases "acb_cue_tbl a")
  case (Some t)
  with assms have wf: "acb_table_wf t" by (simp add: acb_reader_wf_def)
  then show ?thesis
    by (auto simp: get_cue_by_name_def Some row_at_def row_id_in_range not_less split: option.split row_value.split)
qed (simp add: get_cue_by_name_def)

lemma cue_by_id_panics:
  assumes "acb_reader_wf a"
  shows "get_cue_by_id a i = Inl Panic \<longleftrightarrow>
    (\<exists>k. acb_cue_id_to_index a i = Some k \<and>
      (\<forall>n. acb_cue_name_tbl a = Some n \<longrightarrow> length (at_rows n) \<le> k))"
proof (cases "acb_cue_name_tbl a")
  case (Some n)
  with assms have wf: "acb_table_wf n" by (simp add: acb_reader_wf_def)
  then show ?thesis
    by (auto simp: get_cue_by_id_def Some row_at_def row_id_in_range not_less split: option.split)
qed (auto simp: get_cue_by_id_def split: option.split)

end
