(* ===== verification/Acb_Sheets.thy ===== *)
theory Acb_Sheets
  imports Acb_Reader Utf_Builder
begin

text \<open>
  The cue sheet reader on sheets of known contents.  The crate has no cue sheet writer, so the sheets
  here are made with its own \<open>UtfTableBuilder\<close>: a table of IDs, a table of names with positions, and
  an outer table that holds both.  \<open>sheet_lookups\<close> says what every lookup returns on such a sheet.
\<close>

section \<open>Tables followed by other bytes\<close>

lemma table_header_append:
  "HEADER_SIZE \<le> length alloc \<Longrightarrow> table_header_new (alloc @ rest) = table_header_new alloc"
  by (simp add: table_header_new_def Let_def min_def)

lemma acb_table_extends:
  assumes new: "acb_table_new sjis alloc = Inr a" and long: "HEADER_SIZE \<le> length alloc"
  shows "acb_table_new sjis (alloc @ rest) = Inr (a\<lparr>at_alloc := alloc @ rest\<rparr>)"
proof -
  let ?h = "table_header_new alloc"
  let ?strs = "unat (th_string_pool_offset ?h)" and ?data = "unat (th_data_pool_offset ?h)"
  let ?s = "\<lparr>contents = alloc, position = HEADER_SIZE\<rparr>"
  let ?s' = "\<lparr>contents = alloc @ rest, position = HEADER_SIZE\<rparr>"
  from new obtain columns c1 rows c2 strings where
    cols: "column_new_list ?s ?h = Inr (columns, c1)" and rows: "row_new_list c1 ?h columns = Inr (rows, c2)"
    and pool: "StringPoolFast_new_borrowed sjis (slice ?strs (?data - ?strs) alloc) ?h = Inr strings"
    and order: "?strs \<le> ?data" "?data \<le> length alloc"
    and a: "a = \<lparr>at_alloc = alloc, at_header = ?h, at_strings = strings, at_rows = rows,
             at_indices = column_indices strings columns\<rparr>"
    by (auto simp: acb_table_new_def Let_def result_iff range_slice_def split: if_splits)
  have ext: "extends ?s ?s'" by (simp add: extends_def)
  from extends_columns [OF extends_seek [OF ext] cols [unfolded column_new_list_def]] obtain c1' where
    c1: "column_new_list ?s' ?h = Inr (columns, c1')" "extends c1 c1'"
    unfolding column_new_list_def by blast
  from extends_rows [OF c1(2) rows [unfolded row_new_list_def]] obtain c2' where
    c2: "row_new_list c1' ?h columns = Inr (rows, c2')"
    unfolding row_new_list_def by blast
  have "slice ?strs (?data - ?strs) (alloc @ rest) = slice ?strs (?data - ?strs) alloc"
    using slice_take [of ?strs "?data - ?strs" "length alloc" "alloc @ rest"] order by simp
  with pool order c1 c2 show ?thesis
    by (auto simp: acb_table_new_def Let_def range_slice_def table_header_append [OF long] a)
qed

section \<open>Stored values\<close>

lemma parse_row_value_some: "parse_row_value ty buf = Inr v \<Longrightarrow> ty \<noteq> T_Invalid \<Longrightarrow> v \<noteq> RV_None"
  by (cases ty) (auto simp: result_iff)

lemma create_row_loop_stored_some:
  "create_row_loop s field cs = Inr (vs, t) \<Longrightarrow> \<forall>c \<in> set cs. row_stored c \<Longrightarrow> RV_None \<notin> set vs"
proof (induction cs arbitrary: s field vs t)
  case (Cons c cs)
  then show ?case
    by (fastforce simp: Let_def and_then_Inr row_stored_def dest: parse_row_value_some split: if_splits)
qed simp

lemma read_rows_stored_some:
  "read_rows is o' z s cs = Inr (rows, t) \<Longrightarrow> \<forall>c \<in> set cs. row_stored c \<Longrightarrow> \<forall>row \<in> set rows. RV_None \<notin> set row"
  by (induction "is" arbitrary: s rows t)
    (fastforce simp: and_then_Inr create_row_def dest: create_row_loop_stored_some split: option.splits)+

lemma ht_value_stored:
  assumes new: "high_table_new sjis alloc = Inr t" and stored: "\<forall>c \<in> set (ht_columns t). row_stored c"
    and r: "r < length (ht_rows t)" and c: "c < length (ht_columns t)"
  shows "ht_value t r c = Some (ht_rows t ! r ! c)"
proof -
  from new obtain s h s' where "row_new_list s h (ht_columns t) = Inr (ht_rows t, s')"
    by (auto simp: high_table_new_def Let_def result_iff split: if_splits)
  from read_rows_stored_some [OF this [unfolded row_new_list_def] stored] r
  have none: "RV_None \<notin> set (ht_rows t ! r)" by simp
  from high_table_new_wf [OF new] r c have len: "c < length (ht_rows t ! r)"
    by (auto simp: high_table_wf_def)
  with none have "ht_rows t ! r ! c \<noteq> RV_None" by (metis nth_mem)
  with r len show ?thesis by (simp add: ht_value_def)
qed

section \<open>Cells of a built table\<close>

definition columns_named :: "utf_table_builder \<Rightarrow> string list \<Rightarrow> bool" where
  "columns_named b names \<longleftrightarrow> map uc_name (tb_columns b) = map ascii names \<and> distinct (map ascii names)"

lemma find_position_distinct:
  "distinct xs \<Longrightarrow> i < length xs \<Longrightarrow> find_position (\<lambda>x. x = xs ! i) xs = Some i"
  by (auto simp: find_position_Some nth_eq_iff_index_eq)

lemma find_position_map: "find_position p (map f xs) = find_position (p \<circ> f) xs"
  by (induction xs) simp_all

lemma map_filter_list_all2: "list_all2 (\<lambda>x y. f x = Some y) xs ys \<Longrightarrow> List.map_filter f xs = ys"
  by (induction rule: list_all2_induct) simp_all

lemma map_filter_nth:
  "length xs = length ys \<Longrightarrow> (\<And>i. i < length ys \<Longrightarrow> f (xs ! i) = Some (ys ! i)) \<Longrightarrow> List.map_filter f xs = ys"
  by (rule map_filter_list_all2) (simp add: list_all2_conv_all_nth)

lemma column_names_shown:
  assumes shows': "table_shows ht b" and names: "columns_named b names" and c: "c < length names"
  shows "StringPoolFast_get_string (ht_strings ht) (col_string_offset (ht_columns ht ! c)) = Some (ascii (names ! c))"
proof -
  have "find_position (\<lambda>x. x = map ascii names ! c) (map uc_name (tb_columns b)) = Some c"
    using names c find_position_distinct [of "map ascii names" c] by (simp add: columns_named_def)
  then have "column_index ht (names ! c) = Some c"
    using shows' c by (simp add: table_shows_def find_position_map comp_def)
  then show ?thesis by (simp add: column_index_def find_position_Some)
qed

lemma column_indices_shown:
  assumes shows': "table_shows ht b" and names: "columns_named b names"
  shows "column_indices (ht_strings ht) (ht_columns ht) = from_pairs (zip (map ascii names) [0..<length names])"
proof -
  let ?entry = "\<lambda>(i, c). map_option (\<lambda>s. (s, i)) (StringPoolFast_get_string (ht_strings ht) (col_string_offset c))"
  have len: "length (ht_columns ht) = length names"
    using shows' names by (metis columns_named_def table_shows_def length_map)
  have "List.map_filter ?entry (enumerate 0 (ht_columns ht)) = zip (map ascii names) [0..<length names]"
    by (rule map_filter_nth) (use len column_names_shown [OF shows' names] in \<open>simp_all add: nth_enumerate_eq\<close>)
  then show ?thesis by (simp add: column_indices_def)
qed

lemma from_pairs_positions:
  assumes "distinct xs" and "i < length xs"
  shows "from_pairs (zip xs [0..<length xs]) (xs ! i) = Some i"
  by (rule from_pairs_distinct) (use assms in \<open>auto simp: set_zip\<close>)

text \<open>A built table, read by the cue sheet reader with other bytes behind it.\<close>

definition acb_shows :: "acb_table \<Rightarrow> high_table \<Rightarrow> utf_table_builder \<Rightarrow> bool" where
  "acb_shows a ht b \<longleftrightarrow>
     at_strings a = ht_strings ht \<and> at_header a = ht_header ht \<and> length (at_rows a) = length (tb_rows b) \<and>
     (\<forall>names. columns_named b names \<longrightarrow> (\<forall>r < length (tb_rows b).
        (\<forall>c < length names. \<exists>rv. cell a (at_rows a ! r) (names ! c) = Some rv \<and> cell_shows ht (tb_rows b ! r ! c) rv) \<and>
        (\<forall>name. ascii name \<notin> set (map ascii names) \<longrightarrow> cell a (at_rows a ! r) name = None)))"

lemma built_table_shows:
  assumes b: "build b = Inr t" and strs: "pool_strings_ok (builder_strings b)" and small: "length t < 2 ^ 32"
  shows "\<exists>a ht. acb_table_new sjis (t @ rest) = Inr a \<and> at_alloc a = t @ rest \<and> ht_alloc ht = t \<and> acb_shows a ht b"
proof -
  from build_read_back_shows [OF b strs small] obtain ht where
    ht: "high_table_new sjis t = Inr ht" "ht_alloc ht = t" "table_shows ht b" by blast
  from acb_table_agrees [OF ht(1)] obtain a where a: "acb_table_new sjis t = Inr a"
    and fields: "at_header a = ht_header ht" "at_strings a = ht_strings ht" "at_rows a = ht_rows ht"
      "at_indices a = column_indices (ht_strings ht) (ht_columns ht)" by blast
  from ht(1) have long: "HEADER_SIZE \<le> length t"
    by (auto simp: high_table_new_def not_less split: if_splits)
  let ?a = "a\<lparr>at_alloc := t @ rest\<rparr>"
  have shapes: "length (ht_rows ht) = length (tb_rows b)" "length (ht_columns ht) = length (tb_columns b)"
    and stored: "\<forall>c \<in> set (ht_columns ht). row_stored c"
    using ht(3) by (auto simp: table_shows_def)
  have "\<exists>rv. cell ?a (ht_rows ht ! r) (names ! c) = Some rv \<and> cell_shows ht (tb_rows b ! r ! c) rv"
    if names: "columns_named b names" and r: "r < length (tb_rows b)" and c: "c < length names" for names r c
  proof -
    have c': "c < length (tb_columns b)" using names c by (metis columns_named_def length_map)
    have "at_indices a (ascii (names ! c)) = Some c"
      using from_pairs_positions [of "map ascii names" c] names c column_indices_shown [OF ht(3) names]
      by (simp add: fields columns_named_def)
    moreover have "ht_value ht r c = Some (ht_rows ht ! r ! c)"
      using ht_value_stored [OF ht(1) stored] r c' shapes by simp
    moreover from ht(3) r c' obtain rv where "ht_value ht r c = Some rv" "cell_shows ht (tb_rows b ! r ! c) rv"
      unfolding table_shows_def by blast
    ultimately show ?thesis by (simp add: cell_def)
  qed
  moreover have "cell ?a row name = None"
    if names: "columns_named b names" and "ascii name \<notin> set (map ascii names)" for names row name
  proof -
    have "at_indices a (ascii name) = None"
      using that(2) unfolding fields column_indices_shown [OF ht(3) names] from_pairs_None
      by (auto simp: set_zip)
    then show ?thesis by (simp add: cell_def)
  qed
  ultimately have "acb_shows ?a ht b" using shapes fields unfolding acb_shows_def by simp
  with acb_table_extends [OF a long, of rest] ht(2) show ?thesis by auto
qed

section \<open>Sheets\<close>

definition cue_builder :: "u32 list \<Rightarrow> utf_table_builder" where
  "cue_builder ids =
     utf_table_builder_new ''Cue'' [utf_column_new ''CueId'' U_UInt32] (map (\<lambda>i. [UV_UInt32 i]) ids)"

definition name_builder :: "(rust_string \<times> u16) list \<Rightarrow> utf_table_builder" where
  "name_builder ns =
     utf_table_builder_new ''CueName'' [utf_column_new ''CueName'' U_String, utf_column_new ''CueIndex'' U_UInt16]
       (map (\<lambda>(n, k). [UV_String n, UV_UInt16 k]) ns)"

definition sheet_builder :: "rust_string \<Rightarrow> bytes \<Rightarrow> bytes \<Rightarrow> utf_table_builder" where
  "sheet_builder title cues names =
     utf_table_builder_new ''Header''
       [utf_column_new ''Name'' U_String, utf_column_new ''CueTable'' U_Data, utf_column_new ''CueNameTable'' U_Data]
       [[UV_String title, UV_Data cues, UV_Data names]]"

lemma sheet_columns:
  "columns_named (cue_builder ids) [''CueId'']"
  "columns_named (name_builder ns) [''CueName'', ''CueIndex'']"
  "columns_named (sheet_builder title cues names) [''Name'', ''CueTable'', ''CueNameTable'']"
  by (simp_all add: columns_named_def cue_builder_def name_builder_def sheet_builder_def
      utf_table_builder_new_def utf_column_new_def ascii_def)

lemma nested_table:
  assumes wf: "acb_table_wf a" and rows: "at_rows a = [row]" and v: "cell a row name = Some (RV_Data v)"
    and d: "ht_data ht v = Some d" and same: "at_alloc a = ht_alloc ht" "at_header a = ht_header ht"
    and small: "length (ht_alloc ht) < 2 ^ 32"
  shows "\<exists>rest. get_table sjis a name = result_map Some (acb_table_new sjis (d @ rest))"
proof -
  let ?p = "th_data_pool_offset (ht_header ht)"
  let ?start = "unat ?p + unat (dv_offset v)"
  from d have fits: "?start + unat (dv_length v) \<le> length (ht_alloc ht)"
    and slice: "d = slice ?start (unat (dv_length v)) (ht_alloc ht)"
    using ht_data_range [OF d] by (auto simp: ht_data_def result_iff bind_eq_Some_conv split: if_splits)
  then have "unat (?p + dv_offset v) = ?start" using small by (intro unat_add_fits) simp
  moreover have "drop ?start (ht_alloc ht) = d @ drop (unat (dv_length v)) (drop ?start (ht_alloc ht))"
    unfolding slice slice_def by (rule append_take_drop_id [symmetric])
  moreover have "acb_get_value_header a name = Inr (Some (RV_Data v))"
    using v rows by (simp add: acb_get_value_header_eq [OF wf] cell_def)
  ultimately show ?thesis
    using fits same by (auto simp: get_table_def Let_def tail_slice_def)
qed

lemma absent_table:
  assumes "acb_table_wf a" and "at_rows a = [row]" and "cell a row name = None"
  shows "get_table sjis a name = Inr None"
  using assms by (simp add: get_table_def acb_get_value_header_eq cell_def)

lemma cue_rows:
  assumes "acb_shows a ht (cue_builder ids)" and "k < length ids"
  shows "row_id a (at_rows a ! k) = Some (ids ! k)"
  using assms sheet_columns(1) [of ids]
  by (fastforce simp: acb_shows_def row_id_def cue_builder_def utf_table_builder_new_def)

lemma name_rows:
  assumes a: "acb_shows a ht (name_builder ns)" and k: "k < length ns"
  shows "row_name a (at_rows a ! k) = Some (fst (ns ! k))"
    and "row_index a (at_rows a ! k) = Some (unat (snd (ns ! k)))"
proof -
  have row: "tb_rows (name_builder ns) ! k = [UV_String (fst (ns ! k)), UV_UInt16 (snd (ns ! k))]"
    and len: "k < length (tb_rows (name_builder ns))"
    using k by (simp_all add: name_builder_def utf_table_builder_new_def split: prod.split)
  from a len sheet_columns(2) [of ns] have cells: "\<exists>rv. cell a (at_rows a ! k) ([''CueName'', ''CueIndex''] ! c) = Some rv \<and>
      cell_shows ht (tb_rows (name_builder ns) ! k ! c) rv" if "c < 2" for c
    using that unfolding acb_shows_def by fastforce
  from cells [of 0] cells [of 1] a show "row_name a (at_rows a ! k) = Some (fst (ns ! k))"
    and "row_index a (at_rows a ! k) = Some (unat (snd (ns ! k)))"
    by (auto simp: row row_name_def row_index_def string_value_def acb_shows_def)
qed

lemma acb_shows_rows:
  "acb_shows a ht (cue_builder ids) \<Longrightarrow> length (at_rows a) = length ids"
  "acb_shows a ht (name_builder ns) \<Longrightarrow> length (at_rows a) = length ns"
  by (simp_all add: acb_shows_def cue_builder_def name_builder_def utf_table_builder_new_def)

lemma id_index_shown:
  assumes wf: "acb_table_wf a" and a: "acb_shows a ht (cue_builder ids)"
  shows "id_index (Some a) = Inr (from_pairs (zip ids [0..<length ids]))"
proof -
  have len: "length (at_rows a) = length ids" by (rule acb_shows_rows(1) [OF a])
  have "List.map_filter (id_entry a) (enumerate 0 (at_rows a)) = zip ids [0..<length ids]"
    by (rule map_filter_nth) (use len cue_rows [OF a] in \<open>simp_all add: nth_enumerate_eq id_entry_def\<close>)
  then show ?thesis by (simp add: id_index_eq [OF wf])
qed

lemma name_index_shown:
  assumes wf: "acb_table_wf a" and a: "acb_shows a ht (name_builder ns)"
  shows "name_index (Some a) = Inr (from_pairs (map (\<lambda>(n, k). (n, unat k)) ns))"
proof -
  have len: "length (at_rows a) = length ns" by (rule acb_shows_rows(2) [OF a])
  have "List.map_filter (name_entry a) (at_rows a) = map (\<lambda>(n, k). (n, unat k)) ns"
    by (rule map_filter_nth) (use len name_rows [OF a] in \<open>auto simp: name_entry_def split: prod.split\<close>)
  then show ?thesis by (simp add: name_index_eq [OF wf])
qed

lemma builder_texts:
  "pool_strings_ok (builder_strings (cue_builder ids))"
  "pool_strings_ok (title # map fst ns) \<Longrightarrow> pool_strings_ok (builder_strings (name_builder ns))"
  "pool_strings_ok (title # map fst ns) \<Longrightarrow> pool_strings_ok (builder_strings (sheet_builder title cues names))"
  by (auto simp: pool_strings_ok_def builder_strings_def cue_builder_def name_builder_def sheet_builder_def
      utf_table_builder_new_def utf_column_new_def ascii_def strings_of_def split: utf_value.splits)

lemma sheet_reader:
  assumes cb: "build (cue_builder ids) = Inr cues" and nb: "build (name_builder ns) = Inr names"
    and sb: "build (sheet_builder title cues names) = Inr sheet" and small: "length sheet < 2 ^ 32"
    and texts: "pool_strings_ok (title # map fst ns)"
  shows "\<exists>a t ht n hn. acb_reader_new sjis sheet = Inr a \<and> get_name a = Inr (Some title) \<and>
    acb_cue_tbl a = Some t \<and> acb_shows t ht (cue_builder ids) \<and> acb_table_wf t \<and>
    acb_cue_name_tbl a = Some n \<and> acb_shows n hn (name_builder ns) \<and> acb_table_wf n \<and>
    acb_cue_name_to_index a = from_pairs (map (\<lambda>(n, k). (n, unat k)) ns) \<and>
    acb_cue_id_to_index a = from_pairs (zip ids [0..<length ids])"
proof -
  from built_table_shows [OF sb builder_texts(3) [OF texts] small, of sjis "[]"] obtain h hh where
    h: "acb_table_new sjis sheet = Inr h" "at_alloc h = sheet" "ht_alloc hh = sheet"
      "acb_shows h hh (sheet_builder title cues names)" by auto
  note wf = acb_table_new_wf [OF h(1)]
  have same: "at_alloc h = ht_alloc hh" "at_header h = ht_header hh" "at_strings h = ht_strings hh"
    using h by (simp_all add: acb_shows_def)
  have "length (at_rows h) = 1" using h(4) by (simp add: acb_shows_def sheet_builder_def utf_table_builder_new_def)
  then obtain row where rows: "at_rows h = [row]" by (cases "at_rows h") auto
  have row: "tb_rows (sheet_builder title cues names) ! 0 = [UV_String title, UV_Data cues, UV_Data names]"
    and one: "0 < length (tb_rows (sheet_builder title cues names))"
    by (simp_all add: sheet_builder_def utf_table_builder_new_def)
  have cells: "\<exists>rv. cell h row ([''Name'', ''CueTable'', ''CueNameTable''] ! c) = Some rv \<and>
      cell_shows hh ([UV_String title, UV_Data cues, UV_Data names] ! c) rv" if "c < 3" for c
    using h(4) sheet_columns(3) [of title cues names] one that rows row unfolding acb_shows_def by fastforce
  have none: "cell h row name = None" if "name \<in> {''WaveformTable'', ''SequenceTable''}" for name
  proof -
    have "ascii name \<notin> set (map ascii [''Name'', ''CueTable'', ''CueNameTable''])"
      using that by (auto simp: ascii_def)
    with h(4) sheet_columns(3) [of title cues names] one rows show ?thesis unfolding acb_shows_def by fastforce
  qed
  from cells [of 0] obtain o1 where title: "cell h row ''Name'' = Some (RV_String o1)"
    "StringPoolFast_get_string (at_strings h) o1 = Some title" by (auto simp: same)
  from cells [of 1] obtain v1 where v1: "cell h row ''CueTable'' = Some (RV_Data v1)" "ht_data hh v1 = Some cues" by auto
  from cells [of 2] obtain v2 where v2: "cell h row ''CueNameTable'' = Some (RV_Data v2)" "ht_data hh v2 = Some names" by auto
  have lens: "length cues < 2 ^ 32" "length names < 2 ^ 32"
    using ht_data_range [OF v1(2)] ht_data_range [OF v2(2)] small h(3) by auto
  from nested_table [OF wf rows v1 same(1,2), of sjis] small h(3) obtain r1 where
    t1: "get_table sjis h ''CueTable'' = result_map Some (acb_table_new sjis (cues @ r1))" by auto
  from built_table_shows [OF cb builder_texts(1) lens(1), of sjis r1] obtain t ht where
    t: "acb_table_new sjis (cues @ r1) = Inr t" "acb_shows t ht (cue_builder ids)" by blast
  from nested_table [OF wf rows v2 same(1,2), of sjis] small h(3) obtain r2 where
    t2: "get_table sjis h ''CueNameTable'' = result_map Some (acb_table_new sjis (names @ r2))" by auto
  from built_table_shows [OF nb builder_texts(2) [OF texts] lens(2), of sjis r2] obtain n hn where
    n: "acb_table_new sjis (names @ r2) = Inr n" "acb_shows n hn (name_builder ns)" by blast
  note wfs = acb_table_new_wf [OF t(1)] acb_table_new_wf [OF n(1)]
  have "acb_reader_new sjis sheet = Inr \<lparr>acb_stream = sheet, acb_header = h, acb_cue_tbl = Some t,
      acb_cue_name_tbl = Some n, acb_waveform_tbl = None, acb_sequence_tbl = None,
      acb_cue_name_to_index = from_pairs (map (\<lambda>(n, k). (n, unat k)) ns),
      acb_cue_id_to_index = from_pairs (zip ids [0..<length ids])\<rparr>"
    using h(1) t1 t2 t(1) n(1) absent_table [OF wf rows none]
    by (simp add: acb_reader_new_def name_index_shown [OF wfs(2) n(2)] id_index_shown [OF wfs(1) t(2)])
  moreover have "result_map (string_value h) (acb_get_value_header h ''Name'') = Inr (Some title)"
    using title rows by (auto simp: acb_get_value_header_eq [OF wf] cell_def string_value_def)
  ultimately show ?thesis using t n wfs by (auto simp: get_name_def)
qed

lemma sheet_lookups:
  assumes "build (cue_builder ids) = Inr cues" and "build (name_builder ns) = Inr names"
    and "build (sheet_builder title cues names) = Inr sheet" and "length sheet < 2 ^ 32"
    and "pool_strings_ok (title # map fst ns)"
  shows "\<exists>a. acb_reader_new sjis sheet = Inr a \<and> get_name a = Inr (Some title) \<and>
    (\<forall>n. get_cue_by_name a n =
      (case from_pairs (map (\<lambda>(n, k). (n, unat k)) ns) n of None \<Rightarrow> Inr None
       | Some k \<Rightarrow> if k < length ids then Inr (Some \<lparr>cue_name = n, cue_id = ids ! k, waveforms = []\<rparr>)
                   else Inl Panic)) \<and>
    (\<forall>i. get_cue_by_id a i =
      (case from_pairs (zip ids [0..<length ids]) i of None \<Rightarrow> Inr None
       | Some k \<Rightarrow> if k < length ns then Inr (Some \<lparr>cue_name = fst (ns ! k), cue_id = i, waveforms = []\<rparr>)
                   else Inl Panic))"
proof -
  from sheet_reader [OF assms, of sjis] obtain a t ht n hn where
    a: "acb_reader_new sjis sheet = Inr a" "get_name a = Inr (Some title)" "acb_cue_tbl a = Some t"
      "acb_cue_name_tbl a = Some n"
      "acb_cue_name_to_index a = from_pairs (map (\<lambda>(n, k). (n, unat k)) ns)"
      "acb_cue_id_to_index a = from_pairs (zip ids [0..<length ids])"
    and t: "acb_shows t ht (cue_builder ids)" "acb_table_wf t"
    and n: "acb_shows n hn (name_builder ns)" "acb_table_wf n" by blast
  note lens = acb_shows_rows(1) [OF t(1)] acb_shows_rows(2) [OF n(1)]
  have by_name: "row_at t k = (if k < length ids then Inr (at_rows t ! k) else Inl Panic)" for k
    by (simp add: row_at_def lens)
  have by_id: "row_at n k = (if k < length ns then Inr (at_rows n ! k) else Inl Panic)" for k
    by (simp add: row_at_def lens)
  have id_cell: "acb_get_value t (at_rows t ! k) ''CueId'' = Inr (Some (RV_UInt32 (ids ! k)))" if "k < length ids" for k
    using row_id_in_range [OF t(2), of k "''CueId''"] cue_rows [OF t(1) that] that lens
    by (auto simp: row_id_def split: option.splits row_value.splits)
  have name_cell: "\<exists>v. acb_get_value n (at_rows n ! k) ''CueName'' = Inr v \<and> string_value n v = Some (fst (ns ! k))"
    if "k < length ns" for k
    using row_id_in_range [OF n(2), of k "''CueName''"] name_rows(1) [OF n(1) that] that lens
    by (simp add: row_name_def)
  have "get_cue_by_name a m =
      (case from_pairs (map (\<lambda>(n, k). (n, unat k)) ns) m of None \<Rightarrow> Inr None
       | Some k \<Rightarrow> if k < length ids then Inr (Some \<lparr>cue_name = m, cue_id = ids ! k, waveforms = []\<rparr>)
                   else Inl Panic)" for m
    by (auto simp: get_cue_by_name_def a by_name id_cell split: option.split)
  moreover have "get_cue_by_id a i =
      (case from_pairs (zip ids [0..<length ids]) i of None \<Rightarrow> Inr None
       | Some k \<Rightarrow> if k < length ns then Inr (Some \<lparr>cue_name = fst (ns ! k), cue_id = i, waveforms = []\<rparr>)
                   else Inl Panic)" for i
    using name_cell by (fastforce simp: get_cue_by_id_def a by_id split: option.split)
  ultimately show ?thesis using a by blast
qed

end
