(* ===== verification/Intrinsics.thy ===== *)
theory Intrinsics
  imports Rust_Prelude
begin

text \<open>
  \<open>utils/x86_64.rs\<close>: multiplying the bytes of two vector registers with instructions that multiply
  16 bit lanes.  A register is the list of its 16 bit lanes, 16 of them for AVX2 and 8 for SSE2, the
  low lane first; the intrinsics work lane by lane, as the processor manuals say.
  \<open>multiply_bytes_lanes\<close>: the result is the bytewise product, whatever the lanes hold.
\<close>

unbundle bit_operations_syntax

type_synonym lanes = "u16 list"

definition mullo_epi16 :: "lanes \<Rightarrow> lanes \<Rightarrow> lanes" where
  "mullo_epi16 a b = map2 (*) a b"

definition srli_epi16 :: "nat \<Rightarrow> lanes \<Rightarrow> lanes" where
  "srli_epi16 n a = map (drop_bit n) a"

definition slli_epi16 :: "nat \<Rightarrow> lanes \<Rightarrow> lanes" where
  "slli_epi16 n a = map (push_bit n) a"

definition and_lanes :: "lanes \<Rightarrow> lanes \<Rightarrow> lanes" where
  "and_lanes a b = map2 (AND) a b"

definition or_lanes :: "lanes \<Rightarrow> lanes \<Rightarrow> lanes" where
  "or_lanes a b = map2 (OR) a b"

definition set1_epi16 :: "nat \<Rightarrow> u16 \<Rightarrow> lanes" where
  "set1_epi16 n w = replicate n w"

definition multiply_bytes_avx :: "lanes \<Rightarrow> lanes \<Rightarrow> lanes" where
  "multiply_bytes_avx a b =
     (let even = mullo_epi16 a b;
          odd = mullo_epi16 (srli_epi16 8 a) (srli_epi16 8 b)
      in or_lanes (slli_epi16 8 odd) (and_lanes even (set1_epi16 16 0xff)))"

definition multiply_bytes_sse :: "lanes \<Rightarrow> lanes \<Rightarrow> lanes" where
  "multiply_bytes_sse a b =
     (let even = mullo_epi16 a b;
          odd = mullo_epi16 (srli_epi16 8 a) (srli_epi16 8 b)
      in or_lanes (slli_epi16 8 odd) (and_lanes even (set1_epi16 8 0xff)))"

text \<open>The bytes of a register in memory.\<close>

definition lane_bytes :: "u16 \<Rightarrow> bytes" where
  "lane_bytes w = [ucast w, ucast (drop_bit 8 w)]"

definition register_bytes :: "lanes \<Rightarrow> bytes" where
  "register_bytes a = concat (map lane_bytes a)"

definition multiply_lane :: "u16 \<Rightarrow> u16 \<Rightarrow> u16" where
  "multiply_lane a b = push_bit 8 (drop_bit 8 a * drop_bit 8 b) OR (a * b AND 0xff)"

lemma ucast_times: "ucast (a * b :: u16) = (ucast a * ucast b :: u8)"
proof -
  have "uint (ucast (a * b) :: u8) = uint (ucast a * ucast b :: u8)"
    by (simp add: unsigned_ucast_eq uint_word_ariths take_bit_eq_mod mod_mod_cancel mod_mult_eq)
  then show ?thesis by (simp add: word_uint_eq_iff)
qed

lemma multiply_lane_bytes: "lane_bytes (multiply_lane a b) = map2 (*) (lane_bytes a) (lane_bytes b)"
proof -
  have low: "(ucast (push_bit 8 x OR (y AND 0xff)) :: u8) = ucast y" for x y :: u16
  proof (rule bit_word_eqI)
    fix n assume "n < LENGTH(8)"
    then show "bit (ucast (push_bit 8 x OR (y AND 0xff)) :: u8) n \<longleftrightarrow> bit (ucast y :: u8) n"
      using bit_mask_iff [of 8 n, where 'a = u16] by (auto simp: bit_simps mask_eq_exp_minus_1)
  qed
  have high: "(ucast (drop_bit 8 (push_bit 8 x OR (y AND 0xff))) :: u8) = ucast x" for x y :: u16
  proof (rule bit_word_eqI)
    fix n assume "n < LENGTH(8)"
    then show "bit (ucast (drop_bit 8 (push_bit 8 x OR (y AND 0xff))) :: u8) n \<longleftrightarrow> bit (ucast x :: u8) n"
      using bit_mask_iff [of 8 "n + 8", where 'a = u16] by (auto simp: bit_simps mask_eq_exp_minus_1)
  qed
  show ?thesis unfolding lane_bytes_def multiply_lane_def low high ucast_times by simp
qed

lemma lanes_multiplied:
  assumes "length a = n" and "length b = n"
  shows "or_lanes (slli_epi16 8 (mullo_epi16 (srli_epi16 8 a) (srli_epi16 8 b)))
    (and_lanes (mullo_epi16 a b) (set1_epi16 n 0xff)) = map2 multiply_lane a b"
  using assms
  by (intro nth_equalityI) (simp_all add: or_lanes_def and_lanes_def slli_epi16_def srli_epi16_def
      mullo_epi16_def set1_epi16_def multiply_lane_def)

lemma register_bytes_map2:
  "length a = length b \<Longrightarrow> register_bytes (map2 multiply_lane a b) = map2 (*) (register_bytes a) (register_bytes b)"
proof (induction a b rule: list_induct2)
  case (Cons x xs y ys)
  then show ?case
    using multiply_lane_bytes [of x y] by (simp add: register_bytes_def lane_bytes_def)
qed (simp add: register_bytes_def)

lemma multiply_bytes_lanes:
  "length a = 16 \<Longrightarrow> length b = 16 \<Longrightarrow>
     register_bytes (multiply_bytes_avx a b) = map2 (*) (register_bytes a) (register_bytes b)"
  "length a = 8 \<Longrightarrow> length b = 8 \<Longrightarrow>
     register_bytes (multiply_bytes_sse a b) = map2 (*) (register_bytes a) (register_bytes b)"
  by (simp_all add: multiply_bytes_avx_def multiply_bytes_sse_def Let_def lanes_multiplied register_bytes_map2)

end
