(* ===== verification/Unchecked_Reads.thy ===== *)
theory Unchecked_Reads
  imports Layla Table_Rows
begin

text \<open>
  The feature \<open>dangerous\<close>, off by default, replaces \<open>FromSlice::from_slice\<close> by reads through a raw
  pointer (the second variants in \<open>utils/slice.rs\<close>).  An unchecked read returns what the checked one
  returns, and is a fault where that panics (\<open>unchecked_reads\<close>).  The functions that read through
  \<open>from_slice!\<close> are given as that build has them: the result is a fault, or what the function
  returns.  None of them faults, as each read lies inside a slice whose length is known
  (\<open>dangerous_row_value_eq\<close> and the lemmas after it).
\<close>

section \<open>Unchecked reads\<close>

definition unchecked_from_slice_u8 :: "bytes \<Rightarrow> nat \<Rightarrow> u8 memory_result" where
  "unchecked_from_slice_u8 bs offset = fetch offset bs"

definition unchecked_from_slice_u16 :: "(bytes \<Rightarrow> u16) \<Rightarrow> bytes \<Rightarrow> nat \<Rightarrow> u16 memory_result" where
  "unchecked_from_slice_u16 get_u16 bs offset = result_map get_u16 (load 2 offset bs)"

definition unchecked_from_slice_i16 :: "(bytes \<Rightarrow> u16) \<Rightarrow> bytes \<Rightarrow> nat \<Rightarrow> i16 memory_result" where
  "unchecked_from_slice_i16 get_u16 bs offset = result_map (get_i16 get_u16) (load 2 offset bs)"

definition unchecked_from_slice_u32 :: "(bytes \<Rightarrow> u32) \<Rightarrow> bytes \<Rightarrow> nat \<Rightarrow> u32 memory_result" where
  "unchecked_from_slice_u32 get_u32 bs offset = result_map get_u32 (load 4 offset bs)"

definition unchecked_from_slice_i32 :: "(bytes \<Rightarrow> u32) \<Rightarrow> bytes \<Rightarrow> nat \<Rightarrow> i32 memory_result" where
  "unchecked_from_slice_i32 get_u32 bs offset = result_map (get_i32 get_u32) (load 4 offset bs)"

definition unchecked_from_slice_f32 :: "(bytes \<Rightarrow> u32) \<Rightarrow> bytes \<Rightarrow> nat \<Rightarrow> f32 memory_result" where
  "unchecked_from_slice_f32 get_u32 bs offset = result_map (get_f32 get_u32) (load 4 offset bs)"

definition unchecked_from_slice_u64 :: "(bytes \<Rightarrow> u64) \<Rightarrow> bytes \<Rightarrow> nat \<Rightarrow> u64 memory_result" where
  "unchecked_from_slice_u64 get_u64 bs offset = result_map get_u64 (load 8 offset bs)"

definition unchecked_from_slice_i64 :: "(bytes \<Rightarrow> u64) \<Rightarrow> bytes \<Rightarrow> nat \<Rightarrow> i64 memory_result" where
  "unchecked_from_slice_i64 get_u64 bs offset = result_map (get_i64 get_u64) (load 8 offset bs)"

definition unchecked_from_slice_f64 :: "(bytes \<Rightarrow> u64) \<Rightarrow> bytes \<Rightarrow> nat \<Rightarrow> f64 memory_result" where
  "unchecked_from_slice_f64 get_u64 bs offset = result_map (get_f64 get_u64) (load 8 offset bs)"

lemmas unchecked_defs = unchecked_from_slice_u8_def unchecked_from_slice_u16_def unchecked_from_slice_i16_def
  unchecked_from_slice_u32_def unchecked_from_slice_i32_def unchecked_from_slice_f32_def
  unchecked_from_slice_u64_def unchecked_from_slice_i64_def unchecked_from_slice_f64_def

text \<open>A panic of the checked read is a fault of the unchecked one; nothing else changes.\<close>

definition panics_are_faults :: "'a result \<Rightarrow> 'a memory_result" where
  "panics_are_faults r = (case r of Inl _ \<Rightarrow> Inl OutOfBounds | Inr v \<Rightarrow> Inr v)"

lemma load_sub_slice: "result_map f (load n offset bs) = panics_are_faults (result_map f (sub_slice bs offset n))"
  by (simp add: load_def sub_slice_def panics_are_faults_def)

lemma unchecked_reads:
  "unchecked_from_slice_u8 bs offset = panics_are_faults (from_slice_u8 bs offset)"
  "unchecked_from_slice_u16 g2 bs offset = panics_are_faults (from_slice_u16 g2 bs offset)"
  "unchecked_from_slice_i16 g2 bs offset = panics_are_faults (from_slice_i16 g2 bs offset)"
  "unchecked_from_slice_u32 g4 bs offset = panics_are_faults (from_slice_u32 g4 bs offset)"
  "unchecked_from_slice_i32 g4 bs offset = panics_are_faults (from_slice_i32 g4 bs offset)"
  "unchecked_from_slice_f32 g4 bs offset = panics_are_faults (from_slice_f32 g4 bs offset)"
  "unchecked_from_slice_u64 g8 bs offset = panics_are_faults (from_slice_u64 g8 bs offset)"
  "unchecked_from_slice_i64 g8 bs offset = panics_are_faults (from_slice_i64 g8 bs offset)"
  "unchecked_from_slice_f64 g8 bs offset = panics_are_faults (from_slice_f64 g8 bs offset)"
  by (simp_all add: unchecked_defs from_slice_defs load_sub_slice)
    (simp add: fetch_def panics_are_faults_def)

lemma panics_are_faults_Inr [simp]: "panics_are_faults (Inr v) = Inr v"
  by (simp add: panics_are_faults_def)

section \<open>The table header\<close>

text \<open>The macro reads big endian.\<close>

definition header_u16 :: "table_header \<Rightarrow> nat \<Rightarrow> u16 memory_result" where
  "header_u16 h offset = unchecked_from_slice_u16 BigEndian_get_u16 (header_bytes h) offset"

definition header_u32 :: "table_header \<Rightarrow> nat \<Rightarrow> u32 memory_result" where
  "header_u32 h offset = unchecked_from_slice_u32 BigEndian_get_u32 (header_bytes h) offset"

definition dangerous_size :: "table_header \<Rightarrow> u32 memory_result" where
  "dangerous_size h = header_u32 h 0x4"

definition dangerous_encoding :: "table_header \<Rightarrow> string_encoding memory_result" where
  "dangerous_encoding h = result_map string_encoding_from (unchecked_from_slice_u8 (header_bytes h) 0x9)"

definition dangerous_rows_offset :: "table_header \<Rightarrow> u32 memory_result" where
  "dangerous_rows_offset h = result_map (\<lambda>v. ucast v + HEADER_OFFSET) (header_u16 h 0xa)"

definition dangerous_string_pool_offset :: "table_header \<Rightarrow> u32 memory_result" where
  "dangerous_string_pool_offset h = result_map (\<lambda>v. saturating_add v HEADER_OFFSET) (header_u32 h 0xc)"

definition dangerous_data_pool_offset :: "table_header \<Rightarrow> u32 memory_result" where
  "dangerous_data_pool_offset h = result_map (\<lambda>v. saturating_add v HEADER_OFFSET) (header_u32 h 0x10)"

definition dangerous_column_count :: "table_header \<Rightarrow> u16 memory_result" where
  "dangerous_column_count h = header_u16 h 0x18"

definition dangerous_row_size :: "table_header \<Rightarrow> u16 memory_result" where
  "dangerous_row_size h = header_u16 h 0x1a"

definition dangerous_row_count :: "table_header \<Rightarrow> u32 memory_result" where
  "dangerous_row_count h = header_u32 h 0x1c"

lemma header_field_in_range:
  assumes "header_wf h"
  shows "offset + 2 \<le> HEADER_SIZE \<Longrightarrow> header_u16 h offset = Inr (be_u16_at (header_bytes h) offset)"
    and "offset + 4 \<le> HEADER_SIZE \<Longrightarrow> header_u32 h offset = Inr (be_u32_at (header_bytes h) offset)"
  using assms by (simp_all add: header_u16_def header_u32_def unchecked_reads header_wf_def from_slice_be_in_range)

lemma dangerous_header_eq:
  assumes "header_wf h"
  shows "dangerous_size h = Inr (th_size h)" "dangerous_encoding h = Inr (th_encoding h)"
    "dangerous_rows_offset h = Inr (th_rows_offset h)" "dangerous_string_pool_offset h = Inr (th_string_pool_offset h)"
    "dangerous_data_pool_offset h = Inr (th_data_pool_offset h)" "dangerous_column_count h = Inr (th_column_count h)"
    "dangerous_row_size h = Inr (th_row_size h)" "dangerous_row_count h = Inr (th_row_count h)"
proof -
  have "length (header_bytes h) = HEADER_SIZE" using assms by (simp add: header_wf_def)
  then have byte: "unchecked_from_slice_u8 (header_bytes h) 0x9 = Inr (header_bytes h ! 0x9)"
    by (simp add: unchecked_from_slice_u8_def HEADER_SIZE_def)
  show "dangerous_size h = Inr (th_size h)" "dangerous_encoding h = Inr (th_encoding h)"
    "dangerous_rows_offset h = Inr (th_rows_offset h)" "dangerous_string_pool_offset h = Inr (th_string_pool_offset h)"
    "dangerous_data_pool_offset h = Inr (th_data_pool_offset h)" "dangerous_column_count h = Inr (th_column_count h)"
    "dangerous_row_size h = Inr (th_row_size h)" "dangerous_row_count h = Inr (th_row_count h)"
    by (simp_all add: dangerous_size_def dangerous_encoding_def dangerous_rows_offset_def dangerous_string_pool_offset_def
        dangerous_data_pool_offset_def dangerous_column_count_def dangerous_row_size_def dangerous_row_count_def
        header_field_in_range [OF assms] byte HEADER_SIZE_def th_size_def th_encoding_def th_rows_offset_def
        th_string_pool_offset_def th_data_pool_offset_def th_column_count_def th_row_size_def th_row_count_def)
qed

section \<open>Cells and columns\<close>

text \<open>
  \<open>from_slice!(&slice[a..b], ty)\<close>: cutting the slice is still checked, reading the integer is not.
  The outer sum holds the faults, the inner one the results of the source.
\<close>

type_synonym 'a outcome = "'a result memory_result"

definition read_cut :: "(bytes \<Rightarrow> 'a memory_result) \<Rightarrow> bytes \<Rightarrow> nat \<Rightarrow> nat \<Rightarrow> 'a outcome" where
  "read_cut read buf a n =
     (case sub_slice buf a n of Inl e \<Rightarrow> Inr (Inl e) | Inr s \<Rightarrow> result_map Inr (read s))"

definition and_also :: "'a outcome \<Rightarrow> ('a \<Rightarrow> 'b outcome) \<Rightarrow> 'b outcome" where
  "and_also r f = and_then r (\<lambda>x. case x of Inl e \<Rightarrow> Inr (Inl e) | Inr v \<Rightarrow> f v)"

definition cut_u16 :: "bytes \<Rightarrow> nat \<Rightarrow> u16 outcome" where
  "cut_u16 buf a = read_cut (\<lambda>s. unchecked_from_slice_u16 BigEndian_get_u16 s 0) buf a 2"

definition cut_i16 :: "bytes \<Rightarrow> nat \<Rightarrow> i16 outcome" where
  "cut_i16 buf a = read_cut (\<lambda>s. unchecked_from_slice_i16 BigEndian_get_u16 s 0) buf a 2"

definition cut_u32 :: "bytes \<Rightarrow> nat \<Rightarrow> u32 outcome" where
  "cut_u32 buf a = read_cut (\<lambda>s. unchecked_from_slice_u32 BigEndian_get_u32 s 0) buf a 4"

definition cut_i32 :: "bytes \<Rightarrow> nat \<Rightarrow> i32 outcome" where
  "cut_i32 buf a = read_cut (\<lambda>s. unchecked_from_slice_i32 BigEndian_get_u32 s 0) buf a 4"

definition cut_f32 :: "bytes \<Rightarrow> nat \<Rightarrow> f32 outcome" where
  "cut_f32 buf a = read_cut (\<lambda>s. unchecked_from_slice_f32 BigEndian_get_u32 s 0) buf a 4"

definition cut_u64 :: "bytes \<Rightarrow> nat \<Rightarrow> u64 outcome" where
  "cut_u64 buf a = read_cut (\<lambda>s. unchecked_from_slice_u64 BigEndian_get_u64 s 0) buf a 8"

definition cut_i64 :: "bytes \<Rightarrow> nat \<Rightarrow> i64 outcome" where
  "cut_i64 buf a = read_cut (\<lambda>s. unchecked_from_slice_i64 BigEndian_get_u64 s 0) buf a 8"

definition cut_f64 :: "bytes \<Rightarrow> nat \<Rightarrow> f64 outcome" where
  "cut_f64 buf a = read_cut (\<lambda>s. unchecked_from_slice_f64 BigEndian_get_u64 s 0) buf a 8"

fun dangerous_row_value :: "column_type \<Rightarrow> bytes \<Rightarrow> row_value outcome" where
  "dangerous_row_value T_Byte buf = Inr (result_map RV_Byte (field_u8 buf 0))"
| "dangerous_row_value T_SByte buf = Inr (result_map RV_SByte (field_u8 buf 0))"
| "dangerous_row_value T_UInt16 buf = and_also (cut_u16 buf 0) (\<lambda>v. Inr (Inr (RV_UInt16 v)))"
| "dangerous_row_value T_Int16 buf = and_also (cut_i16 buf 0) (\<lambda>v. Inr (Inr (RV_Int16 v)))"
| "dangerous_row_value T_UInt32 buf = and_also (cut_u32 buf 0) (\<lambda>v. Inr (Inr (RV_UInt32 v)))"
| "dangerous_row_value T_Int32 buf = and_also (cut_i32 buf 0) (\<lambda>v. Inr (Inr (RV_Int32 v)))"
| "dangerous_row_value T_Single buf = and_also (cut_f32 buf 0) (\<lambda>v. Inr (Inr (RV_Single v)))"
| "dangerous_row_value T_String buf = and_also (cut_u32 buf 0) (\<lambda>v. Inr (Inr (RV_String v)))"
| "dangerous_row_value T_UInt64 buf = and_also (cut_u64 buf 0) (\<lambda>v. Inr (Inr (RV_UInt64 v)))"
| "dangerous_row_value T_Int64 buf = and_also (cut_i64 buf 0) (\<lambda>v. Inr (Inr (RV_Int64 v)))"
| "dangerous_row_value T_Double buf = and_also (cut_f64 buf 0) (\<lambda>v. Inr (Inr (RV_Double v)))"
| "dangerous_row_value T_Data buf =
     and_also (cut_u32 buf 0) (\<lambda>offset. and_also (cut_u32 buf 4) (\<lambda>len.
       Inr (Inr (RV_Data \<lparr>dv_offset = offset, dv_length = len\<rparr>))))"
| "dangerous_row_value T_Guid buf =
     and_also (cut_u32 buf 0) (\<lambda>a. and_also (cut_u32 buf 4) (\<lambda>b.
     and_also (cut_u32 buf 8) (\<lambda>c. and_also (cut_u32 buf 12) (\<lambda>d.
       Inr (Inr (RV_Guid a b c d))))))"
| "dangerous_row_value T_Invalid buf = Inr (Inr RV_None)"

definition dangerous_column_name :: "u8 \<Rightarrow> stream \<Rightarrow> (u32 \<times> stream) outcome" where
  "dangerous_column_name flag handle =
     (if flags_contain (get_flags flag) NAME
      then and_also (Inr (read_exact 4 handle)) (\<lambda>(name_bytes, handle).
             result_map (\<lambda>n. Inr (n, handle)) (unchecked_from_slice_u32 BigEndian_get_u32 name_bytes 0))
      else Inr (Inr (- 1, handle)))"

lemma and_also_Inr [simp]:
  "and_also (Inr (Inl e)) f = Inr (Inl e)" "and_also (Inr (Inr v)) f = f v"
  by (simp_all add: and_also_def)

text \<open>A cut slice has the length of the integer that is read from it.\<close>

lemma read_cut_eq:
  assumes "\<And>s. length s = n \<Longrightarrow> read s = panics_are_faults (checked s)" and "\<And>s. length s = n \<Longrightarrow> \<exists>v. checked s = Inr v"
  shows "read_cut read buf a n = Inr (and_then (sub_slice buf a n) checked)"
proof (cases "sub_slice buf a n")
  case (Inr s)
  then have "length s = n" by (auto simp: sub_slice_def split: if_splits)
  with assms [of s] Inr show ?thesis by (auto simp: read_cut_def)
qed (simp add: read_cut_def)

lemma get_signed_same: "get_i16 g2 = g2" "get_i32 g4 = g4" "get_f32 g4 = g4" "get_i64 g8 = g8" "get_f64 g8 = g8"
  by (simp_all add: get_signed_defs fun_eq_iff)

lemma cut_fields:
  "cut_u16 buf a = Inr (field_u16 buf a)" "cut_i16 buf a = Inr (field_u16 buf a)"
  "cut_u32 buf a = Inr (field_u32 buf a)" "cut_i32 buf a = Inr (field_u32 buf a)" "cut_f32 buf a = Inr (field_u32 buf a)"
  "cut_u64 buf a = Inr (field_u64 buf a)" "cut_i64 buf a = Inr (field_u64 buf a)" "cut_f64 buf a = Inr (field_u64 buf a)"
  unfolding cut_u16_def cut_i16_def cut_u32_def cut_i32_def cut_f32_def cut_u64_def cut_i64_def cut_f64_def
    field_u16_def field_u32_def field_u64_def
  by (rule read_cut_eq, simp add: unchecked_reads from_slice_defs get_signed_same,
      simp add: from_slice_defs sub_slice_def)+

section \<open>The dangerous build\<close>

lemma result_map_then: "result_map f r = and_then r (\<lambda>v. Inr (f v))"
  by (cases r) simp_all

lemma and_also_then: "and_also (Inr r) (\<lambda>v. Inr (f v)) = Inr (and_then r f)"
  by (cases r) simp_all

lemma dangerous_row_value_eq: "dangerous_row_value ty buf = Inr (parse_row_value ty buf)"
  by (cases ty) (simp_all add: cut_fields and_also_then result_map_then)

lemma dangerous_column_name_eq: "dangerous_column_name flag handle = Inr (read_column_name flag handle)"
proof (cases "read_exact 4 handle")
  case (Inr r)
  then obtain name_bytes handle' where r: "r = (name_bytes, handle')" "length name_bytes = 4"
    by (cases r) (auto dest: read_exact_length)
  then show ?thesis
    using Inr by (simp add: dangerous_column_name_def read_column_name_def unchecked_reads from_slice_defs sub_slice_def)
qed (simp add: dangerous_column_name_def read_column_name_def)

text \<open>\<open>&&\<close> reads the magic number only when the header is there.\<close>

definition dangerous_is_compressed :: "bytes \<Rightarrow> bool memory_result" where
  "dangerous_is_compressed input =
     (if length input \<ge> LAYLA_HEADER_SIZE
      then result_map (\<lambda>m. m = LAYLA_HEADER_MAGIC) (unchecked_from_slice_u64 LittleEndian_get_u64 input 0)
      else Inr False)"

lemma dangerous_is_compressed_eq: "dangerous_is_compressed input = Inr (is_compressed input)"
  by (simp add: dangerous_is_compressed_def is_compressed_def unchecked_reads from_slice_defs sub_slice_def
      LAYLA_HEADER_SIZE_def LittleEndian_get_u64_def)

end
