(* ===== verification/System_Heap.thy ===== *)
theory System_Heap
  imports Free_List "HOL-Library.Multiset"
begin

text \<open>
  What \<open>cpk/free_list.rs\<close> asks of the global allocator (\<open>std::alloc\<close>): the slab itself, the nodes that
  found no place in it, and the releases of both.  The state is the multiset of the blocks the
  program holds, each with the layout it was requested with; releasing a block that is not held, or
  with another layout, is the fault \<open>InvalidFree\<close>.  The invariant of a list with its live nodes
  (\<open>heap_inv\<close>) says that the program holds exactly the slab and the nodes outside it;
  \<open>drops_return_everything\<close> concludes that no release is ever invalid and none is forgotten.
\<close>

section \<open>Blocks of the system\<close>

type_synonym layout = "nat \<times> nat"
type_synonym heap_blocks = "(nat \<times> layout) multiset"

definition SLAB_ALIGNMENT :: nat where "SLAB_ALIGNMENT = 0x1000"

definition get_layout_temp :: layout where
  "get_layout_temp = (SLAB_SIZE, SLAB_ALIGNMENT)"

definition get_layout_static :: "nat \<Rightarrow> layout" where
  "get_layout_static n = (n, 8)"

definition get_layout :: "free_list_node \<Rightarrow> layout" where
  "get_layout p = get_layout_static (node_size p)"

definition sys_alloc :: "nat \<Rightarrow> layout \<Rightarrow> heap_blocks \<Rightarrow> heap_blocks" where
  "sys_alloc a l blocks = add_mset (a, l) blocks"

definition sys_dealloc :: "nat \<Rightarrow> layout \<Rightarrow> heap_blocks \<Rightarrow> heap_blocks memory_result" where
  "sys_dealloc a l blocks = (if (a, l) \<in># blocks then Inr (blocks - {#(a, l)#}) else Inl InvalidFree)"

text \<open>The documented contract of an allocation: the new block is apart from those the program holds.\<close>

definition sys_fresh :: "nat \<Rightarrow> layout \<Rightarrow> heap_blocks \<Rightarrow> bool" where
  "sys_fresh a l blocks \<longleftrightarrow> (\<forall>(b, m) \<in># blocks. {a ..< a + fst l} \<inter> {b ..< b + fst m} = {})"

lemma sys_dealloc_allocated [simp]: "sys_dealloc a l (sys_alloc a l blocks) = Inr blocks"
  by (simp add: sys_dealloc_def sys_alloc_def)

section \<open>The list and its nodes\<close>

definition new_list :: "nat \<Rightarrow> heap_blocks \<Rightarrow> free_list \<times> heap_blocks" where
  "new_list slab_address blocks = (free_list_new slab_address, sys_alloc slab_address get_layout_temp blocks)"

definition drop_list :: "free_list \<Rightarrow> heap_blocks \<Rightarrow> heap_blocks memory_result" where
  "drop_list fl blocks = (if slab fl \<noteq> 0 then sys_dealloc (slab fl) get_layout_temp blocks else Inr blocks)"

definition allocate_in :: "nat \<Rightarrow> free_list \<Rightarrow> nat \<Rightarrow> heap_blocks \<Rightarrow> (free_list_node \<times> free_list \<times> heap_blocks) memory_result" where
  "allocate_in heap fl n blocks =
     and_then (allocate heap fl n) (\<lambda>(p, fl).
       Inr (p, fl, if managed p then blocks else sys_alloc (node_ptr p) (get_layout_static n) blocks))"

definition drop_in :: "free_list \<Rightarrow> free_list_node \<Rightarrow> heap_blocks \<Rightarrow> (free_list \<times> heap_blocks) memory_result" where
  "drop_in fl p blocks =
     (if managed p then and_then (deallocate fl p) (\<lambda>fl. Inr (fl, blocks))
      else and_then (sys_dealloc (node_ptr p) (get_layout p) blocks) (\<lambda>blocks. Inr (fl, blocks)))"

text \<open>Turning a node into a \<open>Vec\<close> copies its bytes and drops it.\<close>

definition node_to_vec ::
  "(nat \<Rightarrow> u8) \<Rightarrow> free_list \<Rightarrow> free_list_node \<Rightarrow> heap_blocks \<Rightarrow> (bytes \<times> free_list \<times> heap_blocks) memory_result" where
  "node_to_vec memory fl p blocks =
     and_then (drop_in fl p blocks) (\<lambda>(fl, blocks). Inr (node_slice memory p, fl, blocks))"

fun drop_nodes :: "free_list \<Rightarrow> free_list_node list \<Rightarrow> heap_blocks \<Rightarrow> (free_list \<times> heap_blocks) memory_result" where
  "drop_nodes fl [] blocks = Inr (fl, blocks)"
| "drop_nodes fl (p # ps) blocks = and_then (drop_in fl p blocks) (\<lambda>(fl, blocks). drop_nodes fl ps blocks)"

section \<open>Live nodes and the blocks they are in\<close>

inductive heap_step ::
  "nat \<Rightarrow> free_list \<times> free_list_node list \<times> heap_blocks \<Rightarrow> free_list \<times> free_list_node list \<times> heap_blocks \<Rightarrow> bool"
  for limit where
  heap_allocate: "allocate_in heap fl n blocks = Inr (p, fl', blocks') \<Longrightarrow> block_size n \<le> limit \<Longrightarrow>
    sys_fresh heap (get_layout_static n) blocks \<Longrightarrow> heap_step limit (fl, ps, blocks) (fl', p # ps, blocks')"
| heap_drop: "drop_in fl p blocks = Inr (fl', blocks') \<Longrightarrow>
    heap_step limit (fl, ps @ p # qs, blocks) (fl', ps @ qs, blocks')"

inductive heap_reachable ::
  "nat \<Rightarrow> nat \<Rightarrow> heap_blocks \<Rightarrow> free_list \<times> free_list_node list \<times> heap_blocks \<Rightarrow> bool" for limit base blocks0 where
  heap_new: "sys_fresh base get_layout_temp blocks0 \<Longrightarrow> new_list base blocks0 = (fl, blocks) \<Longrightarrow>
    heap_reachable limit base blocks0 (fl, [], blocks)"
| heap_more: "heap_reachable limit base blocks0 s \<Longrightarrow> heap_step limit s s' \<Longrightarrow> heap_reachable limit base blocks0 s'"

inductive_cases heap_stepE: "heap_step limit s s'"

text \<open>Forgetting the blocks gives the steps of the list itself.\<close>

lemma allocate_in_Inr [result_iff]:
  "allocate_in heap fl n blocks = Inr (p, fl', blocks') \<longleftrightarrow> allocate heap fl n = Inr (p, fl') \<and>
     blocks' = (if managed p then blocks else sys_alloc (node_ptr p) (get_layout_static n) blocks)"
  by (auto simp: allocate_in_def result_iff)

lemma drop_in_Inr [result_iff]:
  "drop_in fl p blocks = Inr (fl', blocks') \<longleftrightarrow> drop_node fl p = Inr fl' \<and>
     (if managed p then blocks' = blocks
      else (node_ptr p, get_layout p) \<in># blocks \<and> blocks' = blocks - {#(node_ptr p, get_layout p)#})"
  by (auto simp: drop_in_def drop_node_def sys_dealloc_def result_iff)

lemma heap_step_simulates: "heap_step limit (fl, ps, blocks) (fl', ps', blocks') \<Longrightarrow> alloc_step limit (fl, ps) (fl', ps')"
  by (auto simp: result_iff elim!: heap_stepE intro: alloc_step.intros)

definition outside_blocks :: "free_list_node list \<Rightarrow> heap_blocks" where
  "outside_blocks ps = mset (map (\<lambda>p. (node_ptr p, get_layout p)) (filter (\<lambda>p. \<not> managed p) ps))"

lemma outside_blocks_simps [simp]:
  "outside_blocks [] = {#}"
  "outside_blocks (p # ps) = (if managed p then outside_blocks ps else add_mset (node_ptr p, get_layout p) (outside_blocks ps))"
  "outside_blocks (ps @ qs) = outside_blocks ps + outside_blocks qs"
  by (simp_all add: outside_blocks_def)

lemma outside_blocks_mset: "mset ps = mset qs \<Longrightarrow> outside_blocks ps = outside_blocks qs"
  by (simp add: outside_blocks_def)

definition apart :: "free_list_node \<Rightarrow> free_list_node \<Rightarrow> bool" where
  "apart p q \<longleftrightarrow> node_bytes p \<inter> node_bytes q = {}"

definition heap_inv :: "nat \<Rightarrow> heap_blocks \<Rightarrow> free_list \<times> free_list_node list \<times> heap_blocks \<Rightarrow> bool" where
  "heap_inv base blocks0 s \<longleftrightarrow>
     (case s of (fl, ps, blocks) \<Rightarrow>
        alloc_inv base (fl, ps) \<and> blocks = sys_alloc base get_layout_temp blocks0 + outside_blocks ps \<and>
        (\<forall>p \<in> set ps. \<not> managed p \<longrightarrow> node_bytes p \<inter> {base ..< base + SLAB_SIZE} = {}) \<and> sorted_wrt apart ps)"


lemma heap_inv_new: "heap_inv base blocks0 (free_list_new base, [], sys_alloc base get_layout_temp blocks0)"
  using alloc_inv_new by (simp add: heap_inv_def)

text \<open>A new node is apart from the live ones: by the bitmap, by the slab, or by the system's contract.\<close>

lemma managed_apart:
  assumes new: "alloc_inv base (fl, p # ps)" and p: "managed p" and q: "q \<in> set ps"
    and out: "\<not> managed q \<Longrightarrow> node_bytes q \<inter> {base ..< base + SLAB_SIZE} = {}"
  shows "apart p q"
proof (cases "managed q")
  case True
  from q obtain j where "j < length ps" "q = ps ! j" by (auto simp: in_set_conv_nth)
  with inv_disjoint [OF new, of 0 "Suc j"] p True show ?thesis by (simp add: apart_def)
next
  case False
  with inv_in_slab [OF new, of p] p out show ?thesis by (fastforce simp: apart_def)
qed

lemma fresh_apart:
  assumes fresh: "sys_fresh (node_ptr p) (get_layout p) (sys_alloc base get_layout_temp blocks0 + outside_blocks ps)"
    and old: "alloc_inv base (fl, ps)"
  shows "node_bytes p \<inter> {base ..< base + SLAB_SIZE} = {}" and "q \<in> set ps \<Longrightarrow> apart p q"
proof -
  have clear: "node_bytes p \<inter> {b ..< b + fst l} = {}"
    if "(b, l) \<in># sys_alloc base get_layout_temp blocks0 + outside_blocks ps" for b l
    using bspec [OF fresh [unfolded sys_fresh_def] that]
    by (simp add: node_bytes_def get_layout_def get_layout_static_def)
  then show slab: "node_bytes p \<inter> {base ..< base + SLAB_SIZE} = {}"
    using clear [of base get_layout_temp] by (simp add: sys_alloc_def get_layout_temp_def)
  show "apart p q" if q: "q \<in> set ps"
  proof (cases "managed q")
    case True
    with inv_in_slab [OF old q] slab show ?thesis by (fastforce simp: apart_def)
  next
    case False
    with q have "(node_ptr q, get_layout q) \<in># outside_blocks ps" by (simp add: outside_blocks_def)
    with clear [of "node_ptr q" "get_layout q"] show ?thesis
      by (simp add: apart_def node_bytes_def get_layout_def get_layout_static_def)
  qed
qed

lemma heap_inv_allocate:
  assumes inv: "heap_inv base blocks0 (fl, ps, blocks)" and small: "block_size n \<le> 64"
    and fresh: "sys_fresh heap (get_layout_static n) blocks" and step: "allocate_in heap fl n blocks = Inr (p, fl', blocks')"
  shows "heap_inv base blocks0 (fl', p # ps, blocks')"
proof -
  from step have all: "allocate heap fl n = Inr (p, fl')"
    and blocks': "blocks' = (if managed p then blocks else sys_alloc (node_ptr p) (get_layout_static n) blocks)"
    by (simp_all add: allocate_in_Inr)
  have old: "alloc_inv base (fl, ps)" and blocks: "blocks = sys_alloc base get_layout_temp blocks0 + outside_blocks ps"
    and out: "\<And>q. q \<in> set ps \<Longrightarrow> \<not> managed q \<Longrightarrow> node_bytes q \<inter> {base ..< base + SLAB_SIZE} = {}"
    and apart: "sorted_wrt apart ps" using inv by (auto simp: heap_inv_def)
  have new: "alloc_inv base (fl', p # ps)" by (rule alloc_inv_allocate [OF old small all])
  show ?thesis
  proof (cases "managed p")
    case True
    with managed_apart [OF new] new blocks out apart show ?thesis by (auto simp: heap_inv_def blocks')
  next
    case False
    have "free_list_wf fl" using old by (simp add: alloc_inv_def)
    then have p: "node_ptr p = heap \<and> get_layout p = get_layout_static n"
      by (cases rule: allocate_cases [of fl heap n]) (use all False in \<open>auto simp: get_layout_def\<close>)
    with fresh blocks have "sys_fresh (node_ptr p) (get_layout p) (sys_alloc base get_layout_temp blocks0 + outside_blocks ps)"
      by simp
    from fresh_apart [OF this old] False new blocks out apart p show ?thesis
      by (auto simp: heap_inv_def blocks' sys_alloc_def)
  qed
qed

lemma heap_inv_drop:
  assumes inv: "heap_inv base blocks0 (fl, ps @ p # qs, blocks)" and drop: "drop_in fl p blocks = Inr (fl', blocks')"
  shows "heap_inv base blocks0 (fl', ps @ qs, blocks')"
proof -
  from drop have node: "drop_node fl p = Inr fl'"
    and blocks': "blocks' = (if managed p then blocks else blocks - {#(node_ptr p, get_layout p)#})"
    by (simp_all add: drop_in_Inr split: if_splits)
  from inv have "alloc_inv base (fl, ps @ p # qs)" by (simp add: heap_inv_def)
  from alloc_inv_drop [OF this node] inv show ?thesis
    by (auto simp: heap_inv_def blocks' sorted_wrt_append)
qed

lemma heap_reachable_inv:
  assumes "heap_reachable limit base blocks0 s" and "limit \<le> 64"
  shows "heap_inv base blocks0 s"
  using assms(1)
proof (induction rule: heap_reachable.induct)
  case (heap_new fl blocks)
  then show ?case using heap_inv_new by (auto simp: new_list_def)
next
  case (heap_more s s')
  from heap_more.hyps(2) heap_more.IH assms(2) show ?case
    by (elim heap_stepE) (auto intro: heap_inv_allocate [OF _ order_trans] heap_inv_drop)
qed

section \<open>Giving everything back\<close>

text \<open>Dropping live nodes, in whatever order, is always a release of a held block.\<close>

definition returnable :: "nat \<Rightarrow> heap_blocks \<Rightarrow> free_list \<Rightarrow> free_list_node list \<Rightarrow> heap_blocks \<Rightarrow> bool" where
  "returnable base held fl ps blocks \<longleftrightarrow> alloc_inv base (fl, ps) \<and> blocks = held + outside_blocks ps"

lemma alloc_inv_order: "mset ps = mset qs \<Longrightarrow> alloc_inv base (fl, ps) \<longleftrightarrow> alloc_inv base (fl, qs)"
proof -
  assume m: "mset ps = mset qs"
  have "owners base k ps = owners base k qs" for k
    unfolding owners_def using m by (metis mset_filter size_mset)
  with mset_eq_setD [OF m] show ?thesis by (simp add: alloc_inv_def)
qed

lemma drop_nodes_returns:
  "returnable base held fl ps blocks \<Longrightarrow> \<exists>fl'. drop_nodes fl ps blocks = Inr (fl', held) \<and> alloc_inv base (fl', [])"
proof (induction ps arbitrary: fl blocks)
  case (Cons p ps)
  then have inv: "alloc_inv base (fl, p # ps)" and blocks: "blocks = held + outside_blocks (p # ps)"
    by (simp_all add: returnable_def)
  from inv have "free_list_wf fl" "node_wf (slab fl) p" by (simp_all add: alloc_inv_def)
  then obtain fl' where drop: "drop_node fl p = Inr fl'" by (rule drop_node_cases)
  have "drop_in fl p blocks = Inr (fl', held + outside_blocks ps)"
    using drop blocks by (simp add: drop_in_Inr)
  moreover have "returnable base held fl' ps (held + outside_blocks ps)"
    using alloc_inv_drop [of base fl "[]" p ps fl'] inv drop by (simp add: returnable_def)
  ultimately show ?case using Cons.IH by simp
qed (simp add: returnable_def)

lemma empty_list_new: "alloc_inv base (fl, []) \<Longrightarrow> fl = free_list_new base"
proof -
  assume inv: "alloc_inv base (fl, [])"
  then have L: "length (used fl) = 32" by (simp add: alloc_inv_def free_list_wf_def)
  have "used fl = replicate 32 0"
    by (rule same_bitmap) (use inv L in \<open>auto simp: alloc_inv_def block_used_def\<close>)
  with inv show ?thesis by (cases fl) (simp add: alloc_inv_def free_list_wf_def free_list_new_def)
qed

lemma drops_return_everything:
  assumes "heap_reachable limit base blocks0 (fl, ps, blocks)" and "limit \<le> 64" and "mset qs = mset ps"
  shows "drop_nodes fl qs blocks = Inr (free_list_new base, sys_alloc base get_layout_temp blocks0)"
    and "base \<noteq> 0 \<Longrightarrow> drop_list (free_list_new base) (sys_alloc base get_layout_temp blocks0) = Inr blocks0"
    and "sorted_wrt apart ps"
proof -
  from heap_reachable_inv [OF assms(1,2)] have inv: "alloc_inv base (fl, ps)"
    "blocks = sys_alloc base get_layout_temp blocks0 + outside_blocks ps" and "sorted_wrt apart ps"
    by (simp_all add: heap_inv_def)
  then show "sorted_wrt apart ps" by simp
  have "returnable base (sys_alloc base get_layout_temp blocks0) fl qs blocks"
    using inv alloc_inv_order [OF assms(3)] outside_blocks_mset [OF assms(3)] by (simp add: returnable_def)
  from drop_nodes_returns [OF this] empty_list_new
  show "drop_nodes fl qs blocks = Inr (free_list_new base, sys_alloc base get_layout_temp blocks0)" by blast
  show "drop_list (free_list_new base) (sys_alloc base get_layout_temp blocks0) = Inr blocks0" if "base \<noteq> 0"
    using that by (simp add: drop_list_def free_list_new_def)
qed

section \<open>A slab that fills up\<close>

text \<open>Of four requests of 64 blocks the fourth finds no place: only 255 of the 256 blocks are used.\<close>

definition slab_filled :: "nat \<Rightarrow> nat \<Rightarrow> free_list \<Rightarrow> bool" where
  "slab_filled base m fl \<longleftrightarrow> free_list_wf fl \<and> slab fl = base \<and> (\<forall>k < 256. block_used (used fl) k \<longleftrightarrow> k < 64 * m)"

lemma filled_start:
  assumes "slab_filled base m fl" and "m \<le> 3"
  shows "find_start (used fl) 64 0 = Inr (64 * m)"
proof -
  have L: "length (used fl) = 32" and u: "\<And>k. k < 256 \<Longrightarrow> block_used (used fl) k \<longleftrightarrow> k < 64 * m"
    using assms by (simp_all add: slab_filled_def free_list_wf_def)
  have steps: "j \<le> m \<Longrightarrow> find_start (used fl) 64 0 = find_start (used fl) 64 (64 * j)" for j
  proof (induction j)
    case (Suc j)
    have "find_start (used fl) 64 (64 * j) = find_start (used fl) 64 (64 * j + 64)"
      using Suc.prems assms(2) L u [of "64 * j"] by (intro find_start_skip) (auto simp: bits_clear_def)
    with Suc show ?case by (simp add: add.commute)
  qed simp
  have "find_start (used fl) 64 (64 * m) = Inr (64 * m)"
  proof (cases "m = 3")
    case True
    then show ?thesis by (subst find_start.simps) (simp add: check_occupation_def bit_bounds_check_def)
  next
    case False
    with assms(2) L u show ?thesis by (intro find_start_here) (auto simp: bits_clear_def)
  qed
  with steps [of m] show ?thesis by simp
qed

lemma filled_next:
  assumes fl: "slab_filled base m fl" and "m < 3"
  shows "\<exists>fl'. allocate heap fl 16777216 =
      Inr (\<lparr>node_ptr = base + 64 * m * 2 ^ BLOCK_SHIFT, node_size = 16777216, managed = True\<rparr>, fl') \<and>
    slab_filled base (m + 1) fl'"
proof -
  have sz: "block_size 16777216 = 64" by (simp add: block_size_def BLOCK_SHIFT_def)
  have wf: "free_list_wf fl" and start: "find_start (used fl) (block_size 16777216) 0 = Inr (64 * m)"
    using fl filled_start [OF fl] assms(2) by (simp_all add: slab_filled_def sz)
  from allocate_at [OF wf start, of heap] assms(2) obtain bs where
    "allocate heap fl 16777216 =
      Inr (\<lparr>node_ptr = base + 64 * m * 2 ^ BLOCK_SHIFT, node_size = 16777216, managed = True\<rparr>, fl\<lparr>used := bs\<rparr>)"
    "bits_set True (64 * m) (64 * m + 64) (used fl) bs" "free_list_wf (fl\<lparr>used := bs\<rparr>)"
    using fl by (auto simp: sz slab_filled_def)
  with fl show ?thesis by (auto simp: slab_filled_def bits_set_def free_list_wf_def)
qed

lemma filled_full:
  assumes "slab_filled base 3 fl"
  shows "allocate heap fl 16777216 = Inr (\<lparr>node_ptr = heap, node_size = 16777216, managed = False\<rparr>, fl)"
proof -
  have "Basic_get_free_block_index (fl\<lparr>lock := True\<rparr>) 64 = Inr USIZE_MAX"
    using filled_start [OF assms] by (simp add: Basic_get_free_block_index_def)
  moreover have "\<not> lock fl" using assms by (simp add: slab_filled_def free_list_wf_def)
  moreover have "block_size 16777216 = 64" by (simp add: block_size_def BLOCK_SHIFT_def)
  ultimately show ?thesis by (simp add: allocate_def Let_def acquire_def unacquire_def)
qed

lemma slab_fills:
  "\<exists>fl p ps blocks. heap_reachable 64 base {#} (fl, p # ps, blocks) \<and> length ps = 3 \<and> \<not> managed p \<and> size blocks = 2"
proof -
  have sz: "block_size 16777216 \<le> 64" by (simp add: block_size_def BLOCK_SHIFT_def)
  let ?slab = "sys_alloc base get_layout_temp {#}"
  have grow: "\<exists>fl' p. heap_reachable 64 base {#} (fl', p # ps, ?slab) \<and> slab_filled base (m + 1) fl'"
    if "heap_reachable 64 base {#} (fl, ps, ?slab)" "slab_filled base m fl" "m < 3" for fl ps m
  proof -
    let ?p = "\<lparr>node_ptr = base + 64 * m * 2 ^ BLOCK_SHIFT, node_size = 16777216, managed = True\<rparr>"
    from filled_next [OF that(2,3), of "base + SLAB_SIZE"] obtain fl' where
      all: "allocate (base + SLAB_SIZE) fl 16777216 = Inr (?p, fl')" and fl': "slab_filled base (m + 1) fl'" by blast
    from all have "allocate_in (base + SLAB_SIZE) fl 16777216 ?slab = Inr (?p, fl', ?slab)" by (simp add: allocate_in_Inr)
    from heap_more [OF that(1) heap_allocate [OF this sz]] fl' show ?thesis
      by (auto simp: sys_fresh_def sys_alloc_def get_layout_temp_def)
  qed
  have "slab_filled base 0 (free_list_new base)"
    by (simp add: slab_filled_def free_list_wf_def free_list_new_def block_used_def)
  moreover have "heap_reachable 64 base {#} (free_list_new base, [], ?slab)"
    by (rule heap_new) (simp_all add: new_list_def sys_fresh_def)
  ultimately obtain fl ps where r: "heap_reachable 64 base {#} (fl, ps, ?slab)" "length ps = 3" "slab_filled base 3 fl"
    using grow [of "free_list_new base" "[]" 0] grow [of _ _ 1] grow [of _ _ 2] by (fastforce simp: numeral_eq_Suc)
  let ?heap = "base + SLAB_SIZE"
  let ?p = "\<lparr>node_ptr = ?heap, node_size = 16777216, managed = False\<rparr>"
  have "allocate_in ?heap fl 16777216 ?slab = Inr (?p, fl, sys_alloc ?heap (get_layout_static 16777216) ?slab)"
    using filled_full [OF r(3)] by (simp add: allocate_in_Inr)
  from heap_more [OF r(1) heap_allocate [OF this sz]] r(2) show ?thesis
    by (auto simp: sys_fresh_def sys_alloc_def get_layout_temp_def intro!: exI)
qed

end
