(* ===== verification/Unit_Tests.thy ===== *)
theory Unit_Tests
  imports System_Heap Layla_Bits Endianness
begin

text \<open>
  The unit tests of \<open>cpk/free_list.rs\<close> and \<open>cpk/compress/layla.rs\<close> that need no files, run on the
  model: the same calls on the same data give the values the assertions of the source expect.
\<close>

section \<open>The bit cursor\<close>

fun read_times :: "nat \<Rightarrow> (layla_cursor \<Rightarrow> ('a \<times> layla_cursor) memory_result) \<Rightarrow> layla_cursor \<Rightarrow> 'a list memory_result" where
  "read_times 0 rd c = Inr []"
| "read_times (Suc n) rd c = and_then (rd c) (\<lambda>(v, c). and_then (read_times n rd c) (\<lambda>vs. Inr (v # vs)))"

definition test_stream_13 :: bytes where
  "test_stream_13 =
     [0xcb, 0xa6, 0x69, 0x75, 0x4e, 0x32, 0xb1, 0xfb, 0x3b, 0x53, 0x7d, 0x38, 0x02, 0x7d, 0xd7, 0xe4, 0xed, 0xf0,
      0xa5, 0x2f, 0x57, 0x6d, 0x3b, 0x2c, 0x0c, 0x77, 0x02, 0x9e, 0x45, 0x3d, 0x30, 0x35, 0x6e, 0xed, 0xa7, 0x8d,
      0x5c, 0x91, 0x0c, 0xc9, 0x90, 0x59, 0x4d, 0x76, 0xe6, 0xe1, 0x68, 0x00, 0x03, 0x69, 0xd7, 0x3b, 0x41, 0xe4,
      0x11, 0xd4, 0x7f, 0x60, 0x70]"

lemma cursor_read_stream_1bit:
  "read_times 8 (read_1 [0xAA]) \<lparr>cdata = 1, bits_left = 0\<rparr> =
     Inr [True, False, True, False, True, False, True, False]"
  by code_simp

lemma cursor_read_stream_2bit:
  "read_times 8 (read_2 [0x93, 0x93]) \<lparr>cdata = 2, bits_left = 0\<rparr> = Inr [2, 1, 0, 3, 2, 1, 0, 3]"
  "read_times 7 (read_2 [0x93, 0x93]) \<lparr>cdata = 1, bits_left = 7\<rparr> = Inr [0, 2, 1, 3, 0, 2, 1]"
  by code_simp+

lemma cursor_read_stream_8bit:
  "read_times 8 (read_8 (replicate 8 0xca)) \<lparr>cdata = 8, bits_left = 0\<rparr> = Inr (replicate 8 0xca)"
  "read_times 7 (read_8 (replicate 8 0xca)) \<lparr>cdata = 7, bits_left = 3\<rparr> = Inr (replicate 7 0x59)"
  by code_simp+

lemma cursor_read_stream_13bit:
  "read_times 36 (read_13 test_stream_13) \<lparr>cdata = length test_stream_13, bits_left = 0\<rparr> =
     Inr [3596, 511, 2568, 7748, 631, 5594, 2072, 104, 7228, 6617, 1708, 6412, 4633, 1111, 1133,
          2029, 3526, 5312, 7842, 6624, 1262, 779, 475, 3415, 1524, 6083, 5874, 3447, 6660, 3615,
          2713, 7163, 5670, 2361, 6836, 6764]"
  by code_simp

section \<open>The slab allocator\<close>

text \<open>A word of the bitmap, whose bytes the processor keeps in little endian order.\<close>

definition used_word :: "bytes \<Rightarrow> nat \<Rightarrow> u64" where
  "used_word bs i = LittleEndian_get_u64 (slice (8 * i) 8 bs)"

lemma used_bit_on:
  "and_then (bit_on (replicate 32 0) 1 7) (\<lambda>bs. and_then (bit_on bs 66 20) (\<lambda>bs'. and_then (bit_on bs' 255 2) (\<lambda>_.
     Inr (used_word bs 0, used_word bs' 1)))) = Inr (0xfe, 0x3FFFFC)"
  by code_simp

lemma used_bit_off:
  "and_then (bit_on (replicate 32 0) 1 7) (\<lambda>bs. and_then (bit_off bs 3 3) (\<lambda>bs.
     and_then (bit_on bs 66 20) (\<lambda>bs'. and_then (bit_off bs' 70 8) (\<lambda>bs'. Inr (used_word bs 0, used_word bs' 1))))) =
   Inr (0xc6, 0x3FC03C)"
  by code_simp

lemma used_bit_check:
  "and_then (bit_on (replicate 32 0) 1 7) (\<lambda>bs. and_then (check_occupation bs 1 7) (\<lambda>v.
     and_then (bit_on bs 66 20) (\<lambda>bs. and_then (check_occupation bs 66 20) (\<lambda>v'.
     and_then (find_start bs 3 0) (\<lambda>start. Inr (v, v', start)))))) = Inr (0xfe, 0xFFFFF, 9)"
  by code_simp

lemma allocate_found:
  assumes "\<not> lock fl" and "find_start (used fl) (block_size n) 0 = Inr i" and "i + block_size n \<le> 255"
    and "bit_on (used fl) i (block_size n) = Inr bs"
  shows "allocate heap fl n = Inr (new_managed (slab fl + i * 2 ^ BLOCK_SHIFT) n, fl\<lparr>used := bs\<rparr>)"
  using assms usize_max_big [OF assms(3)]
  by (cases fl) (simp add: allocate_def Let_def acquire_def unacquire_def Basic_get_free_block_index_def)

lemma deallocate_found:
  assumes "\<not> lock fl" and "bit_off (used fl) i (block_size n) = Inr bs"
  shows "drop_node fl (new_managed (slab fl + i * 2 ^ BLOCK_SHIFT) n) = Inr (fl\<lparr>used := bs\<rparr>)"
  using assms
  by (cases fl) (simp add: drop_node_def deallocate_def Let_def acquire_def unacquire_def BLOCK_SHIFT_def)

lemma test_bitmaps:
  "find_start (replicate 32 0) 1 0 = Inr 0" "bit_on (replicate 32 0) 0 1 = Inr (0x01 # replicate 31 0)"
  "find_start (0x01 # replicate 31 0) 1 0 = Inr 1" "bit_on (0x01 # replicate 31 0) 1 1 = Inr (0x03 # replicate 31 0)"
  "find_start (0x03 # replicate 31 0) 3 0 = Inr 3" "bit_on (0x03 # replicate 31 0) 3 3 = Inr (0x3b # replicate 31 0)"
  "bit_off (0x3b # replicate 31 0) 0 1 = Inr (0x3a # replicate 31 0)"
  "bit_off (0x3a # replicate 31 0) 1 1 = Inr (0x38 # replicate 31 0)"
  "bit_off (0x38 # replicate 31 0) 3 3 = Inr (replicate 32 0)"
  by code_simp+

lemma list_allocate_basic:
  fixes base heap :: nat
  defines "list \<equiv> \<lambda>b. (free_list_new base)\<lparr>used := b # replicate 31 0\<rparr>"
  shows "\<exists>item1 item2 item3.
    allocate heap (free_list_new base) 0x10 = Inr (item1, list 0x01) \<and>
    allocate heap (list 0x01) 0x10 = Inr (item2, list 0x03) \<and>
    allocate heap (list 0x03) 0xc0000 = Inr (item3, list 0x3b) \<and>
    drop_node (list 0x3b) item1 = Inr (list 0x3a) \<and> drop_node (list 0x3a) item2 = Inr (list 0x38) \<and>
    drop_node (list 0x38) item3 = Inr (free_list_new base)"
proof -
  have blocks: "block_size 0x10 = 1" "block_size 0xc0000 = 3" by (simp_all add: block_size_def BLOCK_SHIFT_def)
  have fields: "\<not> lock (list b)" "slab (list b) = base" "used (list b) = b # replicate 31 0"
    "(list b)\<lparr>used := bs\<rparr> = (free_list_new base)\<lparr>used := bs\<rparr>" for b bs by (simp_all add: list_def free_list_new_def)
  have first: "\<not> lock (free_list_new base)" "used (free_list_new base) = replicate 32 0" "slab (free_list_new base) = base"
    by (simp_all add: free_list_new_def)
  have list: "(free_list_new base)\<lparr>used := b # replicate 31 0\<rparr> = list b" "(free_list_new base)\<lparr>used := replicate 32 0\<rparr> = free_list_new base" for b
    by (simp_all add: list_def free_list_new_def)
  note eval = blocks fields(2-4) first(2,3) list test_bitmaps
  let ?item = "\<lambda>i n. new_managed (base + i * 2 ^ BLOCK_SHIFT) n"
  have "allocate heap (free_list_new base) 0x10 = Inr (?item 0 0x10, list 0x01)"
    using allocate_found [OF first(1), where n = "0x10" and i = 0] by (simp only: eval, simp?)
  moreover have "allocate heap (list 0x01) 0x10 = Inr (?item 1 0x10, list 0x03)"
    using allocate_found [OF fields(1), where n = "0x10" and i = 1] by (simp only: eval, simp?)
  moreover have "allocate heap (list 0x03) 0xc0000 = Inr (?item 3 0xc0000, list 0x3b)"
    using allocate_found [OF fields(1), where n = "0xc0000" and i = 3] by (simp only: eval, simp?)
  moreover have "drop_node (list 0x3b) (?item 0 0x10) = Inr (list 0x3a)"
    using deallocate_found [OF fields(1), where n = "0x10" and i = 0] by (simp only: eval, simp?)
  moreover have "drop_node (list 0x3a) (?item 1 0x10) = Inr (list 0x38)"
    using deallocate_found [OF fields(1), where n = "0x10" and i = 1] by (simp only: eval, simp?)
  moreover have "drop_node (list 0x38) (?item 3 0xc0000) = Inr (free_list_new base)"
    using deallocate_found [OF fields(1), where n = "0xc0000" and i = 3] by (simp only: eval, simp?)
  ultimately show ?thesis by blast
qed

end
