(* ===== verification/Spec2Isabelle.thy ===== *)
theory Spec2Isabelle
  imports Layla_Round_Trip Rebuild_Round_Trip Acb_Sheets Intrinsics Unchecked_Reads System_Heap Unit_Tests
begin

text \<open>
  A verification development for \<open>cri-archive-lib\<close>, a reader and writer of CRI Middleware's CPK
  archives and of the \<open>@UTF\<close> tables inside them, and for \<open>cri-cpk-cli\<close>, the command line tool that
  unpacks and packs archives.  In the following \<open>lib\<close> stands for \<open>cri-archive-lib/src\<close> and \<open>cli\<close> for
  \<open>cri-cpk-cli/src\<close>.

  Every claim of this file has a number \<open>C1\<close>, \<open>C2\<close>, ...; the numbers order the claims by importance,
  the file orders them by component.

  THE PROGRAM AND ITS MODEL.  A \<open>Result\<close> or a panic is a sum (\<open>Inl\<close> the error, one constructor of
  \<open>cri_error\<close> being \<open>Panic\<close>), a machine integer is a word of its width and wraps as a release build
  does, a \<open>String\<close> is the list of its bytes, a stream is a record of contents and position, the file
  system a map from paths to contents.  Code behind \<open>unsafe\<close> works on buffers through
  \<open>Raw_Memory\<close>, where an access outside its buffer is the fault \<open>OutOfBounds\<close>.

  \<^item> \<open>Rust_Prelude\<close>, \<open>Errors\<close>: the results and their sequencing, checked arithmetic, bytes and numbers,
    the error types; the simplification collections \<open>result_iff\<close>, \<open>byte_simps\<close> and the collection
    \<open>no_panic_intros\<close>.  \<open>Endianness\<close> is \<open>lib/utils/endianness.rs\<close> and \<open>slice.rs\<close> (locale
    \<open>endianness\<close>, interpreted for the three byte orders), \<open>Byte_Stream\<close> the \<open>Read + Seek\<close> and
    \<open>Write + Seek\<close> of \<open>std::io\<close>, \<open>Raw_Memory\<close> raw pointers.  \<open>Unchecked_Reads\<close> is the build with the
    feature \<open>dangerous\<close>: the same reads without their checks.
  \<^item> \<open>Table_Header\<close>, \<open>String_Pool\<close>, \<open>Table_Rows\<close>: \<open>lib/schema/header.rs\<close>, \<open>strings.rs\<close>, \<open>columns.rs\<close>
    and \<open>rows.rs\<close>.  The trait \<open>StringPool\<close> is the locale \<open>string_pool\<close>, interpreted for both
    implementations.  \<open>Table_Cipher\<close> is \<open>lib/cpk/encrypt/table.rs\<close> and its copy in \<open>cpk/header.rs\<close>;
    \<open>Chunk_Container\<close> and \<open>High_Table\<close> are the two types of \<open>lib/cpk/header.rs\<close>.
  \<^item> \<open>Utf_Builder\<close>, \<open>Cpk_Writer\<close>: \<open>lib/cpk/writer.rs\<close>, its table builder, planning and emission.
    \<open>Archive_Layout\<close> says where every byte of an archive goes, \<open>Archive_Success\<close> when the writer
    succeeds.
  \<^item> \<open>Cpk_File\<close>: \<open>lib/cpk/file.rs\<close>, \<open>encrypt/data.rs\<close> and \<open>encrypt/p5r.rs\<close>; the trait \<open>FileDecryptor\<close> is
    the locale \<open>file_decryptor\<close>, interpreted for the dummy and for Persona 5 Royal on every target.
    \<open>Cpk_Reader\<close> and \<open>Cpk_Extract\<close> are \<open>lib/cpk/reader.rs\<close>.  \<open>Archive_Round_Trip\<close> and
    \<open>Archive_Extract\<close> put writer and reader together, \<open>Listed_Names\<close> is the type invariant of the
    strings of a listing.
  \<^item> \<open>Free_List\<close>: \<open>lib/cpk/free_list.rs\<close>, the slab allocator, as a step relation of allocations and
    drops; the trait \<open>ListAllocationMethod\<close> is the locale \<open>list_allocation_method\<close>.  \<open>System_Heap\<close> adds
    the blocks the list takes from the global allocator and their release.  \<open>Unit_Tests\<close> runs the
    unit tests of this file and of the bit readers on the model.
  \<^item> \<open>Layla_Bits\<close>, \<open>Layla\<close>: \<open>lib/cpk/compress/layla.rs\<close>, the bit readers (locale \<open>bit_reader\<close>, six
    interpretations) and the decompressor.  \<open>Layla_Spec\<close> is the format as a list of tokens,
    \<open>Layla_Round_Trip\<close> a compressor for it.
  \<^item> \<open>Acb_Table\<close>, \<open>Acb_Reader\<close>: \<open>lib/acb/header.rs\<close> and \<open>reader.rs\<close>, cue sheets; \<open>Acb_Sheets\<close> reads
    sheets made with the table builder.  \<open>Intrinsics\<close>: \<open>lib/utils/x86_64.rs\<close>.
  \<^item> \<open>Text_Fields\<close>, \<open>Paths\<close>, \<open>Manifest\<close>, \<open>Directory_Walk\<close>, \<open>Manifest_Inputs\<close>: \<open>cli/manifest.rs\<close> and the
    functions on paths and directories of \<open>lib/cpk/writer.rs\<close>, over models of \<open>std::path\<close>,
    \<open>from_str_radix\<close>, \<open>str::lines\<close> and \<open>split\<close>.  \<open>Cli\<close>: \<open>cli/main.rs\<close>.  \<open>Unpack_Round_Trip\<close>: unpacking
    what was packed; \<open>Rebuild\<close>, \<open>Rebuild_Round_Trip\<close>: packing what was unpacked.

  HOW THE PARTS INTERACT.  The command line reads or writes whole archives.  \<open>CpkReader::get_files\<close>
  reads the header chunk, then the table of contents or the ID tables, each through
  \<open>TableContainer\<close> (which decrypts) and \<open>HighTable\<close> (which checks the sections, then reads columns,
  rows and strings); \<open>extract_file\<close> reads a payload, decrypts it with the reader's \<open>FileDecryptor\<close> and
  decompresses it into a node of the reader's \<open>FreeList\<close>.  \<open>CpkWriter\<close> plans the archive (tables
  through \<open>UtfTableBuilder\<close>, offsets by alignment) and emits it.  Unpacking leaves a \<open>Manifest\<close>, from
  which packing takes the inputs of a rebuild.

  WHAT THE LEMMAS SHOW.  The round trips of writer and reader with either index, with encryption and
  compression, and through the command line; when the writer succeeds; that the reader never panics
  and accesses no byte outside a buffer except in the decompressor, for which the exact condition is
  given; the meaning of the decompressor as a specification; ownership of the slab and of the blocks of
  the system; that unpacking
  stays inside its directory; the manifest's round trip; that unpacking and packing again succeeds,
  whatever index the archive has, and keeps every entry, with \<open>--reuse-raw-entries\<close> every packed
  byte; termination of the walks; the exact results of the cue sheet lookups.

  BOUNDS AND FUEL.  No definition has fuel: loops are structural, have a measure, or (\<open>walk\<close>, which
  follows directories the system reports, and could meet a cycle) are partial functions whose
  termination on trees is a claim.  The decompressor's loop ends because every step lowers the
  output position.  The numbers in hypotheses are those of the format: 4 GiB for a table and its
  offsets, 32 bits for sizes, 16 bits for the row counts and the IDs of an ID index.

  PARAMETERS.  Code outside the repository is an argument of the definitions: Shift-JIS decoding
  (\<open>sjis\<close>), \<open>canonicalize\<close>, \<open>read_dir\<close> and the current directory (record \<open>host\<close>), how many bytes a read of
  a file returns (\<open>avail\<close>), the address of the slab and of heap blocks, the bytes a fresh allocation
  holds (\<open>memory\<close>), the target and its processor features (\<open>target\<close>).  The features of the crate are
  on, \<open>dangerous\<close> is off outside \<open>Unchecked_Reads\<close>; the writer's argument \<open>p5r\<close> is \<open>None\<close> in a build
  without Persona 5 Royal encryption.

  NOT MODELLED.  Device errors of reads and writes other than a missing file or the end of one;
  failing allocations; directories as objects of their own (\<open>create_dir_all\<close>, removing them) and
  links; locking in the allocator beyond its flag, as a reader is used by one thread; the progress
  bar and other printing; \<open>Debug\<close> and \<open>Display\<close>; the texts of error messages, which are constructors;
  the vector instructions themselves, which are operations on lists of lanes as documented; Windows
  paths; tests and benchmarks.
\<close>

section \<open>Archives\<close>

definition demo_file :: cpk_input_file where
  "demo_file =
     \<lparr>in_directory = ascii ''d'', in_file_name = ascii ''a.bin'', source_path = [1], in_size = 3,
      in_extract_size = 3, in_id = 7, in_user_string = [], raw_payload = None\<rparr>"

definition demo_files :: "cpk_input_file list" where
  "demo_files = [demo_file, demo_file\<lparr>in_file_name := ascii ''b.bin'', in_id := 3\<rparr>]"

definition demo_disk :: "path \<rightharpoonup> bytes" where
  "demo_disk = [[1] \<mapsto> [10, 20, 30]]"

definition itoc_profile :: cpk_writer_profile where
  "itoc_profile = default_profile\<lparr>index_mode := Mode_Itoc\<rparr>"

definition both_profile :: cpk_writer_profile where
  "both_profile = default_profile\<lparr>index_mode := Mode_TocAndItoc\<rparr>"

lemma demo_ready: "\<forall>f \<in> set demo_files. payload_ready None demo_disk encrypt f"
  by (simp add: payload_ready_def packed_payload_def demo_files_def demo_file_def demo_disk_def CRI_CFATTR_ENCRYPT_def ascii_def)

lemma demo_sane: "files_sane demo_disk"
  by (simp add: files_sane_def demo_disk_def)

lemma demo_moderate:
  "moderate demo_files default_options default_profile" "moderate demo_files default_options itoc_profile"
  "moderate demo_files default_options both_profile"
proof -
  have "\<exists>m < 16. unat (0x800 :: u16) = 2 ^ m" by (rule exI [of _ 11]) simp
  then show "moderate demo_files default_options default_profile"
    "moderate demo_files default_options itoc_profile" "moderate demo_files default_options both_profile"
    by (simp_all add: moderate_def default_options_def default_profile_def itoc_profile_def both_profile_def
        names_length_def demo_files_def demo_file_def)
qed

lemma demo_texts:
  "texts_ok demo_files default_profile" "texts_ok demo_files both_profile"
  "pool_strings_ok [tvers itoc_profile, comment itoc_profile]"
proof -
  have "pool_strings_ok (map ascii [''7.0.0'', ''Created by cri-cpk-cli''])"
    "pool_strings_ok (map ascii [''d'', ''a.bin'', ''b.bin'', []])"
    by (rule pool_strings_ok_ascii, simp add: ascii_text_def)+
  then show "texts_ok demo_files default_profile" "texts_ok demo_files both_profile"
    "pool_strings_ok [tvers itoc_profile, comment itoc_profile]"
    by (simp_all add: texts_ok_def default_profile_def itoc_profile_def both_profile_def demo_files_def demo_file_def) (simp_all add: pool_strings_ok_def ascii_def)
qed

text \<open>C1: what the writer wrote with a table of contents, the reader lists and extracts: opening the
  archive lists exactly the input files, in their order, with their directories, names, sizes, IDs
  and user strings, and reading an entry returns its packed payload.  The strings have no NUL, file
  names are not empty, and the index is below 4 GiB.\<close>

theorem toc_archive_round_trip:
  assumes "write_with_profile p5r fs out files options profile = Inr (report, out')"
    and "contents out = []" and "files_sane fs" and "has_toc (index_mode profile)"
    and "unat (rep_content_offset report) < 2 ^ 32" and "texts_ok files profile"
  shows "\<exists>offsets. archive_reads_back sjis (contents out') p5r fs (p5r_encryption options) files
    (map2 listed_file files offsets) \<and> length offsets = length files"
  using assms by (rule toc_archive_reads_back)

theorem toc_archive_round_trip_witness:
  "\<exists>report out' offsets.
     write_with_profile None demo_disk \<lparr>contents = [], position = 0\<rparr> demo_files default_options default_profile =
       Inr (report, out') \<and>
     archive_reads_back (\<lambda>bs. bs) (contents out') None demo_disk False demo_files (map2 listed_file demo_files offsets)"
proof -
  from write_with_profile_ok [OF demo_moderate(1) _ demo_sane demo_ready, of "\<lparr>contents = [], position = 0\<rparr>"]
  obtain report out' where w: "write_with_profile None demo_disk \<lparr>contents = [], position = 0\<rparr> demo_files
      default_options default_profile = Inr (report, out')" "unat (rep_content_offset report) < 2 ^ 32" by auto
  have "has_toc (index_mode default_profile)" by (simp add: has_toc_def default_profile_def)
  from toc_archive_round_trip [OF w(1) _ demo_sane this w(2) demo_texts(1), of "\<lambda>bs. bs"] w(1)
  show ?thesis by (auto simp: default_options_def)
qed

text \<open>C2: with an ID table only, the reader reconstructs the same offsets without being told: it lists
  the files in the order of their IDs, each at the offset the writer chose, under the name made of
  its ID, and reading an entry returns the packed payload of the file with that ID.\<close>

theorem itoc_archive_round_trip:
  assumes "write_with_profile p5r fs out files options profile = Inr (report, out')"
    and "contents out = []" and "files_sane fs" and "index_mode profile = Mode_Itoc"
    and "pool_strings_ok [tvers profile, comment profile]"
  shows "\<exists>offsets. archive_reads_back sjis (contents out') p5r fs (p5r_encryption options) (sort_key in_id files)
    (map2 (listed_by_id (rep_content_offset report)) (sort_key in_id files) offsets) \<and>
    length offsets = length files"
  using assms by (rule itoc_archive_reads_back)

theorem itoc_archive_round_trip_witness:
  "\<exists>report out' offsets.
     write_with_profile None demo_disk \<lparr>contents = [], position = 0\<rparr> demo_files default_options itoc_profile =
       Inr (report, out') \<and>
     archive_reads_back (\<lambda>bs. bs) (contents out') None demo_disk False (sort_key in_id demo_files)
       (map2 (listed_by_id (rep_content_offset report)) (sort_key in_id demo_files) offsets)"
proof -
  from write_with_profile_ok [OF demo_moderate(2) _ demo_sane demo_ready, of "\<lparr>contents = [], position = 0\<rparr>"]
  obtain report out' where w: "write_with_profile None demo_disk \<lparr>contents = [], position = 0\<rparr> demo_files
      default_options itoc_profile = Inr (report, out')" by auto
  have "index_mode itoc_profile = Mode_Itoc" by (simp add: itoc_profile_def)
  from itoc_archive_round_trip [OF w _ demo_sane this demo_texts(3), of "\<lambda>bs. bs"] w
  show ?thesis by (auto simp: default_options_def)
qed

text \<open>C17: the writer succeeds on every input of moderate size: an alignment that is a power of two, at
  most 2^20 files with names below 256 MiB altogether, short version and comment strings, IDs that
  are distinct and fit 16 bits when there is an ID table, and payloads that can be read with the
  announced sizes.\<close>

theorem write_succeeds:
  assumes "moderate files options profile" and "contents out = []" and "files_sane fs"
    and "\<forall>f \<in> set files. payload_ready p5r fs (p5r_encryption options) f"
  shows "\<exists>report out'. write_with_profile p5r fs out files options profile = Inr (report, out')"
  using write_with_profile_ok [OF assms] by blast

theorem write_succeeds_witness:
  "\<exists>report out'. write_with_profile None demo_disk \<lparr>contents = [], position = 0\<rparr> demo_files
     default_options default_profile = Inr (report, out')"
  using write_succeeds [OF demo_moderate(1) _ demo_sane demo_ready] by simp

text \<open>C16: once a plan exists, writing it out fails only for a payload: it succeeds exactly when every
  file can be read, has the announced size, and a reused raw payload declares that size.\<close>

theorem emit_archive_succeeds_iff:
  assumes "plan_archive files options profile = Inr lo" and "contents out = []" and "files_sane fs"
  shows "(\<exists>out'. emit_archive p5r fs files encrypt lo out = Inr out') \<longleftrightarrow>
    (\<forall>f \<in> set files. payload_ready p5r fs encrypt f)"
  by (rule emit_archive_iff [OF plan_archive_ok [OF assms(1)] assms(2,3)])

theorem emit_archive_succeeds_iff_witness:
  "\<exists>lo. plan_archive demo_files default_options default_profile = Inr lo \<and>
    (\<exists>out'. emit_archive None demo_disk demo_files False lo \<lparr>contents = [], position = 0\<rparr> = Inr out') \<and>
    \<not> (\<exists>out'. emit_archive None Map.empty demo_files False lo \<lparr>contents = [], position = 0\<rparr> = Inr out')"
proof -
  from plan_archive_moderate [OF demo_moderate(1)] obtain lo where
    lo: "plan_archive demo_files default_options default_profile = Inr lo" by blast
  have "\<exists>f \<in> set demo_files. \<not> payload_ready None Map.empty False f"
    by (simp add: payload_ready_def packed_payload_def demo_files_def demo_file_def)
  moreover have "files_sane Map.empty" by (simp add: files_sane_def)
  ultimately show ?thesis
    using lo demo_ready demo_sane
      emit_archive_succeeds_iff [OF lo, of "\<lparr>contents = [], position = 0\<rparr>" demo_disk None False]
      emit_archive_succeeds_iff [OF lo, of "\<lparr>contents = [], position = 0\<rparr>" Map.empty None False] by auto
qed

text \<open>C15: the layout of a plan: the header fits before the copyright marker, chunks and payloads do not
  overlap, payloads follow one another in the physical order, each at a multiple of the alignment,
  and no offset computation wraps around.\<close>

theorem plan_layout:
  assumes "plan_archive files options profile = Inr lo"
  shows "layout_ordered lo \<and> distinct (lo_order lo) \<and> set (lo_order lo) = {..<length files} \<and>
    (\<forall>k l. k < l \<and> l < length files \<longrightarrow>
       unat (lo_content_offset lo) \<le> unat (lo_offsets lo ! (lo_order lo ! k)) \<and>
       unat (lo_offsets lo ! (lo_order lo ! k)) + unat (in_size (files ! (lo_order lo ! k))) \<le>
         unat (lo_offsets lo ! (lo_order lo ! l)) \<and>
       unat (alignment options) dvd unat (lo_offsets lo ! (lo_order lo ! l)))"
  by (rule planned_layout [OF plan_archive_ok [OF assms]])

theorem plan_layout_witness:
  "\<exists>lo. plan_archive demo_files default_options default_profile = Inr lo \<and> set (lo_order lo) = {0, 1} \<and>
    unat (lo_offsets lo ! (lo_order lo ! 0)) + 3 \<le> unat (lo_offsets lo ! (lo_order lo ! 1))"
proof -
  from plan_archive_moderate [OF demo_moderate(1)] obtain lo where
    lo: "plan_archive demo_files default_options default_profile = Inr lo" by blast
  note P = plan_layout [OF lo, THEN conjunct2, THEN conjunct2]
  have len: "length demo_files = 2" by (simp add: demo_files_def)
  then have order: "set (lo_order lo) = {0, 1}" using P by (auto simp: less_2_cases_iff)
  have "lo_order lo ! 0 \<in> {0, 1}"
    using order by (metis insertI1 insert_not_empty length_greater_0_conv list.set(1) nth_mem)
  then have "in_size (demo_files ! (lo_order lo ! 0)) = 3" by (auto simp: demo_files_def demo_file_def)
  moreover have "unat (lo_offsets lo ! (lo_order lo ! 0)) + unat (in_size (demo_files ! (lo_order lo ! 0))) \<le>
      unat (lo_offsets lo ! (lo_order lo ! 1))"
    using P [THEN conjunct2] len by simp
  ultimately show ?thesis using lo order by auto
qed

text \<open>C18: whatever bytes an archive consists of, listing it does not panic, and neither does reading a
  file of it; both end with a value or one of the program's own errors.\<close>

theorem reader_never_panics:
  "no_panic (fst (get_files sjis rd)) \<and> no_panic (read_packed_file rd file)"
  by (simp add: no_panic_get_files no_panic_read_packed_file)

text \<open>C21: two entries of an ID table never share a byte: a listing is ordered by ID without
  duplicates, every entry ends before the next begins, starts at a multiple of the alignment, and
  its absolute offset is the content offset plus its relative one, without wrap-around.\<close>

theorem itoc_listing_disjoint:
  assumes "itoc_files sjis metadata itoc = Inr fs" and "k < l" "l < length fs"
  shows "the (id_opt (fs ! k)) < the (id_opt (fs ! l)) \<and>
    unat (absolute_offset (fs ! k)) + unat (file_size (fs ! k)) \<le> unat (absolute_offset (fs ! l)) \<and>
    itoc_alignment metadata dvd unat (file_offset (fs ! l)) \<and>
    unat (absolute_offset (fs ! l)) = unat (md_content_offset metadata) + unat (file_offset (fs ! l))"
  by (intro conjI) (rule itoc_files_disjoint [OF assms])+

theorem itoc_listing_disjoint_witness:
  "\<exists>itoc metadata fs. itoc_files (\<lambda>bs. bs) metadata itoc = Inr fs \<and> length fs = 2 \<and>
    unat (absolute_offset (fs ! 0)) + 3 \<le> unat (absolute_offset (fs ! 1))"
proof -
  have "\<exists>t. build_itoc_rows demo_files [0, 1] False ''T'' = Inr t \<and> length t \<le> 2 ^ 24"
    by (rule itoc_rows_ok) (auto simp: demo_files_def demo_file_def)
  then obtain t where t: "build_itoc_rows demo_files [0, 1] False ''T'' = Inr t" "length t < 2 ^ 32" by auto
  have "ascii_text ''T''" by (simp add: ascii_text_def)
  from nested_table_back [OF t(1) this t(2), of "\<lambda>bs. bs"] obtain ht where
    "\<forall>rows. collect_itoc_rows ht rows = Inr (rows @ map (\<lambda>i. itoc_row_of (demo_files ! i)) [0, 1])" by blast
  from spec [OF this, of "[]"]
  have rows: "collect_itoc_rows ht [] = Inr (map (\<lambda>i. itoc_row_of (demo_files ! i)) [0, 1])" by simp
  let ?md = "(parse_metadata ht)\<lparr>md_eid := 1, md_content_offset := 0x1000, md_align := 0x800\<rparr>"
  let ?fs = "[file_at 0x1000 0 (itoc_row_of (demo_files ! 1)), file_at 0x1000 0x800 (itoc_row_of (demo_files ! 0))]"
  have "\<not> (0x800 :: u64) \<le> 1" "\<not> (0x800 :: u16) \<le> 1" by (simp_all add: word_le_nat_alt)
  then have "itoc_files (\<lambda>bs. bs) ?md ht = Inr ?fs"
    by (simp add: itoc_files_def itoc_rows_def rows Let_def materialize_itoc_rows_def reader_align_up_def
        checked_add_def file_at_def itoc_row_of_def demo_files_def demo_file_def max_def)
  with itoc_listing_disjoint [OF this, of 0 1] show ?thesis
    by (intro exI [of _ ht] exI [of _ ?md] exI [of _ ?fs])
      (simp add: file_at_def cpk_file_new_def itoc_row_of_def demo_files_def demo_file_def)
qed

section \<open>Tables\<close>

text \<open>C9: a table the writer builds is read back by the reader: same rows, same columns, every
  value equal, with string offset 0 exactly for the empty string.  The strings are valid UTF-8
  without NUL, and the table is below 4 GiB.\<close>

theorem build_read_back:
  assumes "build b = Inr t" and "pool_strings_ok (builder_strings b)" and "length t < 2 ^ 32"
  shows "\<exists>ht. high_table_new sjis t = Inr ht \<and> ht_alloc ht = t \<and> table_shows ht b"
  using assms by (rule build_read_back_shows)

definition demo_table :: utf_table_builder where
  "demo_table =
     utf_table_builder_new ''T''
       [utf_column_new ''A'' U_UInt16, utf_column_new ''B'' U_String, utf_column_new ''D'' U_Data]
       [[UV_UInt16 5, UV_String (ascii ''x''), UV_Data [1, 2]],
        [UV_UInt16 6, UV_String [], UV_Data []]]"

lemma demo_table_builds: "\<exists>t. build demo_table = Inr t \<and> length t < 2 ^ 32"
  by (simp add: build_eval demo_table_def header_layout_def UTF_MAGIC_def emit_column_def)

lemma demo_table_strings: "pool_strings_ok (builder_strings demo_table)"
  by (simp add: demo_table_def builder_strings_def pool_strings_ok_def strings_of_def
      utf_table_builder_new_def utf_column_new_def ascii_def)

theorem build_read_back_witness:
  "\<exists>t ht. build demo_table = Inr t \<and> high_table_new (\<lambda>bs. bs) t = Inr ht \<and> table_shows ht demo_table"
  using demo_table_builds build_read_back [OF _ demo_table_strings] by blast

text \<open>C32: whatever bytes a table consists of, parsing it does not panic, and a table it accepts is
  well formed: sections in order and inside the buffer, rows of the width of the columns.\<close>

theorem high_table_new_total:
  "case high_table_new sjis alloc of Inl e \<Rightarrow> e \<noteq> Panic | Inr t \<Rightarrow> high_table_wf t"
  using no_panic_high_table_new [of sjis alloc] high_table_new_wf [of sjis alloc]
  by (auto simp: no_panic_def split: sum.split)

text \<open>C36: the string pool parser succeeds on exactly the sequences of NUL terminated strings that
  decode, and files each string under the offset of its first byte.\<close>

theorem parse_strings_iff:
  "parse_strings sjis stream enc = Inr m \<longleftrightarrow>
     (\<exists>ss vs. stream = nul_terminated ss \<and> list_all (\<lambda>s. 0 \<notin> set s) ss \<and>
        map_result (decode_string sjis enc) ss = Inr vs \<and> m = pool_map ss vs)"
  by (simp add: parse_strings_iff_split list_all_iff)

text \<open>C37: the table cipher undoes itself, keeps the length, and the prefix test of
  \<open>is_encrypted\<close> holds of exactly the buffers that decrypt to a table.\<close>

theorem table_cipher:
  "decrypt_utf (decrypt_utf bs) = bs \<and> length (decrypt_utf bs) = length bs \<and>
   (is_encrypted bs \<longleftrightarrow> starts_with (decrypt_utf bs) UTF_MAGIC)"
  by (simp add: decrypt_utf_def is_encrypted_iff)

text \<open>C38: the build without bounds checks (feature \<open>dangerous\<close>) does what the checked one does: no read
  through \<open>from_slice!\<close> leaves its slice.  The fields of a table header, the cells of a row and the
  default values of columns, the name offsets of columns and the test for a compressed file have the
  same results, errors and panics for every input, and never a fault.\<close>

theorem dangerous_build_agrees:
  "dangerous_row_value ty buf = Inr (parse_row_value ty buf) \<and>
   dangerous_column_name flag handle = Inr (read_column_name flag handle) \<and>
   dangerous_is_compressed input = Inr (is_compressed input) \<and>
   (let h = table_header_new file in
      dangerous_size h = Inr (th_size h) \<and> dangerous_encoding h = Inr (th_encoding h) \<and>
      dangerous_rows_offset h = Inr (th_rows_offset h) \<and>
      dangerous_string_pool_offset h = Inr (th_string_pool_offset h) \<and>
      dangerous_data_pool_offset h = Inr (th_data_pool_offset h) \<and>
      dangerous_column_count h = Inr (th_column_count h) \<and> dangerous_row_size h = Inr (th_row_size h) \<and>
      dangerous_row_count h = Inr (th_row_count h))"
  by (simp add: dangerous_row_value_eq dangerous_column_name_eq dangerous_is_compressed_eq
      dangerous_header_eq [OF table_header_new_wf])

section \<open>The slab allocator\<close>

text \<open>C10: while no request exceeds 64 blocks (16 MiB), live nodes never share a byte and stay
  inside the slab, in every order of allocations and drops.\<close>

theorem live_nodes_disjoint:
  assumes "alloc_reachable 64 base (fl, ps)" and "i < j" "j < length ps"
    and "managed (ps ! i)" "managed (ps ! j)"
  shows "node_bytes (ps ! i) \<inter> node_bytes (ps ! j) = {} \<and>
    node_bytes (ps ! i) \<subseteq> {base ..< base + SLAB_SIZE}"
  using reachable_inv [OF assms(1) order_refl] inv_disjoint [OF _ assms(2-5)] inv_in_slab assms
  by (meson nth_mem order.strict_trans)

theorem live_nodes_disjoint_witness:
  "\<exists>fl p q. alloc_reachable 64 0 (fl, [p, q]) \<and> node_bytes p \<inter> node_bytes q = {}"
proof -
  have one: "block_size 8 = 1" by (simp add: block_size_def BLOCK_SHIFT_def)
  let ?f0 = "free_list_new 0"
  have wf0: "free_list_wf ?f0" by (simp add: free_list_wf_def free_list_new_def)
  have "find_start (used ?f0) 1 0 = Inr 0"
    by (rule find_start_here) (auto simp: free_list_new_def bits_clear_def block_used_def)
  from allocate_at [OF wf0, of 8 0 0] this obtain b1 where
    a1: "allocate 0 ?f0 8 = Inr (\<lparr>node_ptr = 0, node_size = 8, managed = True\<rparr>, ?f0\<lparr>used := b1\<rparr>)"
    and s1: "bits_set True 0 1 (used ?f0) b1" and w1: "free_list_wf (?f0\<lparr>used := b1\<rparr>)"
    by (auto simp: one free_list_new_def)
  have L1: "length b1 = 32" using w1 by (simp add: free_list_wf_def)
  have "\<not> block_used b1 1"
    using s1 by (simp add: bits_set_def free_list_new_def) (simp add: block_used_def)
  then have "bits_clear 1 (1 + min 1 64) b1" by (auto simp: bits_clear_def less_Suc_eq_le dest: le_antisym)
  with L1 have next1: "find_start b1 1 (0 + 1) = Inr 1" by (subst find_start_here) simp_all
  have "find_start b1 1 0 = find_start b1 1 (0 + 1)"
    using s1 L1 by (intro find_start_skip) (auto simp: bits_set_def bits_clear_def free_list_new_def)
  also note next1
  finally have i2: "find_start b1 1 0 = Inr 1" .
  from allocate_at [OF w1, of 8 1 0] i2 obtain b2 where
    a2: "allocate 0 (?f0\<lparr>used := b1\<rparr>) 8 =
      Inr (\<lparr>node_ptr = 2 ^ BLOCK_SHIFT, node_size = 8, managed = True\<rparr>, ?f0\<lparr>used := b2\<rparr>)"
    by (auto simp: one free_list_new_def)
  let ?p = "\<lparr>node_ptr = 2 ^ BLOCK_SHIFT, node_size = 8, managed = True\<rparr>"
  let ?q = "\<lparr>node_ptr = 0, node_size = 8, managed = True\<rparr>"
  have "alloc_reachable 64 0 (?f0\<lparr>used := b1\<rparr>, [?q])"
    by (rule reachable_step [OF reachable_new step_allocate [OF a1]]) (simp add: one)
  then have r: "alloc_reachable 64 0 (?f0\<lparr>used := b2\<rparr>, [?p, ?q])"
    by (rule reachable_step [OF _ step_allocate [OF a2]]) (simp add: one)
  from live_nodes_disjoint [OF r, of 0 1] r show ?thesis by auto
qed

text \<open>C25: a larger request is placed by looking at its first 64 blocks only, so it can be given
  memory that another live node owns.\<close>

theorem large_request_overlaps:
  "\<exists>fl p q. alloc_reachable 65 base (fl, [p, q]) \<and> managed p \<and> managed q \<and>
     node_bytes p \<inter> node_bytes q \<noteq> {}"
proof -
  let ?C = "\<lparr>node_ptr = base, node_size = 17039360, managed = True\<rparr>"
  let ?B = "\<lparr>node_ptr = base + 16777216, node_size = 16777216, managed = True\<rparr>"
  have "base + 16777216 \<in> node_bytes ?C \<inter> node_bytes ?B" by (simp add: node_bytes_def)
  moreover have "managed ?C" "managed ?B" by simp_all
  ultimately show ?thesis using overlapping_nodes [of base] by blast
qed

text \<open>C39: the allocator owns what it took from the system: in every order of allocations (of at most 64
  blocks) and drops, nodes in the slab and nodes the system had to provide do not share a byte;
  dropping the live nodes in any order, then the list, releases every block once, with the layout it
  was requested with, and leaves the system as it was before.\<close>

theorem heap_given_back:
  assumes "heap_reachable 64 base blocks0 (fl, ps, blocks)" and "base \<noteq> 0" and "mset qs = mset ps"
  shows "drop_nodes fl qs blocks = Inr (free_list_new base, sys_alloc base get_layout_temp blocks0) \<and>
    drop_list (free_list_new base) (sys_alloc base get_layout_temp blocks0) = Inr blocks0 \<and>
    (\<forall>i j. i < j \<and> j < length ps \<longrightarrow> node_bytes (ps ! i) \<inter> node_bytes (ps ! j) = {})"
  using drops_return_everything [OF assms(1) order_refl assms(3)] assms(2)
  by (simp add: sorted_wrt_iff_nth_less apart_def)

theorem heap_given_back_witness:
  "\<exists>fl p ps blocks. heap_reachable 64 0x1000 {#} (fl, p # ps, blocks) \<and> \<not> managed p \<and> length ps = 3 \<and> size blocks = 2 \<and>
     drop_nodes fl (rev (p # ps)) blocks = Inr (free_list_new 0x1000, {#(0x1000, get_layout_temp)#}) \<and>
     drop_list (free_list_new 0x1000) {#(0x1000, get_layout_temp)#} = Inr {#}"
proof -
  obtain fl p ps blocks where r: "heap_reachable 64 0x1000 {#} (fl, p # ps, blocks)" "length ps = 3" "\<not> managed p" "size blocks = 2"
    using slab_fills [where base = "0x1000"] by blast
  have "mset (rev (p # ps)) = mset (p # ps)" by simp
  from heap_given_back [OF r(1) _ this] r show ?thesis
    by (intro exI [of _ fl] exI [of _ p] exI [of _ ps] exI [of _ blocks]) (simp add: sys_alloc_def)
qed

section \<open>File decryption\<close>

text \<open>C29: the Persona 5 Royal transform never reads outside its buffer and computes the same
  bytes with every vector width: bytes 0x20 to 0x420 are combined with the 0x400 bytes after them,
  provided the file has 0x820 bytes.  On a target that is neither x86-64 nor has NEON it leaves the
  file as it is.\<close>

theorem p5r_decrypt_computes:
  "P5R_decrypt_in_place t input =
     Inr (if length input < 0x820 \<or> scalar_only t then input else p5r_transform input)"
  by (rule P5R_decrypt_eq)

text \<open>C30: decrypting twice restores the file, for both decryptors and on every target; so the
  writer's use of the same transform to encrypt is right.\<close>

theorem decrypt_undoes_itself:
  "and_then (P5R_decrypt_in_place t input) (P5R_decrypt_in_place t) = Inr input \<and>
   and_then (Dummy_decrypt_in_place input) Dummy_decrypt_in_place = Inr input"
  using p5r.decrypt_defined [of t input] p5r.decrypt_twice [of t input]
    dummy.decrypt_defined [of input] dummy.decrypt_twice [of input] by auto

section \<open>Decompression\<close>

text \<open>C6: the decompressor computes what the format says, on every input: it returns the text of the
  token sequence behind the stored bytes, and leaves its buffers exactly when there is no such text.
  What the memory of its node held before does not matter, and the slab is left as it was.\<close>

theorem decompress_meaning:
  "LaylaDecompressor_decompress heap memory input (free_list_new base) =
     and_then (ok_or OutOfBounds (layla_unpack input)) (\<lambda>out. Inr (out, free_list_new base))"
  by (rule LaylaDecompressor_decompress_eq) (simp_all add: free_list_wf_def free_list_new_def)

text \<open>C7: every sequence of literals and copies has a compressed file, and decompressing it yields
  the stored bytes followed by the expansion of the sequence.\<close>

theorem layla_round_trip:
  assumes "list_all token_ok ts" and "expand_tokens ts [] = Some res" and "length res < 2 ^ 32"
    and "length raw = 0x100" and "length (concat (map token_bits ts)) < 2 ^ 32"
  shows "is_compressed (layla_file ts (length res) raw) \<and>
    LaylaDecompressor_decompress heap memory (layla_file ts (length res) raw) (free_list_new base) =
      Inr (raw @ res, free_list_new base)"
proof -
  have raw: "length raw = UNCOMPRESSED_DATA_SIZE" using assms(4) by (simp add: UNCOMPRESSED_DATA_SIZE_def)
  have fits: "length (pack (concat (map token_bits ts))) < 2 ^ 32"
    using length_pack_le assms(5) by (rule le_less_trans)
  have wf: "free_list_wf (free_list_new base)" "used (free_list_new base) = replicate 32 0"
    by (simp_all add: free_list_wf_def free_list_new_def)
  from layla_file_unpacks [OF assms(1,2) refl raw assms(3) fits] LaylaDecompressor_decompress_eq [OF wf]
  show ?thesis by simp
qed

definition demo_tokens :: "layla_token list" where
  "demo_tokens = [Literal 1, Literal 2, Literal 3, Copy 3 4]"

theorem layla_round_trip_witness:
  "LaylaDecompressor_decompress 0 (\<lambda>_. 0xcd) (layla_file demo_tokens 7 (replicate 0x100 9)) (free_list_new 0) =
     Inr (replicate 0x100 9 @ [1, 3, 2, 1, 3, 2, 1], free_list_new 0)"
proof -
  have ok: "list_all token_ok demo_tokens" by (simp add: demo_tokens_def)
  have res: "expand_tokens demo_tokens [] = Some [1, 3, 2, 1, 3, 2, 1]" by (simp add: demo_tokens_def eval_nat_numeral)
  have "length (concat (map token_bits demo_tokens)) < 2 ^ 32"
    by (simp add: demo_tokens_def length_bits_def)
  moreover have seven: "length [1, 3, 2, 1, 3, 2, 1 :: u8] = 7" by simp
  ultimately show ?thesis
    using layla_round_trip [OF ok res, of "replicate 0x100 9" 0 "\<lambda>_. 0xcd" 0, unfolded seven] by simp
qed

text \<open>C22: the unrolled copy, with its short and long paths, moves the same bytes in the same order as
  the plain loop, for every length, on overlapping ranges and when it runs out of the buffer.\<close>

theorem unrolled_copy:
  "copy_block offset (3 + n) pwrite out = copy_loop offset (3 + n) pwrite out"
  by (rule copy_block_loop) simp

text \<open>C23: the six hand-unrolled bit readers take the next bits of the stream, most significant
  first, at every alignment of the cursor, and leave the input exactly when fewer bits are left.\<close>

theorem bit_readers:
  assumes "r \<le> 8 * length input"
  shows "read_1 input (cursor_at r) = at_cursor (\<lambda>v. v = 1) (take_number 1 (unread input r)) \<and>
    read_2 input (cursor_at r) = at_cursor of_nat (take_number 2 (unread input r)) \<and>
    read_max_8 3 input (cursor_at r) = at_cursor of_nat (take_number 3 (unread input r)) \<and>
    read_max_8 5 input (cursor_at r) = at_cursor of_nat (take_number 5 (unread input r)) \<and>
    read_8 input (cursor_at r) = at_cursor of_nat (take_number 8 (unread input r)) \<and>
    read_13 input (cursor_at r) = at_cursor of_nat (take_number 13 (unread input r))"
  by (intro conjI read_1_number read_2_number read_3_number read_5_number read_8_number read_13_number assms)

theorem bit_readers_witness:
  "read_13 [0xff, 0x12, 0x03] (cursor_at 18) = Inr (0x1897, cursor_at 5)"
proof -
  have "[0..<18] = [0, 1, 2, 3, 4, 5, 6, 7, 8, 9, 10, 11, 12, 13, 14, 15, 16, 17 :: nat]"
    by (simp add: upt_rec)
  then have "take_number 13 (unread [0xff, 0x12, 0x03] 18) = Some (0x1897, unread [0xff, 0x12, 0x03] 5)"
    by (simp add: take_number_unread bits_between_def upt_rec bit_at_def bits_value_def bit_simps)
  with bit_readers [of 18 "[0xff, 0x12, 0x03]"] show ?thesis by simp
qed

text \<open>C24: every turn of the main loop reads at least nine bits, writes at least one byte and keeps the
  size of the buffer, so that the loop ends after at most as many turns as the input has bits over
  nine and the output has bytes.\<close>

theorem decompress_progress:
  assumes "r \<le> 8 * length input" and "pwrite < length out"
    and "layla_step input pwrite (cursor_at r) out = Inr (pwrite', c', out')"
  shows "\<exists>r'. c' = cursor_at r' \<and> r' + 9 \<le> r \<and> pwrite' < pwrite \<and> length out' = length out"
  using assms by (rule layla_step_uses)

theorem decompress_progress_witness:
  "\<exists>c' out'. layla_step [5, 0] 0x100 (cursor_at 16) (replicate 0x102 0) = Inr (0xff, c', out') \<and>
    length out' = 0x102"
proof -
  obtain c' out' where "layla_step [5, 0] 0x100 (cursor_at 16) (replicate 0x102 0) = Inr (0xff, c', out')"
    by (simp add: layla_step_def read_1_def read_8_def cursor_at_def retreat_def Let_def fetch_def update_byte_def)
  with decompress_progress [OF _ _ this] show ?thesis by auto
qed

text \<open>C8: an archive packed with Persona 5 Royal encryption and a table of contents extracts to its
  input: for every input file the reader with the same decryptor returns the file's bytes, or its
  expansion when the file was a compressed one, whatever order the entries are extracted from the
  freshly listed archive.\<close>

theorem encrypted_archive_extracts:
  assumes "write_with_profile (Some t) fs out files options profile = Inr (report, out')"
    and "contents out = []" and "files_sane fs" and "has_toc (index_mode profile)"
    and "unat (rep_content_offset report) < 2 ^ 32" and "texts_ok files profile"
    and "p5r_encryption options" and "\<forall>f \<in> set files. raw_payload f = None"
  shows "\<exists>offsets. length offsets = length files \<and>
    archive_extracts sjis (contents out') P5R_is_encrypted (P5R_decrypt_in_place t) fs files
      (map2 listed_file files offsets)"
  using toc_archive_reads_back [OF assms(1-6), of sjis] assms(7,8) reads_back_extracts by force

definition marked_files :: "cpk_input_file list" where
  "marked_files = map (\<lambda>f. f\<lparr>in_user_string := CRI_CFATTR_ENCRYPT\<rparr>) demo_files"

definition encrypting :: cpk_writer_options where
  "encrypting = default_options\<lparr>p5r_encryption := True\<rparr>"

lemma marked_ready: "\<forall>f \<in> set marked_files. payload_ready (Some t) demo_disk True f"
  by (simp add: payload_ready_def packed_payload_def marked_files_def demo_files_def demo_file_def
      demo_disk_def p5r_apply_def)

lemma marked_moderate: "moderate marked_files encrypting default_profile"
proof -
  have "\<exists>m < 16. unat (0x800 :: u16) = 2 ^ m" by (rule exI [of _ 11]) simp
  then show ?thesis
    by (simp add: moderate_def encrypting_def default_options_def default_profile_def
        names_length_def marked_files_def demo_files_def demo_file_def CRI_CFATTR_ENCRYPT_def)
qed

lemma marked_texts: "texts_ok marked_files default_profile"
proof -
  have "pool_strings_ok (map ascii [''7.0.0'', ''Created by cri-cpk-cli''])"
    "pool_strings_ok (map ascii [''d'', ''a.bin'', ''b.bin'', ''CRI_CFATTR:ENCRYPT''])"
    by (rule pool_strings_ok_ascii, simp add: ascii_text_def)+
  then show ?thesis
    by (simp add: texts_ok_def default_profile_def marked_files_def demo_files_def demo_file_def
        CRI_CFATTR_ENCRYPT_def) (simp add: pool_strings_ok_def ascii_def)
qed

definition demo_target :: target where
  "demo_target = \<lparr>arch = X86_64, has_avx2 = True, has_sse3 = True, has_neon = False\<rparr>"

theorem encrypted_archive_extracts_witness:
  "\<exists>report out' offsets.
     write_with_profile (Some demo_target) demo_disk \<lparr>contents = [], position = 0\<rparr> marked_files encrypting default_profile =
       Inr (report, out') \<and>
     archive_extracts (\<lambda>bs. bs) (contents out') P5R_is_encrypted (P5R_decrypt_in_place demo_target) demo_disk marked_files
       (map2 listed_file marked_files offsets)"
proof -
  from write_with_profile_ok [OF marked_moderate _ demo_sane, of "\<lparr>contents = [], position = 0\<rparr>" "Some demo_target"]
    marked_ready
  obtain report out' where w: "write_with_profile (Some demo_target) demo_disk \<lparr>contents = [], position = 0\<rparr> marked_files
      encrypting default_profile = Inr (report, out')" "unat (rep_content_offset report) < 2 ^ 32"
    by (auto simp: encrypting_def)
  have "has_toc (index_mode default_profile)" by (simp add: has_toc_def default_profile_def)
  moreover have "\<forall>f \<in> set marked_files. raw_payload f = None"
    by (simp add: marked_files_def demo_files_def demo_file_def)
  ultimately show ?thesis
    using encrypted_archive_extracts [OF w(1) _ demo_sane _ w(2) marked_texts, of "\<lambda>bs. bs"] w(1)
    by (auto simp: encrypting_def)
qed

section \<open>The command line\<close>


definition demo_host :: host where
  "demo_host =
     \<lparr>canonicalize = (\<lambda>p. None), current_dir = ascii ''/w'',
      read_dir = (\<lambda>d. if d = ascii ''d'' then Inr [(ascii ''s'', Type_dir), (ascii ''a'', Type_file)]
                      else if d = ascii ''d/s'' then Inr [(ascii ''b'', Type_file)]
                      else Inl (Io NotFound))\<rparr>"

definition demo_place :: "cpk_input_file \<Rightarrow> path" where
  "demo_place f = ascii ''o/d/'' @ in_file_name f"

lemma demo_archive:
  obtains report out' offsets where
    "write_with_profile (Some demo_target) demo_disk \<lparr>contents = [], position = 0\<rparr> marked_files encrypting default_profile =
       Inr (report, out')"
    and "unat (rep_content_offset report) < 2 ^ 32" and "length offsets = length marked_files"
    and "archive_reads_back (\<lambda>bs. []) (contents out') (Some demo_target) demo_disk True marked_files
      (map2 listed_file marked_files offsets)"
proof -
  from write_with_profile_ok [OF marked_moderate _ demo_sane, of "\<lparr>contents = [], position = 0\<rparr>" "Some demo_target"]
    marked_ready
  obtain report out' where w: "write_with_profile (Some demo_target) demo_disk \<lparr>contents = [], position = 0\<rparr> marked_files
      encrypting default_profile = Inr (report, out')" "unat (rep_content_offset report) < 2 ^ 32"
    by (auto simp: encrypting_def)
  have "has_toc (index_mode default_profile)" by (simp add: has_toc_def default_profile_def)
  from toc_archive_reads_back [OF w(1) _ demo_sane this w(2) marked_texts, of "\<lambda>bs. []"]
  obtain offsets where "archive_reads_back (\<lambda>bs. []) (contents out') (Some demo_target) demo_disk True marked_files
      (map2 listed_file marked_files offsets)" "length offsets = length marked_files"
    by (auto simp: encrypting_def)
  with w that show thesis by blast
qed

lemma marked_raw: "\<forall>f \<in> set marked_files. raw_payload f = None"
  by (simp add: marked_files_def demo_files_def demo_file_def)

lemma marked_content: "\<forall>f \<in> set marked_files. Option.bind (demo_disk (source_path f)) unpacked = Some [10, 20, 30]"
  by (simp add: marked_files_def demo_files_def demo_file_def demo_disk_def unpacked_def is_compressed_def
      LAYLA_HEADER_SIZE_def)

lemmas path_eval = path_components_def split_on.simps SLASH_def BACKSLASH_def ascii_def real_part_def
  part_component_def path_push_def name_components_def replace_backslash_def push_component_def

lemma marked_places:
  "\<forall>f \<in> set marked_files. safe_output_path (ascii ''o'') (in_directory f) (in_file_name f) = Inr (demo_place f) \<and>
     \<not> same_components (demo_place f) (Manifest_path (ascii ''o'')) \<and> demo_place f \<noteq> temporary_path (ascii ''o'')"
  "distinct (map demo_place marked_files)"
  by (simp_all add: marked_files_def demo_files_def demo_file_def demo_place_def safe_output_path_def path_eval
      same_components_def Manifest_path_def MANIFEST_FILE_NAME_def temporary_path_def)






text \<open>A directory that was unpacked, for the properties below.\<close>

lemma demo_unpacked:
  obtains archive rd offsets fs' where
    "unpack_with (\<lambda>bs. []) id demo_host 0 0 (\<lambda>i. 0) P5R_is_encrypted (P5R_decrypt_in_place demo_target)
       [ascii ''m.cpk'' \<mapsto> archive] (ascii ''m.cpk'') (ascii ''o'') True = Inr fs'"
    and "get_files (\<lambda>bs. []) (cpk_reader_new 0 \<lparr>contents = archive, position = 0\<rparr>) =
      (Inr (map2 listed_file marked_files offsets), rd)"
    and "length offsets = length marked_files"
    and "fs' (ascii ''o/d/a.bin'') = Some [10, 20, 30]"
proof -
  obtain report out' offsets where "write_with_profile (Some demo_target) demo_disk \<lparr>contents = [], position = 0\<rparr>
      marked_files encrypting default_profile = Inr (report, out')" "unat (rep_content_offset report) < 2 ^ 32"
    and len: "length offsets = length marked_files"
    and reads: "archive_reads_back (\<lambda>bs. []) (contents out') (Some demo_target) demo_disk True marked_files
      (map2 listed_file marked_files offsets)"
    by (rule demo_archive)
  have few: "length marked_files \<le> 2 ^ 32" by (simp add: marked_files_def demo_files_def)
  have land: "\<forall>i < length marked_files. lands (ascii ''o'') (map2 listed_file marked_files offsets ! i) (demo_place (marked_files ! i))"
    using marked_places(1) len by (simp add: lands_def destination_of_def)
  from unpack_reads_back [where fs = "[ascii ''m.cpk'' \<mapsto> contents out']" and input = "ascii ''m.cpk''" and avail = id
      and h = demo_host and slab_address = 0 and heap = 0 and memory = "\<lambda>i. 0" and flag = True and t = demo_target,
      OF reads marked_raw _ _ _ few marked_content _ land marked_places(2)] len
  obtain fs' where fs': "unpack_with (\<lambda>bs. []) id demo_host 0 0 (\<lambda>i. 0) P5R_is_encrypted (P5R_decrypt_in_place demo_target)
       [ascii ''m.cpk'' \<mapsto> contents out'] (ascii ''m.cpk'') (ascii ''o'') True = Inr fs'"
    and there: "\<forall>f \<in> set marked_files. fs' (demo_place f) = Some [10, 20, 30]"
    by (auto simp: cli_is_encrypted_def cli_decrypt_def)
  have "ascii ''o/d/a.bin'' \<in> demo_place ` set marked_files"
    by (simp add: marked_files_def demo_files_def demo_file_def demo_place_def ascii_def)
  with there have "fs' (ascii ''o/d/a.bin'') = Some [10, 20, 30]" by auto
  moreover from reads [unfolded archive_reads_back_def, THEN spec, of 0]
  obtain rd where "get_files (\<lambda>bs. []) (cpk_reader_new 0 \<lparr>contents = contents out', position = 0\<rparr>) =
      (Inr (map2 listed_file marked_files offsets), rd)" by (auto simp: Let_def split: prod.splits)
  ultimately show thesis using fs' len that by blast
qed



text \<open>C13: unpacking leaves a manifest that reads back: it names the archive by its absolute path, size
  and hash, and its entries are the listed files in order, each with the size and the hash of the
  file that was written for it, which a later rebuild will compare.  The destinations of the
  entries are distinct and none is the name of the temporary manifest.\<close>

theorem unpacked_manifest_describes:
  assumes "unpack_with sjis avail h slab_address heap memory is_encrypted_file decrypt_in_place fs input out p5r = Inr fs'"
    and "fs input = Some archive"
    and "get_files sjis (cpk_reader_new slab_address \<lparr>contents = archive, position = 0\<rparr>) = (Inr files, rd)"
    and "\<forall>bs. utf8_valid (sjis bs)" and "utf8_valid (absolute_path h input)"
    and "distinct (map (destination_of out) files)"
    and "Inr (temporary_path out) \<notin> set (map (destination_of out) files)"
  shows "\<exists>m. Manifest_read out fs' = Inr (Some m) \<and> mf_source_archive m = absolute_path h input \<and>
    mf_archive_size m = of_nat (length archive) \<and> mf_archive_hash m = hash_bytes archive \<and> mf_p5r m = p5r \<and>
    list_all2 (recorded_as out fs') (enumerate 0 files) (mf_entries m)"
  using assms by (rule unpacked_directory)

lemma marked_destinations:
  "length offsets = length marked_files \<Longrightarrow>
   map (destination_of (ascii ''o'')) (map2 listed_file marked_files offsets) = map (Inr \<circ> demo_place) marked_files"
  by (rule nth_equalityI) (use marked_places(1) in \<open>auto simp: destination_of_def\<close>)

theorem unpacked_manifest_describes_witness:
  "\<exists>fs' m. Manifest_read (ascii ''o'') fs' = Inr (Some m) \<and> mf_source_archive m = ascii ''/w/m.cpk'' \<and>
    length (mf_entries m) = 2"
proof -
  obtain archive rd offsets fs' where
    u: "unpack_with (\<lambda>bs. []) id demo_host 0 0 (\<lambda>i. 0) P5R_is_encrypted (P5R_decrypt_in_place demo_target)
       [ascii ''m.cpk'' \<mapsto> archive] (ascii ''m.cpk'') (ascii ''o'') True = Inr fs'"
    and g: "get_files (\<lambda>bs. []) (cpk_reader_new 0 \<lparr>contents = archive, position = 0\<rparr>) =
      (Inr (map2 listed_file marked_files offsets), rd)"
    and len: "length offsets = length marked_files" and "fs' (ascii ''o/d/a.bin'') = Some [10, 20, 30]"
    by (rule demo_unpacked)
  have abs: "absolute_path demo_host (ascii ''m.cpk'') = ascii ''/w/m.cpk''"
    by (simp add: absolute_path_def demo_host_def is_absolute_def path_push_def SLASH_def ascii_def)
  have two: "length (map2 listed_file marked_files offsets) = 2"
    using len by (simp add: marked_files_def demo_files_def)
  have "distinct (map (destination_of (ascii ''o'')) (map2 listed_file marked_files offsets))"
    "Inr (temporary_path (ascii ''o'')) \<notin> set (map (destination_of (ascii ''o'')) (map2 listed_file marked_files offsets))"
    unfolding marked_destinations [OF len] using marked_places
    by (auto simp: distinct_map inj_on_def)
  moreover have "utf8_valid (absolute_path demo_host (ascii ''m.cpk''))" by (simp add: abs) (simp add: ascii_def)
  ultimately show ?thesis
    using unpacked_manifest_describes [OF u _ g] two abs by (fastforce dest: list_all2_lengthD)
qed




text \<open>A manifest and a directory for the properties below.\<close>

definition demo_entry :: manifest_entry where
  "demo_entry =
     \<lparr>me_directory = ascii ''s'', me_file_name = ascii ''b'', me_id = 7, me_user_string = [],
      me_extracted_size = 1, me_extracted_hash = hash_bytes [4], me_packed_size = 9,
      me_packed_offset = 0x800, me_packed_hash = 5\<rparr>"

definition demo_manifest :: manifest where
  "demo_manifest =
     \<lparr>mf_source_archive = ascii ''m.cpk'', mf_archive_size = 0, mf_archive_hash = hash_bytes [], mf_alignment = 16,
      mf_has_toc = True, mf_has_itoc = False, mf_direct_itoc = False, mf_p5r = False, mf_version = 7,
      mf_revision = 2, mf_update_date_time = 1, mf_entries = [demo_entry]\<rparr>"

definition demo_tree :: "path \<rightharpoonup> bytes" where
  "demo_tree = [ascii ''d/a'' \<mapsto> [1, 2, 3], ascii ''d/s/b'' \<mapsto> [4]]"


text \<open>C12: a manifest that is written is read back unchanged, whatever was in the directory before; its
  source path and its names may hold any characters.\<close>

theorem manifest_round_trip:
  assumes "manifest_ok m"
  shows "Manifest_read root (Manifest_write m root fs) = Inr (Some m)"
  using assms by (rule manifest_reads_back)

theorem manifest_round_trip_witness:
  "Manifest_read (ascii ''d'') (Manifest_write demo_manifest (ascii ''d'') demo_tree) = Inr (Some demo_manifest)"
  by (rule manifest_round_trip)
    (simp add: manifest_ok_def manifest_entry_ok_def demo_manifest_def demo_entry_def ascii_def)

text \<open>C35: the hash of a file does not depend on how many bytes each read returns: it is the FNV-1a hash
  of the whole contents, the one the unpacker computes in memory.\<close>

theorem hash_file_of_contents:
  "hash_file avail p fs =
     (case fs p of None \<Rightarrow> Inl (Lib (Io NotFound)) | Some bs \<Rightarrow> Inr (of_nat (length bs), hash_bytes bs))"
  by (rule hash_file_eq)


lemmas walk_eval = absolute_path_def demo_host_def is_absolute_def excluded_paths_def Manifest_path_def
  MANIFEST_FILE_NAME_def LEGACY_MANIFEST_FILE_NAME_def same_components_def strip_prefix_def from_components_def
  path_file_name_def path_parent_def



text \<open>C3: unpacking an archive and packing the directory again gives an archive with the same entries: if
  \<open>unpack\<close> succeeded, with or without \<open>--p5r\<close>, and nothing else is in the directory, \<open>pack\<close> succeeds,
  and the new archive lists as many entries with the same directories, names, user strings and IDs
  in the same order (an entry without an ID gets its position), under the same kind of index and the
  same alignment; each new payload decrypts to what the old one decrypts and expands to.
  The index is a table of contents, an ID table or both.  \<open>rebuildable\<close> says which archives: of
  moderate size, with distinct usable names, and with an ID table also distinct IDs of 16 bits.  The
  example has both indexes.\<close>

theorem unpacked_archive_rebuilt:
  assumes "run_unpack sjis avail h slab_address heap memory t fs ([input, root] @ p5r_option p5r) = Inr fs'"
    and "fs input = Some archive"
    and "get_files sjis (cpk_reader_new slab_address \<lparr>contents = archive, position = 0\<rparr>) = (Inr files, rd)"
    and "rd_metadata rd = Some md"
    and "\<forall>bs. utf8_valid (sjis bs) \<and> (0 \<notin> set bs \<longrightarrow> 0 \<notin> set (sjis bs))"
    and "utf8_valid (absolute_path h input)"
    and "\<not> is_option input" and "\<not> is_option root" and "\<not> is_option target"
    and "collect_relative_files h' root target = Some (Inr found)"
    and "rebuildable root target fs' found md files" and "p5r \<Longrightarrow> encryption = Some t"
  shows "\<exists>archive'. run_pack avail' h' encryption fs' [root, target] = Some (Inr (fs'(target \<mapsto> archive'))) \<and>
    (\<forall>slab. \<exists>files' rd'. get_files sjis (cpk_reader_new slab \<lparr>contents = archive', position = 0\<rparr>) = (Inr files', rd') \<and>
       (\<exists>md'. rd_metadata rd' = Some md' \<and> same_profile md md') \<and> length files' = length files \<and>
       (\<forall>i < length files. same_entry i (files ! i) (files' ! i) \<and>
          same_payload (cli_is_encrypted p5r) (cli_decrypt p5r t) rd (files ! i) rd' (files' ! i)))"
  using assms by (rule unpack_and_pack)

definition output_host :: host where
  "output_host =
     \<lparr>canonicalize = (\<lambda>p. None), current_dir = ascii ''/w'',
      read_dir = (\<lambda>d. if d = ascii ''o'' then Inr [(ascii ''d'', Type_dir), (MANIFEST_FILE_NAME, Type_file)]
                      else if d = ascii ''o/d'' then Inr [(ascii ''a.bin'', Type_file), (ascii ''b.bin'', Type_file)]
                      else Inl (Io NotFound))\<rparr>"

lemma output_collects:
  "collect_relative_files output_host (ascii ''o'') (ascii ''n.cpk'') = Some (Inr [ascii ''d/a.bin'', ascii ''d/b.bin''])"
  by (simp add: collect_relative_files_def walk.simps relative_visit_def relative_entry_def output_host_def
      walk_eval path_eval)

lemma demo_places:
  "f \<in> set demo_files \<Longrightarrow> safe_relative_path (in_directory f) (in_file_name f) = Inr (ascii ''d/'' @ in_file_name f)"
  "f \<in> set demo_files \<Longrightarrow> path_push (ascii ''o'') (ascii ''d/'' @ in_file_name f) = demo_place f"
  "f \<in> set demo_files \<Longrightarrow> lands (ascii ''o'') (listed_file f off) (demo_place f)"
  "distinct (map demo_place demo_files)"
  by (auto simp: demo_files_def demo_file_def demo_place_def safe_relative_path_def safe_output_path_def path_eval
      lands_def destination_of_def same_components_def Manifest_path_def MANIFEST_FILE_NAME_def temporary_path_def)

lemma demo_plain:
  obtains archive rd md offsets where
    "get_files (\<lambda>bs. []) (cpk_reader_new 0 \<lparr>contents = archive, position = 0\<rparr>) = (Inr (map2 listed_file demo_files offsets), rd)"
    and "rd_metadata rd = Some md" and "md_align md = 0x800" and "md_toc_offset md \<noteq> 0" and "md_itoc_offset md \<noteq> 0"
    and "length offsets = length demo_files"
    and "\<And>i. i < length demo_files \<Longrightarrow>
      \<exists>rd'. read_packed_file rd (map2 listed_file demo_files offsets ! i) = Inr ([10, 20, 30], rd')"
    and "length archive < 2 ^ 64"
proof -
  from write_with_profile_ok [OF demo_moderate(3) _ demo_sane demo_ready, of "\<lparr>contents = [], position = 0\<rparr>"]
  obtain report out' where w: "write_with_profile None demo_disk \<lparr>contents = [], position = 0\<rparr> demo_files
      default_options both_profile = Inr (report, out')" "unat (rep_content_offset report) < 2 ^ 32" by auto
  have modes: "has_toc (index_mode both_profile)" "has_itoc (index_mode both_profile)"
    by (simp_all add: has_toc_def has_itoc_def both_profile_def)
  from toc_archive_reads_back [OF w(1) _ demo_sane modes(1) w(2) demo_texts(2), of "\<lambda>bs. []"] obtain offsets where
    reads: "archive_reads_back (\<lambda>bs. []) (contents out') None demo_disk False demo_files (map2 listed_file demo_files offsets)"
    and len: "length offsets = length demo_files" by (auto simp: default_options_def)
  from reads [unfolded archive_reads_back_def, THEN spec, of 0] obtain rd where
    g: "get_files (\<lambda>bs. []) (cpk_reader_new 0 \<lparr>contents = contents out', position = 0\<rparr>) = (Inr (map2 listed_file demo_files offsets), rd)"
    and r: "\<forall>i < length demo_files. \<exists>bs rd'. read_packed_file rd (map2 listed_file demo_files offsets ! i) = Inr (bs, rd') \<and>
      packed_payload None demo_disk False (demo_files ! i) = Some bs"
    by (auto simp: Let_def split: prod.splits)
  have "packed_payload None demo_disk False f = Some [10, 20, 30]" if "f \<in> set demo_files" for f
    using that by (auto simp: packed_payload_def demo_files_def demo_file_def demo_disk_def)
  with r have read: "\<And>i. i < length demo_files \<Longrightarrow>
      \<exists>rd'. read_packed_file rd (map2 listed_file demo_files offsets ! i) = Inr ([10, 20, 30], rd')" by fastforce
  have "pool_strings_ok [tvers both_profile, comment both_profile]" using demo_texts(2) by (simp add: texts_ok_def)
  from written_metadata [OF w(1) _ demo_sane this g] modes obtain md where
    "rd_metadata rd = Some md" "md_align md = 0x800" "md_toc_offset md \<noteq> 0" "md_itoc_offset md \<noteq> 0"
    by (auto simp: default_options_def)
  moreover have "length (contents out') < 2 ^ 64" using write_with_profile_stores [OF w(1) _ demo_sane] by auto
  ultimately show thesis using g len read that by blast
qed

lemma demo_dests:
  "length offsets = length demo_files \<Longrightarrow>
   map (destination_of (ascii ''o'')) (map2 listed_file demo_files offsets) = map (Inr \<circ> demo_place) demo_files"
  using demo_places(3) by (intro nth_equalityI) (auto simp: lands_def)

lemma demo_listed:
  assumes "length offsets = length demo_files" and "e \<in> set (map2 listed_file demo_files offsets)"
  obtains i where "i < length demo_files" and "demo_files ! i \<in> set demo_files"
    and "e = listed_file (demo_files ! i) (offsets ! i)" and "e = map2 listed_file demo_files offsets ! i"
proof -
  from assms(2) obtain i where "i < length (map2 listed_file demo_files offsets)" "e = map2 listed_file demo_files offsets ! i"
    by (auto simp only: in_set_conv_nth)
  with assms(1) nth_mem [of i demo_files] that show thesis by simp
qed

lemma demo_rebuildable:
  assumes len: "length offsets = length demo_files"
    and md: "md_align md = 0x800"
    and there: "\<forall>f \<in> set demo_files. fs' (demo_place f) = Some [10, 20, 30]"
  shows "rebuildable (ascii ''o'') (ascii ''n.cpk'') fs' [ascii ''d/a.bin'', ascii ''d/b.bin''] md
    (map2 listed_file demo_files offsets)"
proof -
  let ?entries = "map2 listed_file demo_files offsets"
  have two: "length ?entries = 2" using len by (simp add: demo_files_def)
  have good: "file_name e \<noteq> [] \<and> id_opt e \<noteq> Some (- 1) \<and>
      (\<exists>r. safe_relative_path (directory e) (file_name e) = Inr r \<and> path_push (ascii ''o'') r \<noteq> ascii ''n.cpk'' \<and>
         path_push (ascii ''o'') r \<noteq> temporary_path (ascii ''o'') \<and>
         (\<forall>bs. fs' (path_push (ascii ''o'') r) = Some bs \<longrightarrow> length bs < 2 ^ 32))" if e: "e \<in> set ?entries" for e
  proof -
    from demo_listed [OF len e] obtain f off where f: "f \<in> set demo_files" "e = listed_file f off" by metis
    have "demo_place f \<noteq> ascii ''n.cpk''" "in_file_name f \<noteq> []" "in_id f \<noteq> - 1"
      using f(1) by (auto simp: demo_files_def demo_file_def demo_place_def ascii_def)
    moreover have "demo_place f \<noteq> temporary_path (ascii ''o'')" using demo_places(3) [OF f(1)] by (simp add: lands_def)
    ultimately show ?thesis
      using there demo_places(1,2) [OF f(1)] f by (simp add: listed_file_def cpk_file_new_def)
  qed
  have found: "\<exists>e \<in> set ?entries. \<exists>q. safe_relative_path (directory e) (file_name e) = Inr q \<and> same_components q r"
    if r: "r \<in> set [ascii ''d/a.bin'', ascii ''d/b.bin'']" for r
  proof -
    from r have "r \<in> (\<lambda>f. ascii ''d/'' @ in_file_name f) ` set demo_files"
      by (auto simp: demo_files_def demo_file_def ascii_def)
    then obtain i where i: "i < length demo_files" "r = ascii ''d/'' @ in_file_name (demo_files ! i)"
      by (auto simp: in_set_conv_nth)
    with len have at: "?entries ! i = listed_file (demo_files ! i) (offsets ! i)" by simp
    have "?entries ! i \<in> set ?entries" using i(1) len by (intro nth_mem) simp
    with at i demo_places(1) [OF nth_mem [OF i(1)]] show ?thesis by (metis listed_names same_components_def)
  qed
  have "sum_list (map (\<lambda>f. length (directory f) + length (file_name f) + length (user_string f)) ?entries) = names_length demo_files"
    unfolding names_length_def using len by (intro arg_cong [where f = sum_list] nth_equalityI) (simp_all add: listed_file_def cpk_file_new_def)
  then have "sum_list (map (\<lambda>f. length (directory f) + length (file_name f) + length (user_string f)) ?entries) \<le> 2 ^ 28"
    using demo_moderate(1) by (simp add: moderate_def)
  moreover have "\<exists>k < 16. unat (max (md_align md) 1) = 2 ^ k" unfolding md by (rule exI [of _ 11]) simp
  moreover have "distinct (map (destination_of (ascii ''o'')) ?entries)"
    unfolding demo_dests [OF len] using demo_places(4) by (simp add: distinct_map inj_on_def)
  moreover have "distinct (map2 given_id [0..<length ?entries] ?entries) \<and>
      (\<forall>i < length ?entries. unat (given_id i (?entries ! i)) < 2 ^ 16)"
  proof -
    have ids: "given_id i (?entries ! i) = in_id (demo_files ! i)" if "i < length demo_files" for i
      using that len by (simp add: given_id_def listed_file_def cpk_file_new_def)
    have "map2 given_id [0..<length ?entries] ?entries = map in_id demo_files"
      using len ids by (intro nth_equalityI) simp_all
    moreover have "distinct (map in_id demo_files) \<and> (\<forall>f \<in> set demo_files. unat (in_id f) < 2 ^ 16)"
      by (simp add: demo_files_def demo_file_def)
    ultimately show ?thesis using ids len by simp
  qed
  moreover have "?entries \<noteq> []" using two by (metis list.size(3) zero_neq_numeral)
  moreover have "length ?entries \<le> 2 ^ 20" unfolding two by simp
  ultimately show ?thesis unfolding rebuildable_def using good found by blast
qed

lemma demo_plain_unpacked:
  assumes len: "length offsets = length demo_files"
    and g: "get_files (\<lambda>bs. []) (cpk_reader_new 0 \<lparr>contents = archive, position = 0\<rparr>) = (Inr (map2 listed_file demo_files offsets), rd)"
    and read: "\<And>i. i < length demo_files \<Longrightarrow>
      \<exists>rd'. read_packed_file rd (map2 listed_file demo_files offsets ! i) = Inr ([10, 20, 30], rd')"
    and input: "\<not> is_option input"
  obtains fs' where "run_unpack (\<lambda>bs. []) id demo_host 0 0 (\<lambda>i. 0) demo_target [input \<mapsto> archive]
      ([input, ascii ''o''] @ p5r_option False) = Inr fs'"
    and "\<not> inside (ascii ''o'') input \<longrightarrow> fs' input = Some archive"
    and "\<forall>f \<in> set demo_files. fs' (demo_place f) = Some [10, 20, 30]"
proof -
  let ?entries = "map2 listed_file demo_files offsets" and ?fs = "[input \<mapsto> archive]"
  have ext: "cli.extracts_to False demo_target rd (?entries ! i) [10, 20, 30]" if "i < length demo_files" for i
    using read [OF that] by (auto simp: cli.extracts_to_def unpacked_def is_compressed_def LAYLA_HEADER_SIZE_def)
  have good: "\<forall>e \<in> set ?entries. (\<exists>p. lands (ascii ''o'') e p) \<and> (\<exists>bs. cli.extracts_to False demo_target rd e bs)"
    using demo_listed [OF len] ext demo_places(3) by metis
  have distinct: "distinct (map (destination_of (ascii ''o'')) ?entries)"
    unfolding demo_dests [OF len] using demo_places(4) by (simp add: distinct_map inj_on_def)
  have "length ?entries \<le> 2 ^ 32" using len by (simp add: demo_files_def)
  from cli.unpack_with_restores [OF _ g this good distinct, of ?fs input id demo_host 0 "\<lambda>i. 0" False]
  obtain fs' where un: "unpack_with (\<lambda>bs. []) id demo_host 0 0 (\<lambda>i. 0) (cli_is_encrypted False) (cli_decrypt False demo_target) ?fs
      input (ascii ''o'') False = Inr fs'"
    and there: "\<forall>e \<in> set ?entries. \<forall>p bs. lands (ascii ''o'') e p \<longrightarrow> cli.extracts_to False demo_target rd e bs \<longrightarrow> fs' p = Some bs"
    by auto
  have "fs' (demo_place f) = Some [10, 20, 30]" if "f \<in> set demo_files" for f
  proof -
    from that obtain i where i: "i < length demo_files" "f = demo_files ! i" by (auto simp: in_set_conv_nth)
    have "?entries ! i \<in> set ?entries" using i(1) len by (intro nth_mem) simp
    moreover have "lands (ascii ''o'') (?entries ! i) (demo_place f)" using demo_places(3) [OF that] i len by simp
    ultimately show ?thesis using there ext [OF i(1)] by blast
  qed
  moreover have "fs' input = Some archive" if "\<not> inside (ascii ''o'') input"
    using unpack_changes_inside [OF un, of input] that by auto
  moreover have "\<not> is_option (ascii ''o'')" by (simp add: is_option_def ascii_def)
  ultimately show thesis using that un run_unpack_plain [OF input] by metis
qed

theorem unpacked_archive_rebuilt_witness:
  "\<exists>archive fs' archive'.
     run_unpack (\<lambda>bs. []) id demo_host 0 0 (\<lambda>i. 0) demo_target [ascii ''m.cpk'' \<mapsto> archive]
       ([ascii ''m.cpk'', ascii ''o''] @ p5r_option False) = Inr fs' \<and>
     run_pack id output_host None fs' [ascii ''o'', ascii ''n.cpk''] = Some (Inr (fs'(ascii ''n.cpk'' \<mapsto> archive'))) \<and>
     (\<exists>files rd. get_files (\<lambda>bs. []) (cpk_reader_new 0 \<lparr>contents = archive', position = 0\<rparr>) = (Inr files, rd) \<and>
        length files = 2 \<and> id_opt (files ! 0) = Some 7 \<and>
        (\<exists>md. rd_metadata rd = Some md \<and> md_toc_offset md \<noteq> 0 \<and> md_itoc_offset md \<noteq> 0))"
proof -
  obtain archive rd md offsets where
    g: "get_files (\<lambda>bs. []) (cpk_reader_new 0 \<lparr>contents = archive, position = 0\<rparr>) = (Inr (map2 listed_file demo_files offsets), rd)"
    and md: "rd_metadata rd = Some md" "md_align md = 0x800" "md_toc_offset md \<noteq> 0" "md_itoc_offset md \<noteq> 0"
    and len: "length offsets = length demo_files"
    and read: "\<And>i. i < length demo_files \<Longrightarrow>
      \<exists>rd'. read_packed_file rd (map2 listed_file demo_files offsets ! i) = Inr ([10, 20, 30], rd')"
    by (rule demo_plain) blast
  let ?entries = "map2 listed_file demo_files offsets" and ?fs = "[ascii ''m.cpk'' \<mapsto> archive]"
  obtain fs' where run: "run_unpack (\<lambda>bs. []) id demo_host 0 0 (\<lambda>i. 0) demo_target ?fs
      ([ascii ''m.cpk'', ascii ''o''] @ p5r_option False) = Inr fs'"
    and there: "\<forall>f \<in> set demo_files. fs' (demo_place f) = Some [10, 20, 30]"
    by (rule demo_plain_unpacked [OF len g read, of "ascii ''m.cpk''"]) (simp_all add: is_option_def ascii_def)
  have two: "length ?entries = 2" using len by (simp add: demo_files_def)
  have names: "\<not> is_option (ascii ''m.cpk'')" "\<not> is_option (ascii ''o'')" "\<not> is_option (ascii ''n.cpk'')"
    by (simp_all add: is_option_def ascii_def)
  have abs: "utf8_valid (absolute_path demo_host (ascii ''m.cpk''))"
    by (simp add: absolute_path_def demo_host_def is_absolute_def path_push_def SLASH_def ascii_def)
  have sjis: "\<forall>bs. utf8_valid ((\<lambda>bs :: bytes. []) bs) \<and> (0 \<notin> set bs \<longrightarrow> 0 \<notin> set ((\<lambda>bs :: bytes. []) bs))" by simp
  have source: "?fs (ascii ''m.cpk'') = Some archive" by simp
  have "\<exists>archive'. run_pack id output_host None fs' [ascii ''o'', ascii ''n.cpk''] = Some (Inr (fs'(ascii ''n.cpk'' \<mapsto> archive'))) \<and>
    (\<forall>slab. \<exists>files' rd'. get_files (\<lambda>bs. []) (cpk_reader_new slab \<lparr>contents = archive', position = 0\<rparr>) = (Inr files', rd') \<and>
       (\<exists>md'. rd_metadata rd' = Some md' \<and> same_profile md md') \<and> length files' = length ?entries \<and>
       (\<forall>i < length ?entries. same_entry i (?entries ! i) (files' ! i) \<and>
          same_payload (cli_is_encrypted False) (cli_decrypt False demo_target) rd (?entries ! i) rd' (files' ! i)))"
    by (rule unpacked_archive_rebuilt [OF run source g md(1) sjis abs names output_collects
          demo_rebuildable [OF len md(2) there]]) simp
  then obtain archive' files' rd' where
    p: "run_pack id output_host None fs' [ascii ''o'', ascii ''n.cpk''] = Some (Inr (fs'(ascii ''n.cpk'' \<mapsto> archive')))"
    and l: "get_files (\<lambda>bs. []) (cpk_reader_new 0 \<lparr>contents = archive', position = 0\<rparr>) = (Inr files', rd')"
      "length files' = 2" "same_entry 0 (?entries ! 0) (files' ! 0)"
      "\<exists>md'. rd_metadata rd' = Some md' \<and> same_profile md md'"
    unfolding two by (metis zero_less_numeral)
  then have "id_opt (files' ! 0) = Some 7"
    using len by (simp add: same_entry_def given_id_def listed_file_def cpk_file_new_def demo_files_def demo_file_def)
  moreover from l(4) md(3,4) have "\<exists>md. rd_metadata rd' = Some md \<and> md_toc_offset md \<noteq> 0 \<and> md_itoc_offset md \<noteq> 0"
    by (auto simp: same_profile_def)
  ultimately show ?thesis using run p l(1,2) by blast
qed

text \<open>C14: with \<open>--reuse-raw-entries\<close> the rebuild of an unpacked archive does not touch the payloads: if the
  archive is still there under the path the manifest holds, and it is not the target, \<open>pack\<close> succeeds
  (no encryption kernel is needed, even after \<open>--p5r\<close>) and the new archive lists the same entries,
  each with exactly the packed bytes it had in the old one.\<close>

theorem reuse_keeps_payloads:
  assumes "run_unpack sjis avail h slab_address heap memory t fs ([input, root] @ p5r_option p5r) = Inr fs'"
    and "fs input = Some archive"
    and "get_files sjis (cpk_reader_new slab_address \<lparr>contents = archive, position = 0\<rparr>) = (Inr files, rd)"
    and "rd_metadata rd = Some md"
    and "\<forall>bs. utf8_valid (sjis bs) \<and> (0 \<notin> set bs \<longrightarrow> 0 \<notin> set (sjis bs))"
    and "utf8_valid (absolute_path h input)"
    and "\<not> is_option input" and "\<not> is_option root" and "\<not> is_option target"
    and "collect_relative_files h' root target = Some (Inr found)"
    and "rebuildable root target fs' found md files"
    and "fs' (absolute_path h input) = Some archive" and "length archive < 2 ^ 64"
    and "\<not> same_path h' (absolute_path h input) target"
  shows "\<exists>archive'. run_pack avail' h' encryption fs' [root, target, ascii ''--reuse-raw-entries''] =
      Some (Inr (fs'(target \<mapsto> archive'))) \<and>
    (\<forall>slab. \<exists>files' rd'. get_files sjis (cpk_reader_new slab \<lparr>contents = archive', position = 0\<rparr>) = (Inr files', rd') \<and>
       (\<exists>md'. rd_metadata rd' = Some md' \<and> same_profile md md') \<and> length files' = length files \<and>
       (\<forall>i < length files. same_entry i (files ! i) (files' ! i) \<and> same_packed rd (files ! i) rd' (files' ! i)))"
  using assms by (rule unpack_and_pack_raw)

theorem reuse_keeps_payloads_witness:
  "\<exists>archive fs' archive' files rd' rd''.
     run_unpack (\<lambda>bs. []) id demo_host 0 0 (\<lambda>i. 0) demo_target [ascii ''/m.cpk'' \<mapsto> archive]
       ([ascii ''/m.cpk'', ascii ''o''] @ p5r_option False) = Inr fs' \<and>
     run_pack id output_host None fs' [ascii ''o'', ascii ''n.cpk'', ascii ''--reuse-raw-entries''] =
       Some (Inr (fs'(ascii ''n.cpk'' \<mapsto> archive'))) \<and>
     get_files (\<lambda>bs. []) (cpk_reader_new 0 \<lparr>contents = archive', position = 0\<rparr>) = (Inr files, rd') \<and>
     read_packed_file rd' (files ! 0) = Inr ([10, 20, 30], rd'')"
proof -
  obtain archive rd md offsets where
    g: "get_files (\<lambda>bs. []) (cpk_reader_new 0 \<lparr>contents = archive, position = 0\<rparr>) = (Inr (map2 listed_file demo_files offsets), rd)"
    and md: "rd_metadata rd = Some md" "md_align md = 0x800" "md_toc_offset md \<noteq> 0" "md_itoc_offset md \<noteq> 0"
    and len: "length offsets = length demo_files"
    and read: "\<And>i. i < length demo_files \<Longrightarrow>
      \<exists>rd'. read_packed_file rd (map2 listed_file demo_files offsets ! i) = Inr ([10, 20, 30], rd')"
    and small: "length archive < 2 ^ 64"
    by (rule demo_plain) blast
  let ?entries = "map2 listed_file demo_files offsets" and ?fs = "[ascii ''/m.cpk'' \<mapsto> archive]"
  have names: "\<not> is_option (ascii ''/m.cpk'')" "\<not> is_option (ascii ''o'')" "\<not> is_option (ascii ''n.cpk'')"
    by (simp_all add: is_option_def ascii_def)
  have abs: "absolute_path demo_host (ascii ''/m.cpk'') = ascii ''/m.cpk''"
    by (simp add: absolute_path_def demo_host_def is_absolute_def SLASH_def ascii_def)
  have outside: "\<not> inside (ascii ''o'') (ascii ''/m.cpk'')" by (auto simp: inside_def path_eval)
  obtain fs' where run: "run_unpack (\<lambda>bs. []) id demo_host 0 0 (\<lambda>i. 0) demo_target ?fs
      ([ascii ''/m.cpk'', ascii ''o''] @ p5r_option False) = Inr fs'"
    and kept: "\<not> inside (ascii ''o'') (ascii ''/m.cpk'') \<longrightarrow> fs' (ascii ''/m.cpk'') = Some archive"
    and there: "\<forall>f \<in> set demo_files. fs' (demo_place f) = Some [10, 20, 30]"
    by (rule demo_plain_unpacked [OF len g read names(1)])
  have here: "fs' (absolute_path demo_host (ascii ''/m.cpk'')) = Some archive" unfolding abs using kept outside by blast
  have utf8: "utf8_valid (absolute_path demo_host (ascii ''/m.cpk''))" unfolding abs by (simp add: ascii_def)
  have other: "\<not> same_path output_host (absolute_path demo_host (ascii ''/m.cpk'')) (ascii ''n.cpk'')"
    unfolding abs by (simp add: same_path_def output_host_def walk_eval path_eval)
  have sjis: "\<forall>bs. utf8_valid ((\<lambda>bs :: bytes. []) bs) \<and> (0 \<notin> set bs \<longrightarrow> 0 \<notin> set ((\<lambda>bs :: bytes. []) bs))" by simp
  have source: "?fs (ascii ''/m.cpk'') = Some archive" by simp
  have two: "length ?entries = 2" using len by (simp add: demo_files_def)
  from reuse_keeps_payloads [OF run source g md(1) sjis utf8 names output_collects
      demo_rebuildable [OF len md(2) there] here small other, of id None]
  obtain archive' files' rd' where
    p: "run_pack id output_host None fs' [ascii ''o'', ascii ''n.cpk'', ascii ''--reuse-raw-entries''] =
      Some (Inr (fs'(ascii ''n.cpk'' \<mapsto> archive')))"
    and l: "get_files (\<lambda>bs. []) (cpk_reader_new 0 \<lparr>contents = archive', position = 0\<rparr>) = (Inr files', rd')"
      "same_packed rd (?entries ! 0) rd' (files' ! 0)"
    unfolding two by (metis zero_less_numeral)
  moreover have "0 < length demo_files" by (simp add: demo_files_def)
  from read [OF this] l(2) obtain rd'' where "read_packed_file rd' (files' ! 0) = Inr ([10, 20, 30], rd'')"
    by (auto simp: same_packed_def)
  ultimately show ?thesis using run by blast
qed

text \<open>C19: the packer on a directory: the archive it writes lists exactly the collected files, sorted by
  their upper case path with IDs counting from 0, and reading an entry returns the bytes of its file
  on disk.\<close>

theorem directory_packs:
  assumes "pack_directory h None fs root output_file options = Some (Inr (report, fs'))"
    and "collect_files h fs root output_file = Some (Inr files)"
    and "p5r_encryption options = False" and "files_sane (fs(output_file \<mapsto> []))"
    and "unat (rep_content_offset report) < 2 ^ 32" and "texts_ok files default_profile"
  shows "sorted (map engine_path_key files) \<and> map in_id files = map of_nat [0..<length files] \<and>
    (\<forall>f \<in> set files. collected fs f) \<and>
    (\<exists>archive offsets. fs' = fs(output_file \<mapsto> archive) \<and> length offsets = length files \<and>
      archive_reads_back sjis archive None (fs(output_file \<mapsto> [])) False files (map2 listed_file files offsets))"
proof -
  from pack_directory_Inr [OF assms(1)] assms(2) obtain out where
    w: "write_with_profile None (fs(output_file \<mapsto> [])) \<lparr>contents = [], position = 0\<rparr> files options
      default_profile = Inr (report, out)" and fs': "fs' = fs(output_file \<mapsto> contents out)"
    by (metis option.inject sum.inject(2))
  have toc: "has_toc (index_mode default_profile)" by (simp add: has_toc_def default_profile_def)
  from toc_archive_reads_back [OF w _ assms(4) toc assms(5,6), of sjis] obtain offsets where
    "archive_reads_back sjis (contents out) None (fs(output_file \<mapsto> [])) False files (map2 listed_file files offsets)"
    "length offsets = length files" by (auto simp: assms(3))
  with fs' have "\<exists>archive offsets. fs' = fs(output_file \<mapsto> archive) \<and> length offsets = length files \<and>
      archive_reads_back sjis archive None (fs(output_file \<mapsto> [])) False files (map2 listed_file files offsets)"
    by blast
  with collect_files_ok [OF assms(2)] show ?thesis by blast
qed

definition tree_files :: "cpk_input_file list" where
  "tree_files =
     [\<lparr>in_directory = [], in_file_name = ascii ''a'', source_path = ascii ''d/a'', in_size = 3, in_extract_size = 3,
       in_id = 0, in_user_string = [], raw_payload = None\<rparr>,
      \<lparr>in_directory = ascii ''s'', in_file_name = ascii ''b'', source_path = ascii ''d/s/b'', in_size = 1,
       in_extract_size = 1, in_id = 1, in_user_string = [], raw_payload = None\<rparr>]"

lemma tree_collected: "collect_files demo_host demo_tree (ascii ''d'') (ascii ''x'') = Some (Inr tree_files)"
  by (simp add: collect_files_def walk.simps writer_visit_def writer_entry_def walk_eval path_eval demo_tree_def
      writer_path_to_cri_string_def try_from_nat_def number_file_def engine_path_key_def make_ascii_uppercase_def
      tree_files_def Let_def)

theorem directory_packs_witness:
  "\<exists>report archive offsets. pack_directory demo_host None demo_tree (ascii ''d'') (ascii ''x'') default_options =
      Some (Inr (report, demo_tree(ascii ''x'' \<mapsto> archive))) \<and>
    archive_reads_back (\<lambda>bs. []) archive None (demo_tree(ascii ''x'' \<mapsto> [])) False tree_files
      (map2 listed_file tree_files offsets)"
proof -
  let ?fs = "demo_tree(ascii ''x'' \<mapsto> [])"
  have sane: "files_sane ?fs" by (simp add: files_sane_def demo_tree_def)
  have "\<exists>m < 16. unat (0x800 :: u16) = 2 ^ m" by (rule exI [of _ 11]) simp
  then have moderate: "moderate tree_files default_options default_profile"
    by (simp add: moderate_def default_options_def default_profile_def names_length_def tree_files_def)
  have ready: "\<forall>f \<in> set tree_files. payload_ready None ?fs False f"
    by (simp add: payload_ready_def packed_payload_def tree_files_def demo_tree_def CRI_CFATTR_ENCRYPT_def)
  have "pool_strings_ok (map ascii [''7.0.0'', ''Created by cri-cpk-cli''])"
    "pool_strings_ok (map ascii [''s'', ''a'', ''b'', []])"
    by (rule pool_strings_ok_ascii, simp add: ascii_text_def)+
  then have texts: "texts_ok tree_files default_profile"
    by (simp add: texts_ok_def default_profile_def tree_files_def) (simp add: pool_strings_ok_def ascii_def)
  have plain: "p5r_encryption default_options = False" by (simp add: default_options_def)
  from write_with_profile_ok [OF moderate _ sane, of "\<lparr>contents = [], position = 0\<rparr>" None] ready plain
  obtain report out' where w: "write_with_profile None ?fs \<lparr>contents = [], position = 0\<rparr> tree_files default_options default_profile =
      Inr (report, out')" "unat (rep_content_offset report) < 2 ^ 32" by auto
  have "\<exists>u. validate_alignment (alignment default_options) = Inr u"
    by (simp add: validate_alignment_def default_options_def is_power_of_two_def)
  then have packed: "pack_directory demo_host None demo_tree (ascii ''d'') (ascii ''x'') default_options =
      Some (Inr (report, demo_tree(ascii ''x'' \<mapsto> contents out')))"
    using w(1) by (auto simp: pack_directory_def pack_files_def pack_files_with_profile_def tree_collected tree_files_def)
  from directory_packs [OF packed tree_collected plain sane w(2) texts, of "\<lambda>bs. []"] packed
  show ?thesis by (auto dest: map_upd_eqD1)
qed

text \<open>C26: packing a directory tree terminates: if every directory ranks above its subdirectories, as in
  any finite tree without cycles, \<open>pack_directory\<close> returns a result.\<close>

theorem packing_returns:
  fixes rank :: "path \<Rightarrow> nat"
  assumes "\<And>d entries n. read_dir h d = Inr entries \<Longrightarrow> (n, Type_dir) \<in> set entries \<Longrightarrow>
    rank (path_push d n) < rank d"
  shows "\<exists>r. pack_directory h p5r fs root output_file options = Some r"
  using assms by (rule pack_directory_returns)

theorem packing_returns_witness:
  "\<exists>r. pack_directory demo_host None demo_tree (ascii ''d'') (ascii ''x'') default_options = Some r"
  by (rule packing_returns [where rank = "\<lambda>d. if d = ascii ''d'' then 1 else 0"])
    (auto simp: demo_host_def path_push_def SLASH_def ascii_def split: if_splits)





section \<open>Listings and cue sheets\<close>

text \<open>C31: every string of a listing is valid UTF-8, the invariant of \<open>String\<close>, whatever the archive holds;
  the Shift-JIS decoder is only assumed to return a \<open>String\<close>.\<close>

theorem listed_strings:
  assumes "\<forall>bs. utf8_valid (sjis bs)" and "get_files sjis rd = (Inr files, rd')"
  shows "\<forall>f \<in> set files. utf8_valid (directory f) \<and> utf8_valid (file_name f) \<and> utf8_valid (user_string f)"
  using listed_texts_valid [OF assms] by (simp add: texts_valid_def)

theorem listed_strings_witness:
  "\<exists>rd files rd'. get_files (\<lambda>bs. []) rd = (Inr files, rd') \<and> length files = 2 \<and>
     (\<forall>f \<in> set files. utf8_valid (file_name f))"
proof -
  obtain archive rd offsets fs' where
    "unpack_with (\<lambda>bs. []) id demo_host 0 0 (\<lambda>i. 0) P5R_is_encrypted (P5R_decrypt_in_place demo_target)
       [ascii ''m.cpk'' \<mapsto> archive] (ascii ''m.cpk'') (ascii ''o'') True = Inr fs'"
    and g: "get_files (\<lambda>bs. []) (cpk_reader_new 0 \<lparr>contents = archive, position = 0\<rparr>) =
      (Inr (map2 listed_file marked_files offsets), rd)"
    and len: "length offsets = length marked_files" and "fs' (ascii ''o/d/a.bin'') = Some [10, 20, 30]"
    by (rule demo_unpacked)
  have "length (map2 listed_file marked_files offsets) = 2"
    using len by (simp add: marked_files_def demo_files_def)
  with listed_strings [OF _ g] g show ?thesis by fastforce
qed

text \<open>C34: the cue sheet reader's table constructor panics in exactly one situation: its columns can be
  read, and the string and data pools are out of order or end behind the buffer.\<close>

theorem cue_table_panics:
  "acb_table_new sjis alloc = Inl Panic \<longleftrightarrow>
     (\<exists>columns cursor. column_new_list \<lparr>contents = alloc, position = HEADER_SIZE\<rparr> (table_header_new alloc) =
        Inr (columns, cursor)) \<and>
     \<not> (unat (th_string_pool_offset (table_header_new alloc)) \<le> unat (th_data_pool_offset (table_header_new alloc)) \<and>
        unat (th_data_pool_offset (table_header_new alloc)) \<le> length alloc)"
  by (rule acb_table_panics_iff)

text \<open>C33: on every table the archive reader accepts, the cue sheet reader's own table type reads the same
  header, strings and rows.\<close>

theorem cue_table_agrees:
  assumes "high_table_new sjis alloc = Inr t"
  shows "\<exists>a. acb_table_new sjis alloc = Inr a \<and> at_header a = ht_header t \<and> at_strings a = ht_strings t \<and>
    at_rows a = ht_rows t \<and> at_indices a = column_indices (ht_strings t) (ht_columns t)"
  using assms by (rule acb_table_agrees)

theorem cue_table_agrees_witness:
  "\<exists>t ht a. build demo_table = Inr t \<and> high_table_new (\<lambda>bs. bs) t = Inr ht \<and> acb_table_new (\<lambda>bs. bs) t = Inr a \<and>
     at_rows a = ht_rows ht \<and> length (at_rows a) = 2"
proof -
  obtain t where t: "build demo_table = Inr t" "length t < 2 ^ 32" using demo_table_builds by blast
  from build_read_back_shows [OF t(1) demo_table_strings t(2), of "\<lambda>bs. bs"] obtain ht where
    ht: "high_table_new (\<lambda>bs. bs) t = Inr ht" "table_shows ht demo_table" by blast
  have "length (ht_rows ht) = 2"
    using ht(2) by (simp add: table_shows_def demo_table_def utf_table_builder_new_def)
  with cue_table_agrees [OF ht(1)] t(1) ht(1) show ?thesis by auto
qed

text \<open>C20: the lookups on a cue sheet with the cue IDs \<open>ids\<close> and the name table \<open>ns\<close>: a name leads to the ID
  at its \<open>CueIndex\<close>, or panics when there is no such cue; an ID at position \<open>k\<close> leads to the \<open>k\<close>-th row of
  the name table, whatever \<open>CueIndex\<close> that row has, or panics when the name table is shorter.\<close>

theorem cue_lookups:
  assumes "build (cue_builder ids) = Inr cues" and "build (name_builder ns) = Inr names"
    and "build (sheet_builder title cues names) = Inr sheet" and "length sheet < 2 ^ 32"
    and "pool_strings_ok (title # map fst ns)"
  shows "\<exists>a. acb_reader_new sjis sheet = Inr a \<and> get_name a = Inr (Some title) \<and>
    (\<forall>n. get_cue_by_name a n =
      (case from_pairs (map (\<lambda>(n, k). (n, unat k)) ns) n of None \<Rightarrow> Inr None
       | Some k \<Rightarrow> if k < length ids then Inr (Some \<lparr>cue_name = n, cue_id = ids ! k, waveforms = []\<rparr>)
                   else Inl Panic)) \<and>
    (\<forall>i. get_cue_by_id a i =
      (case from_pairs (zip ids [0..<length ids]) i of None \<Rightarrow> Inr None
       | Some k \<Rightarrow> if k < length ns then Inr (Some \<lparr>cue_name = fst (ns ! k), cue_id = i, waveforms = []\<rparr>)
                   else Inl Panic))"
  using assms by (rule sheet_lookups)

text \<open>Two cues whose names are stored in the order of the alphabet: ID 20 is the cue \<open>x\<close> by name, but the
  lookup by ID calls it \<open>y\<close>.\<close>

definition demo_ids :: "u32 list" where "demo_ids = [10, 20]"

definition demo_names :: "(rust_string \<times> u16) list" where
  "demo_names = [(ascii ''x'', 1), (ascii ''y'', 0)]"

lemma demo_sheet:
  "\<exists>cues names sheet. build (cue_builder demo_ids) = Inr cues \<and> build (name_builder demo_names) = Inr names \<and>
     build (sheet_builder (ascii ''s'') cues names) = Inr sheet \<and> length sheet < 2 ^ 32"
  by (simp add: build_eval cue_builder_def name_builder_def sheet_builder_def demo_ids_def demo_names_def
      header_layout_def UTF_MAGIC_def emit_column_def)

theorem cue_lookups_witness:
  "\<exists>sheet a. acb_reader_new (\<lambda>bs. bs) sheet = Inr a \<and>
     get_cue_by_name a (ascii ''x'') = Inr (Some \<lparr>cue_name = ascii ''x'', cue_id = 20, waveforms = []\<rparr>) \<and>
     get_cue_by_id a 20 = Inr (Some \<lparr>cue_name = ascii ''y'', cue_id = 20, waveforms = []\<rparr>)"
proof -
  obtain cues names sheet where b: "build (cue_builder demo_ids) = Inr cues" "build (name_builder demo_names) = Inr names"
    "build (sheet_builder (ascii ''s'') cues names) = Inr sheet" "length sheet < 2 ^ 32" using demo_sheet by blast
  have "pool_strings_ok (ascii ''s'' # map fst demo_names)"
    by (simp add: pool_strings_ok_def demo_names_def ascii_def)
  from cue_lookups [OF b this, of "\<lambda>bs. bs"] show ?thesis
    by (fastforce simp: demo_ids_def demo_names_def from_pairs_def ascii_def)
qed

section \<open>Vector arithmetic\<close>

text \<open>Multiplying with 16 bit lanes gives the products of the bytes, for registers of either width.\<close>

theorem bytes_multiplied:
  assumes "length a = 16" and "length b = 16" and "length c = 8" and "length d = 8"
  shows "register_bytes (multiply_bytes_avx a b) = map2 (*) (register_bytes a) (register_bytes b) \<and>
    register_bytes (multiply_bytes_sse c d) = map2 (*) (register_bytes c) (register_bytes d)"
  using multiply_bytes_lanes assms by blast

theorem bytes_multiplied_witness:
  "register_bytes (multiply_bytes_sse (replicate 8 0x0203) (replicate 8 0x1011)) = concat (replicate 8 [0x33, 0x20])"
proof -
  have eight: "replicate 8 x = [x, x, x, x, x, x, x, x]" for x :: 'a
    by (simp add: numeral_eq_Suc)
  have "lane_bytes 0x0203 = [3, 2]" "lane_bytes 0x1011 = [0x11, 0x10]"
    by (simp_all add: lane_bytes_def)
  then show ?thesis
    using bytes_multiplied [of "replicate 16 0" "replicate 16 0" "replicate 8 0x0203" "replicate 8 0x1011"]
    by (simp add: register_bytes_def eight)
qed

end
